(* ===== verification/Rabbit_Prelude.thy ===== *)
theory Rabbit_Prelude
  imports Main "HOL-Library.List_Lexorder" "HOL-Library.Char_ord"
begin

text \<open>
  What the components of the model share: the faults a run of the C++ program can end in, the
  result type of the operations that can fault, the algorithms of the C++ standard library that
  the sources call on character ranges (\<open>std::find\<close>, \<open>std::search\<close>), the decimal output of
  \<open>snprintf\<close>, and the generic lemmas on lists that the component proofs use.
\<close>

section \<open>Faults and results\<close>

text \<open>
  The build is a Debug build (\<open>test/CMakeLists.txt\<close>), so a failed \<open>assert\<close> aborts the process.
  The other faults are an exception nobody catches, a loop without end, a call of \<open>abort\<close>, and
  undefined behaviour of C++ that the sources can reach.
\<close>

datatype fault =
    AssertionFailed
  | OutOfBounds
  | NullPointer
  | UncaughtException
  | IntegerOverflow
  | InfiniteLoop
  | ProcessAbort

type_synonym 'a res = "fault + 'a"

definition andThen :: "'a res \<Rightarrow> ('a \<Rightarrow> 'b res) \<Rightarrow> 'b res" where
  "andThen r f = (case r of Inl e \<Rightarrow> Inl e | Inr x \<Rightarrow> f x)"

definition assert_that :: "bool \<Rightarrow> 'a res \<Rightarrow> 'a res" where
  "assert_that p r = (if p then r else Inl AssertionFailed)"

named_theorems res_simps "unfolding of results: sequencing and assertions"

lemma andThen_Inr [simp, res_simps]: "andThen (Inr x) f = f x"
  by (simp add: andThen_def)

lemma andThen_Inl [simp, res_simps]: "andThen (Inl e) f = Inl e"
  by (simp add: andThen_def)

lemma andThen_eq_Inr: "andThen r f = Inr y \<longleftrightarrow> (\<exists>x. r = Inr x \<and> f x = Inr y)"
  by (cases r) (auto simp: andThen_def)

lemma assert_that_True [simp, res_simps]: "assert_that True r = r"
  by (simp add: assert_that_def)

lemma assert_that_False [simp, res_simps]: "assert_that False r = Inl AssertionFailed"
  by (simp add: assert_that_def)

lemma assert_that_eq_Inr: "assert_that p r = Inr y \<longleftrightarrow> p \<and> r = Inr y"
  by (simp add: assert_that_def)

section \<open>Characters\<close>

abbreviation NUL :: char where "NUL \<equiv> CHR 0x00"
abbreviation CR :: char where "CR \<equiv> CHR 0x0D"
abbreviation LF :: char where "LF \<equiv> CHR 0x0A"
abbreviation SP :: char where "SP \<equiv> CHR 0x20"

definition crlf :: string where
  "crlf = [CR, LF]"

lemma length_crlf [simp]: "length crlf = 2"
  by (simp add: crlf_def)

text \<open>\<open>isspace\<close> in the C locale: space, and the five control characters from TAB to CR.\<close>

definition isspace :: "char \<Rightarrow> bool" where
  "isspace c \<longleftrightarrow> c \<in> {SP, CHR 0x09, LF, CHR 0x0B, CHR 0x0C, CR}"

section \<open>Searching in ranges\<close>

text \<open>
  \<open>std::find\<close> and \<open>std::search\<close> return an iterator; the model returns its distance from the
  first iterator, the length of the range standing for the last one (not found).
\<close>

fun std_find :: "'a \<Rightarrow> 'a list \<Rightarrow> nat" where
  "std_find c [] = 0"
| "std_find c (x # xs) = (if x = c then 0 else Suc (std_find c xs))"

fun std_search :: "'a list \<Rightarrow> 'a list \<Rightarrow> nat" where
  "std_search pat [] = 0"
| "std_search pat (x # xs) =
     (if take (length pat) (x # xs) = pat then 0 else Suc (std_search pat xs))"

lemma std_find_le [simp]: "std_find c xs \<le> length xs"
  by (induction xs) auto

lemma std_find_less_iff: "std_find c xs < length xs \<longleftrightarrow> c \<in> set xs"
  by (induction xs) auto

lemma std_find_notin [simp]: "c \<notin> set xs \<Longrightarrow> std_find c xs = length xs"
  by (induction xs) auto

lemma std_find_append [simp]: "c \<notin> set xs \<Longrightarrow> std_find c (xs @ c # ys) = length xs"
  by (induction xs) auto

lemma std_find_nth: "c \<in> set xs \<Longrightarrow> xs ! std_find c xs = c"
  by (induction xs) auto

lemma take_std_find_notin: "c \<notin> set (take (std_find c xs) xs)"
  by (induction xs) auto

lemma take_std_find: "take (std_find c xs) xs = takeWhile (\<lambda>x. x \<noteq> c) xs"
  by (induction xs) auto

lemma drop_std_find: "drop (std_find c xs) xs = dropWhile (\<lambda>x. x \<noteq> c) xs"
  by (induction xs) auto

lemma std_find_eq_length: "std_find c xs = length xs \<longleftrightarrow> c \<notin> set xs"
  using std_find_less_iff [of c xs] by (metis less_irrefl std_find_notin)

text \<open>The range in front of the first occurrence, and the range behind it.\<close>

lemma std_find_split:
  assumes "std_find c xs \<noteq> length xs"
  obtains us vs where "xs = us @ c # vs" "c \<notin> set us" "take (std_find c xs) xs = us"
    "drop (std_find c xs + 1) xs = vs" "std_find c xs = length us"
proof -
  from assms have "c \<in> set xs" by (simp add: std_find_eq_length)
  then obtain us vs where x: "xs = us @ c # vs" "c \<notin> set us" by (meson split_list_first)
  then show thesis using that [of us vs] by simp
qed

lemma std_search_le [simp]: "std_search pat xs \<le> length xs"
  by (induction xs) auto

lemma std_search_hit:
  "std_search pat xs < length xs \<Longrightarrow> take (length pat) (drop (std_search pat xs) xs) = pat"
  by (induction xs) (auto split: if_splits)

lemma std_search_first:
  "i < std_search pat xs \<Longrightarrow> take (length pat) (drop i xs) \<noteq> pat"
proof (induction xs arbitrary: i)
  case Nil
  then show ?case by simp
next
  case (Cons x xs)
  then show ?case by (cases i) (auto split: if_splits)
qed

lemma std_search_less_iff:
  "pat \<noteq> [] \<Longrightarrow> std_search pat xs < length xs \<longleftrightarrow> (\<exists>us vs. xs = us @ pat @ vs)"
proof (induction xs)
  case Nil
  then show ?case by auto
next
  case (Cons x xs)
  show ?case
  proof (cases "take (length pat) (x # xs) = pat")
    case True
    then have "x # xs = [] @ pat @ drop (length pat) (x # xs)"
      by (metis append_Nil append_take_drop_id)
    with True show ?thesis by (metis length_Cons std_search.simps(2) zero_less_Suc)
  next
    case False
    have "(\<exists>us vs. x # xs = us @ pat @ vs) \<longleftrightarrow> (\<exists>us vs. xs = us @ pat @ vs)" (is "?l \<longleftrightarrow> ?r")
    proof
      assume ?l
      then obtain us vs where e: "x # xs = us @ pat @ vs" by blast
      with False have "us \<noteq> []" by (cases us) auto
      with e have "xs = tl us @ pat @ vs" by (cases us) auto
      then show ?r by blast
    next
      assume ?r
      then show ?l by (metis append_Cons)
    qed
    with False Cons show ?thesis by simp
  qed
qed

lemma std_search_within:
  assumes "pat \<noteq> []" and "std_search pat xs < length xs"
  shows "std_search pat xs + length pat \<le> length xs"
proof -
  from std_search_hit [OF assms(2)] have "length (take (length pat) (drop (std_search pat xs) xs)) = length pat"
    by simp
  with assms show ?thesis by simp
qed

lemma std_search_crlf_line [simp]:
  "CR \<notin> set l \<Longrightarrow> std_search crlf (l @ CR # LF # rest) = length l"
  by (induction l) (auto simp: crlf_def)

lemma std_search_crlf_none [simp]: "CR \<notin> set l \<Longrightarrow> std_search crlf l = length l"
  by (induction l) (auto simp: crlf_def)

text \<open>A text split at its first line end: the line and what follows it.\<close>

definition split_line :: "string \<Rightarrow> (string \<times> string) option" where
  "split_line q =
     (let i = std_search crlf q in if i = length q then None else Some (take i q, drop (i + 2) q))"

lemma split_line_Some:
  assumes "split_line q = Some (l, rest)"
  shows "q = l @ crlf @ rest" and "std_search crlf q = length l" and "std_search crlf q < length q"
    and "length l + 2 + length rest = length q"
proof -
  let ?i = "std_search crlf q"
  from assms have i: "?i < length q" and l: "l = take ?i q" and r: "rest = drop (?i + 2) q"
    by (auto simp: split_line_def Let_def le_neq_trans split: if_splits)
  from std_search_hit [OF i] have h: "take 2 (drop ?i q) = crlf" by simp
  from std_search_within [OF _ i] have w: "?i + 2 \<le> length q" by (simp add: crlf_def)
  have "q = take ?i q @ take 2 (drop ?i q) @ drop 2 (drop ?i q)"
    by (simp only: append_take_drop_id)
  with h l r show "q = l @ crlf @ rest" by (simp add: add.commute)
  show "?i = length l" "?i < length q" using i l by simp_all
  show "length l + 2 + length rest = length q" using i l r w by simp
qed

lemma split_line_None: "split_line q = None \<longleftrightarrow> std_search crlf q = length q"
  by (simp add: split_line_def Let_def)

lemma split_line_shorter: "split_line q = Some (l, rest) \<Longrightarrow> length rest < length q"
  by (drule split_line_Some(4)) simp

lemma split_line_append: "split_line q = Some (l, rest) \<Longrightarrow> split_line (q @ s) = Some (l, rest @ s)"
proof -
  assume a: "split_line q = Some (l, rest)"
  note u = split_line_Some [OF a]
  have "std_search crlf (q @ s) = std_search crlf q"
    using u(3,4) unfolding u(2) [symmetric]
  proof (induction q)
    case (Cons x q)
    then show ?case by (cases q) (auto simp: crlf_def split: if_splits)
  qed simp
  moreover have "take (length l) (q @ s) = l" "drop (length l + 2) (q @ s) = rest @ s"
    by (simp_all add: u(1) crlf_def)
  ultimately show ?thesis using u(2,3) by (simp add: split_line_def)
qed

lemma split_line_line [simp]: "CR \<notin> set l \<Longrightarrow> split_line (l @ CR # LF # rest) = Some (l, rest)"
  by (simp add: split_line_def)

text \<open>A header line: a name, a colon, a space, a value and the line end.\<close>

definition render_header :: "string \<times> string \<Rightarrow> string" where
  "render_header kv = fst kv @ '': '' @ snd kv @ crlf"

lemma render_header_line: "render_header (k, v) = (k @ '': '' @ v) @ crlf"
  by (simp add: render_header_def)

section \<open>Overwriting part of a list\<close>

definition put_at :: "nat \<Rightarrow> 'a list \<Rightarrow> 'a list \<Rightarrow> 'a list" where
  "put_at i s xs = take i xs @ s @ drop (i + length s) xs"

lemma length_put_at [simp]: "i + length s \<le> length xs \<Longrightarrow> length (put_at i s xs) = length xs"
  by (simp add: put_at_def)

lemma take_put_at_before: "j \<le> i \<Longrightarrow> i \<le> length xs \<Longrightarrow> take j (put_at i s xs) = take j xs"
  by (simp add: put_at_def min_def)

lemma take_put_at_end:
  "i \<le> length xs \<Longrightarrow> take (i + length s) (put_at i s xs) = take i xs @ s"
  by (simp add: put_at_def)

text \<open>The bytes from position \<open>i\<close> up to position \<open>j\<close>.\<close>

definition slice :: "nat \<Rightarrow> nat \<Rightarrow> 'a list \<Rightarrow> 'a list" where
  "slice i j xs = drop i (take j xs)"

lemma length_slice [simp]: "j \<le> length xs \<Longrightarrow> length (slice i j xs) = j - i"
  by (simp add: slice_def)

lemma slice_empty [simp]: "j \<le> i \<Longrightarrow> slice i j xs = []"
  by (simp add: slice_def)

lemma slice_slice: "slice i j (slice k l xs) = slice (k + i) (min (k + j) l) xs"
  by (simp add: slice_def take_drop add.commute)

lemma slice_put_at_end:
  "k \<le> i \<Longrightarrow> i \<le> length xs \<Longrightarrow> slice k (i + length s) (put_at i s xs) = slice k i xs @ s"
  by (simp add: slice_def take_put_at_end)

lemma slice_put_at_start: "slice 0 (length s) (put_at 0 s xs) = s"
  by (simp add: slice_def put_at_def)

lemma drop_slice: "drop n (slice i j xs) = slice (i + n) j xs"
  by (simp add: slice_def add.commute)

lemma take_slice: "i + n \<le> j \<Longrightarrow> take n (slice i j xs) = slice i (i + n) xs"
  by (simp add: slice_def take_drop min_absorb1 add.commute)

section \<open>Decimal output\<close>

text \<open>\<open>snprintf\<close> with \<open>%d\<close>, \<open>%zd\<close> and \<open>PRId64\<close>.\<close>

definition digit :: "nat \<Rightarrow> char" where
  "digit d = char_of (48 + d)"

fun show_nat :: "nat \<Rightarrow> string" where
  "show_nat n = (if n < 10 then [digit n] else show_nat (n div 10) @ [digit (n mod 10)])"

declare show_nat.simps [simp del]

definition show_int :: "int \<Rightarrow> string" where
  "show_int i = (if i < 0 then CHR ''-'' # show_nat (nat (- i)) else show_nat (nat i))"

definition parse_nat :: "string \<Rightarrow> nat" where
  "parse_nat s = foldl (\<lambda>a c. 10 * a + (of_char c - 48)) 0 s"

lemma of_char_digit [simp]: "d < 10 \<Longrightarrow> (of_char (digit d) :: nat) = 48 + d"
  by (simp add: digit_def)

lemma show_nat_nonempty [simp]: "show_nat n \<noteq> []"
  by (subst show_nat.simps) simp

lemma parse_show_nat [simp]: "parse_nat (show_nat n) = n"
proof (induction n rule: show_nat.induct)
  case (1 n)
  show ?case
  proof (cases "n < 10")
    case True
    then show ?thesis by (subst show_nat.simps) (simp add: parse_nat_def)
  next
    case False
    with 1 have "parse_nat (show_nat (n div 10)) = n div 10" by simp
    with False show ?thesis by (subst show_nat.simps) (simp add: parse_nat_def)
  qed
qed

lemma show_nat_inject [simp]: "show_nat m = show_nat n \<longleftrightarrow> m = n"
  by (metis parse_show_nat)

lemma show_nat_digits: "c \<in> set (show_nat n) \<Longrightarrow> 48 \<le> (of_char c :: nat) \<and> (of_char c :: nat) \<le> 57"
proof (induction n rule: show_nat.induct)
  case (1 n)
  show ?case
  proof (cases "n < 10")
    case True
    with 1(2) show ?thesis by (subst (asm) show_nat.simps) simp
  next
    case False
    have d: "n mod 10 < 10" by simp
    from False 1(2) have "c \<in> set (show_nat (n div 10)) \<or> c = digit (n mod 10)"
      by (subst (asm) show_nat.simps) auto
    with 1(1) False d show ?thesis by (auto simp del: mod_less_divisor)
  qed
qed

lemma length_show_nat_le: "0 < k \<Longrightarrow> n < 10 ^ k \<Longrightarrow> length (show_nat n) \<le> k"
proof (induction k arbitrary: n)
  case 0
  then show ?case by simp
next
  case (Suc k)
  show ?case
  proof (cases "n < 10")
    case True
    then show ?thesis by (subst show_nat.simps) simp
  next
    case False
    then have "0 < k" using Suc.prems(2) by (cases k) auto
    moreover have "n div 10 < 10 ^ k" using Suc.prems(2) by (simp add: less_mult_imp_div_less mult.commute)
    ultimately have "length (show_nat (n div 10)) \<le> k" by (rule Suc.IH)
    with False show ?thesis by (subst show_nat.simps) simp
  qed
qed

lemma parse_nat_zeros [simp]: "parse_nat (replicate k CHR ''0'' @ s) = parse_nat s"
  by (induction k) (simp_all add: parse_nat_def)

text \<open>\<open>snprintf\<close> into \<open>n\<close> bytes keeps \<open>n - 1\<close> characters; leading zeros fill a field.\<close>

definition snprintf :: "nat \<Rightarrow> string \<Rightarrow> string" where
  "snprintf n s = take (n - 1) s"

definition pad_zeros :: "nat \<Rightarrow> string \<Rightarrow> string" where
  "pad_zeros n s = replicate (n - length s) CHR ''0'' @ s"

section \<open>Progress\<close>

text \<open>A step that decreases a well-founded measure, as long as there is one, leads to the goal.\<close>

lemma progress_reaches:
  assumes "wf r" and "I s" and "\<And>s. I s \<Longrightarrow> \<not> P s \<Longrightarrow> \<exists>s'. R s s' \<and> I s' \<and> (s', s) \<in> r"
  shows "\<exists>s'. R\<^sup>*\<^sup>* s s' \<and> I s' \<and> P s'"
  using assms(1,2)
proof (induction s rule: wf_induct_rule)
  case (less s)
  show ?case
  proof (cases "P s")
    case True
    with less.prems show ?thesis by blast
  next
    case False
    with less.prems assms(3) obtain s' where "R s s'" "I s'" "(s', s) \<in> r" by blast
    with less.IH show ?thesis by (meson converse_rtranclp_into_rtranclp)
  qed
qed

end
