(* ===== verification/Byte_Buffer.thy ===== *)
theory Byte_Buffer
  imports Rabbit_Prelude
begin

text \<open>
  \<open>net/Buffer.h\<close> and \<open>net/Buffer.cpp\<close>: the byte buffer every connection reads into and writes
  from. The storage is the memory block of the \<open>std::vector\<close>, as long as its capacity, together
  with the vector's size; the sources write through \<open>begin() + i\<close> into the whole block, also
  past \<open>size()\<close>, so the model keeps the whole block. Pointers into the buffer are offsets from
  \<open>begin()\<close>, the null pointer is \<open>None\<close>. The indices are C \<open>int\<close>s, modelled as integers: every
  value they take is between 0 and the capacity (\<open>buf_run_queue\<close>), so for capacities below
  \<open>2 ^ 31\<close> no operation overflows.
\<close>

section \<open>The vector\<close>

record vec =
  elems :: "char list"
  vec_size :: nat

definition capacity :: "vec \<Rightarrow> nat" where
  "capacity v = length (elems v)"

text \<open>
  \<open>std::vector<char>::resize\<close>, growing as the GNU library does: within the capacity the new
  elements are zeroed in place; past it a block of at least twice the size is allocated, the
  first \<open>size()\<close> elements are copied, and the elements up to the new size are zeroed. The
  bytes of a new block past its size are indeterminate; the model has zeros there.
\<close>

definition vec_resize :: "nat \<Rightarrow> vec \<Rightarrow> vec" where
  "vec_resize n v =
     (if n \<le> vec_size v then v\<lparr>vec_size := n\<rparr>
      else if n \<le> capacity v then
        v\<lparr>elems := put_at (vec_size v) (replicate (n - vec_size v) NUL) (elems v), vec_size := n\<rparr>
      else
        \<lparr>elems = take (vec_size v) (elems v)
                @ replicate (max (vec_size v) (n - vec_size v)) NUL,
         vec_size = n\<rparr>)"

definition vec_write :: "nat \<Rightarrow> char list \<Rightarrow> vec \<Rightarrow> vec" where
  "vec_write i s v = v\<lparr>elems := put_at i s (elems v)\<rparr>"

section \<open>The buffer and its operations\<close>

record Buffer =
  buffer :: vec
  readIndex :: int
  writeIndex :: int

definition DEFAULTINITSIZE :: int where
  "DEFAULTINITSIZE = 1024"

definition Buffer_new :: "int \<Rightarrow> Buffer" where
  "Buffer_new initSize =
     (let initSize = (if initSize < DEFAULTINITSIZE then DEFAULTINITSIZE else initSize)
      in \<lparr>buffer = vec_resize (nat initSize) \<lparr>elems = [], vec_size = 0\<rparr>,
          readIndex = 0, writeIndex = 0\<rparr>)"

definition Buffer_peek :: "Buffer \<Rightarrow> int" where
  "Buffer_peek b = readIndex b"

definition Buffer_writeableBytes :: "Buffer \<Rightarrow> int" where
  "Buffer_writeableBytes b = int (capacity (buffer b)) - writeIndex b"

definition Buffer_readbleBytes :: "Buffer \<Rightarrow> int" where
  "Buffer_readbleBytes b = writeIndex b - readIndex b"

definition Buffer_ensureWritebale :: "int \<Rightarrow> Buffer \<Rightarrow> Buffer" where
  "Buffer_ensureWritebale len b =
     (let writeAble = Buffer_writeableBytes b in
      if len > writeAble then
        if len - writeAble < readIndex b then
          b\<lparr>buffer := vec_write 0 (slice (nat (readIndex b)) (nat (writeIndex b)) (elems (buffer b)))
                       (buffer b),
            writeIndex := writeIndex b - readIndex b,
            readIndex := 0\<rparr>
        else
          b\<lparr>buffer := vec_resize (nat (writeIndex b + len)) (buffer b)\<rparr>
      else b)"

text \<open>
  The argument is the range \<open>[source, source + len)\<close>; a null \<open>source\<close> has no counterpart.
\<close>

definition Buffer_append :: "char list \<Rightarrow> Buffer \<Rightarrow> Buffer" where
  "Buffer_append source b =
     (let len = int (length source);
          b = Buffer_ensureWritebale len b
      in if Buffer_writeableBytes b \<ge> len then
           b\<lparr>buffer := vec_write (nat (writeIndex b)) source (buffer b),
             writeIndex := writeIndex b + len\<rparr>
         else b)"

definition Buffer_append_string :: "string \<Rightarrow> Buffer \<Rightarrow> Buffer" where
  "Buffer_append_string str b = Buffer_append str b"

text \<open>The bytes between two pointers into the buffer.\<close>

definition Buffer_range :: "Buffer \<Rightarrow> int \<Rightarrow> int \<Rightarrow> char list" where
  "Buffer_range b p q = slice (nat p) (nat q) (elems (buffer b))"

definition Buffer_append_buffer :: "Buffer \<Rightarrow> Buffer \<Rightarrow> Buffer" where
  "Buffer_append_buffer buf b =
     Buffer_append (Buffer_range buf (Buffer_peek buf) (Buffer_peek buf + Buffer_readbleBytes buf)) b"

definition Buffer_retrieve :: "int \<Rightarrow> Buffer \<Rightarrow> int \<times> Buffer" where
  "Buffer_retrieve len b =
     (if len \<ge> writeIndex b - readIndex b then
        (writeIndex b - readIndex b, b\<lparr>writeIndex := 0, readIndex := 0\<rparr>)
      else (len, b\<lparr>readIndex := readIndex b + len\<rparr>))"

definition Buffer_retrieveAll :: "Buffer \<Rightarrow> int \<times> Buffer" where
  "Buffer_retrieveAll b = Buffer_retrieve (writeIndex b - readIndex b) b"

text \<open>A negative length makes the constructor of \<open>std::string\<close> throw.\<close>

definition Buffer_retrieveAsString :: "int \<Rightarrow> Buffer \<Rightarrow> (string \<times> Buffer) res" where
  "Buffer_retrieveAsString len b =
     (let len = (if len \<ge> writeIndex b - readIndex b then writeIndex b - readIndex b else len)
      in if len < 0 then Inl UncaughtException
         else Inr (Buffer_range b (readIndex b) (readIndex b + len),
                   b\<lparr>writeIndex := 0, readIndex := 0\<rparr>))"

definition Buffer_retrieveAllAsString :: "Buffer \<Rightarrow> string \<times> Buffer" where
  "Buffer_retrieveAllAsString b =
     (Buffer_range b (readIndex b) (writeIndex b), b\<lparr>writeIndex := 0, readIndex := 0\<rparr>)"

text \<open>
  What \<open>readv\<close> gives: an error number, or the bytes read. The kernel fills the first block,
  the free space of the buffer, before the second one, \<open>extrabuf\<close>, and never reads more than
  the two can hold (\<open>readv_fits\<close>). The result is the return value, the value written to
  \<open>*savedErrno\<close> if any, and the buffer.
\<close>

datatype read_result = ReadErr int | ReadBytes "char list"

definition extrabuf_size :: int where
  "extrabuf_size = 65536"

definition readv_fits :: "Buffer \<Rightarrow> read_result \<Rightarrow> bool" where
  "readv_fits b r = (case r of ReadErr _ \<Rightarrow> True
     | ReadBytes bs \<Rightarrow> int (length bs) \<le> Buffer_writeableBytes b + extrabuf_size)"

definition Buffer_readFd :: "read_result \<Rightarrow> Buffer \<Rightarrow> int \<times> int option \<times> Buffer" where
  "Buffer_readFd r b =
     (case r of
        ReadErr errno \<Rightarrow> (-1, Some errno, b)
      | ReadBytes bs \<Rightarrow>
          (let writeAble = Buffer_writeableBytes b;
               n = int (length bs);
               extrabuf = drop (nat writeAble) bs;
               b = b\<lparr>buffer := vec_write (nat (writeIndex b)) (take (nat writeAble) bs) (buffer b)\<rparr>
           in if n \<le> writeAble then (n, None, b\<lparr>writeIndex := writeIndex b + n\<rparr>)
              else (n, None,
                    Buffer_append extrabuf (b\<lparr>writeIndex := int (vec_size (buffer b))\<rparr>))))"

definition Buffer_findCLRF :: "int \<Rightarrow> Buffer \<Rightarrow> int option res" where
  "Buffer_findCLRF start b =
     assert_that (start \<ge> 0) (assert_that (start \<le> writeIndex b)
       (let found = start + int (std_search crlf (Buffer_range b start (writeIndex b)))
        in Inr (if found = writeIndex b then None else Some found)))"

definition Buffer_retrieveUntill :: "int \<Rightarrow> Buffer \<Rightarrow> (int \<times> Buffer) res" where
  "Buffer_retrieveUntill end b =
     assert_that (Buffer_peek b \<le> end) (assert_that (end \<le> writeIndex b)
       (Inr (Buffer_retrieve (end - Buffer_peek b) b)))"

definition Buffer_findEOF :: "int \<Rightarrow> Buffer \<Rightarrow> int option res" where
  "Buffer_findEOF start b =
     assert_that (Buffer_peek b \<le> start) (assert_that (start \<le> writeIndex b)
       (let i = std_find LF (Buffer_range b start (writeIndex b))
        in Inr (if start + int i = writeIndex b then None else Some (start + int i))))"

section \<open>Well-formed buffers and their contents\<close>

text \<open>
  The contents are the bytes between the two indices. A buffer is \<^emph>\<open>clean\<close> when all of them
  are elements of the vector, and \<^emph>\<open>tight\<close> when the vector has no spare capacity.
\<close>

definition Buffer_inv :: "Buffer \<Rightarrow> bool" where
  "Buffer_inv b \<longleftrightarrow> 0 \<le> readIndex b \<and> readIndex b \<le> writeIndex b
     \<and> writeIndex b \<le> int (capacity (buffer b)) \<and> vec_size (buffer b) \<le> capacity (buffer b)"

definition contents :: "Buffer \<Rightarrow> char list" where
  "contents b = Buffer_range b (readIndex b) (writeIndex b)"

definition clean :: "Buffer \<Rightarrow> bool" where
  "clean b \<longleftrightarrow> writeIndex b \<le> int (vec_size (buffer b))"

definition tight :: "Buffer \<Rightarrow> bool" where
  "tight b \<longleftrightarrow> vec_size (buffer b) = capacity (buffer b)"

text \<open>The bytes fit behind the write index, or fit once the read bytes are dropped.\<close>

definition fits :: "nat \<Rightarrow> Buffer \<Rightarrow> bool" where
  "fits n b \<longleftrightarrow> int n \<le> Buffer_writeableBytes b"

definition compacts :: "nat \<Rightarrow> Buffer \<Rightarrow> bool" where
  "compacts n b \<longleftrightarrow> int n - Buffer_writeableBytes b < readIndex b"

named_theorems buffer_simps "views of a buffer: capacity, free space, ranges"

lemma capacity_simps [simp, buffer_simps]:
  "capacity (vec_write i s v) = length (put_at i s (elems v))"
  "capacity \<lparr>elems = es, vec_size = n\<rparr> = length es"
  "vec_size (vec_write i s v) = vec_size v"
  by (simp_all add: capacity_def vec_write_def)

lemma elems_vec_write [simp, buffer_simps]: "elems (vec_write i s v) = put_at i s (elems v)"
  by (simp add: vec_write_def)

lemma capacity_resize:
  "capacity (vec_resize n v) =
     (if n \<le> capacity v then capacity v else vec_size v + max (vec_size v) (n - vec_size v))"
  if "vec_size v \<le> capacity v"
  using that by (auto simp: vec_resize_def capacity_def)

lemma vec_size_resize [simp]: "vec_size (vec_resize n v) = n"
  by (simp add: vec_resize_def)

lemma capacity_resize_ge: "n \<le> capacity (vec_resize n v)" if "vec_size v \<le> capacity v"
  using that by (auto simp: capacity_resize max_def)

lemma length_contents: "Buffer_inv b \<Longrightarrow> length (contents b) = nat (writeIndex b - readIndex b)"
  by (simp add: Buffer_inv_def contents_def Buffer_range_def capacity_def nat_le_iff nat_diff_distrib)

lemma contents_readble: "Buffer_inv b \<Longrightarrow> Buffer_readbleBytes b = int (length (contents b))"
  by (simp add: length_contents Buffer_readbleBytes_def Buffer_inv_def)

lemma contents_Nil_iff: "Buffer_inv b \<Longrightarrow> contents b = [] \<longleftrightarrow> Buffer_readbleBytes b = 0"
  by (simp add: contents_readble)

lemma inv_nat:
  "Buffer_inv b \<Longrightarrow> nat (readIndex b) \<le> nat (writeIndex b)"
  "Buffer_inv b \<Longrightarrow> nat (writeIndex b) \<le> length (elems (buffer b))"
  by (auto simp: Buffer_inv_def capacity_def)

section \<open>Making room\<close>

lemma ensure_fits: "fits n b \<Longrightarrow> Buffer_ensureWritebale (int n) b = b"
  by (simp add: Buffer_ensureWritebale_def fits_def Let_def)

lemma ensure_compacts:
  assumes "Buffer_inv b" and "\<not> fits n b" and "compacts n b"
  shows "Buffer_inv (Buffer_ensureWritebale (int n) b)"
    and "contents (Buffer_ensureWritebale (int n) b) = contents b"
    and "fits n (Buffer_ensureWritebale (int n) b)"
    and "vec_size (buffer (Buffer_ensureWritebale (int n) b)) = vec_size (buffer b)"
    and "capacity (buffer (Buffer_ensureWritebale (int n) b)) = capacity (buffer b)"
    and "writeIndex (Buffer_ensureWritebale (int n) b) \<le> writeIndex b"
proof -
  let ?s = "slice (nat (readIndex b)) (nat (writeIndex b)) (elems (buffer b))"
  have e: "Buffer_ensureWritebale (int n) b =
      b\<lparr>buffer := vec_write 0 ?s (buffer b), writeIndex := writeIndex b - readIndex b, readIndex := 0\<rparr>"
    using assms by (simp add: Buffer_ensureWritebale_def fits_def compacts_def Let_def)
  have l: "length ?s = nat (writeIndex b - readIndex b)"
    using assms(1) by (simp add: Buffer_inv_def capacity_def nat_le_iff nat_diff_distrib)
  have c: "length (put_at 0 ?s (elems (buffer b))) = length (elems (buffer b))"
    using assms(1) l by (intro length_put_at) (auto simp: Buffer_inv_def capacity_def)
  show "Buffer_inv (Buffer_ensureWritebale (int n) b)"
    using assms(1) c by (simp add: e Buffer_inv_def capacity_def)
  show "contents (Buffer_ensureWritebale (int n) b) = contents b"
    using slice_put_at_start [of ?s "elems (buffer b)"] l
    by (simp add: e contents_def Buffer_range_def)
  show "fits n (Buffer_ensureWritebale (int n) b)"
    using assms c by (simp add: e fits_def compacts_def Buffer_writeableBytes_def capacity_def)
  show "vec_size (buffer (Buffer_ensureWritebale (int n) b)) = vec_size (buffer b)"
    by (simp add: e)
  show "capacity (buffer (Buffer_ensureWritebale (int n) b)) = capacity (buffer b)"
    using c by (simp add: e capacity_def)
  show "writeIndex (Buffer_ensureWritebale (int n) b) \<le> writeIndex b"
    using assms(1) by (simp add: e Buffer_inv_def)
qed

text \<open>
  Growing copies only the elements of the vector: of the contents, the bytes below \<open>size()\<close>
  survive and the others are zeroed.
\<close>

definition survivors :: "Buffer \<Rightarrow> char list" where
  "survivors b = take (vec_size (buffer b) - nat (readIndex b)) (contents b)"

definition grown_contents :: "Buffer \<Rightarrow> char list" where
  "grown_contents b =
     survivors b @ replicate (length (contents b) - length (survivors b)) NUL"

lemma grown_contents_clean: "Buffer_inv b \<Longrightarrow> clean b \<Longrightarrow> grown_contents b = contents b"
proof -
  assume "Buffer_inv b" "clean b"
  then have "length (contents b) \<le> vec_size (buffer b) - nat (readIndex b)"
    by (auto simp: clean_def length_contents Buffer_inv_def)
  then show ?thesis by (simp add: grown_contents_def survivors_def)
qed

lemma diff_max_eq: "w - max r z = w - r - min (w - r) (z - r)" for w :: nat
  by (cases "r \<le> z"; cases "w \<le> z"; auto simp: max_def min_def)

lemma slice_take_fill:
  assumes "r \<le> w" "w \<le> length xs" "w - z \<le> k"
  shows "slice r w (take z xs @ replicate k x) =
           take (z - r) (slice r w xs) @ replicate (w - max r z) x"
proof -
  have "slice r w (take z xs @ replicate k x) =
      drop r (take (min w z) xs) @ drop (r - min (length xs) (min w z)) (take (w - min z (length xs)) (replicate k x))"
    by (simp add: slice_def min.commute)
  moreover have "drop r (take (min w z) xs) = take (z - r) (slice r w xs)"
    using assms by (simp add: slice_def drop_take min_diff min.commute)
  moreover have "drop (r - min (length xs) (min w z)) (take (w - min z (length xs)) (replicate k x)) = replicate (w - max r z) x"
  proof (cases "w \<le> z")
    case True
    with assms(2) show ?thesis by (simp add: max_def)
  next
    case False
    then have 1: "min (length xs) (min w z) = z" and 2: "min z (length xs) = z"
      using assms(2) by simp_all
    have 3: "w - z - (r - z) = w - max r z" by (simp add: max_def)
    show ?thesis
      by (simp only: 1 2 3 take_replicate drop_replicate min_absorb1 [OF assms(3)])
  qed
  ultimately show ?thesis by (simp only:)
qed

lemma ensure_grows:
  assumes "Buffer_inv b" and "\<not> fits n b" and "\<not> compacts n b"
  shows "Buffer_inv (Buffer_ensureWritebale (int n) b)"
    and "contents (Buffer_ensureWritebale (int n) b) = grown_contents b"
    and "fits n (Buffer_ensureWritebale (int n) b)"
    and "int (vec_size (buffer (Buffer_ensureWritebale (int n) b))) = writeIndex b + int n"
    and "writeIndex (Buffer_ensureWritebale (int n) b) = writeIndex b"
proof -
  let ?v = "buffer b" and ?r = "nat (readIndex b)" and ?w = "nat (writeIndex b)"
  let ?n = "nat (writeIndex b + int n)"
  have e: "Buffer_ensureWritebale (int n) b = b\<lparr>buffer := vec_resize ?n ?v\<rparr>"
    using assms by (simp add: Buffer_ensureWritebale_def fits_def compacts_def Let_def)
  have big: "capacity ?v < ?n" "vec_size ?v \<le> capacity ?v" "?r \<le> ?w" "?w \<le> capacity ?v"
    using assms by (simp_all add: fits_def Buffer_writeableBytes_def Buffer_inv_def nat_le_iff nat_mono)
  have "?w \<le> ?n"
    using big(1,4) by simp
  then have room: "?w - vec_size ?v \<le> max (vec_size ?v) (?n - vec_size ?v)"
    by (meson diff_le_mono max.coboundedI2)
  from big have v: "elems (vec_resize ?n ?v) =
      take (vec_size ?v) (elems ?v) @ replicate (max (vec_size ?v) (?n - vec_size ?v)) NUL"
    by (simp add: vec_resize_def)
  have cap: "?n \<le> capacity (vec_resize ?n ?v)"
    using big by (intro capacity_resize_ge) simp
  show "Buffer_inv (Buffer_ensureWritebale (int n) b)"
    using assms(1) cap by (simp add: e Buffer_inv_def nat_le_iff)
  show "fits n (Buffer_ensureWritebale (int n) b)"
    using cap by (simp add: e fits_def Buffer_writeableBytes_def nat_le_iff)
  show "int (vec_size (buffer (Buffer_ensureWritebale (int n) b))) = writeIndex b + int n"
    using assms(1) by (simp add: e Buffer_inv_def)
  show "writeIndex (Buffer_ensureWritebale (int n) b) = writeIndex b"
    by (simp add: e)
  have "contents (b\<lparr>buffer := vec_resize ?n ?v\<rparr>) =
      take (vec_size ?v - ?r) (slice ?r ?w (elems ?v)) @ replicate (?w - max ?r (vec_size ?v)) NUL"
    by (simp add: contents_def Buffer_range_def v
        slice_take_fill [OF big(3) big(4) [unfolded capacity_def] room])
  moreover have "?w - max ?r (vec_size ?v) = length (contents b) - length (survivors b)"
    using big by (simp add: survivors_def contents_def Buffer_range_def capacity_def diff_max_eq)
  ultimately show "contents (Buffer_ensureWritebale (int n) b) = grown_contents b"
    by (simp add: e grown_contents_def survivors_def contents_def Buffer_range_def)
qed

section \<open>Appending\<close>

lemma append_fit_eq:
  "fits (length s) b \<Longrightarrow> Buffer_append s b =
     b\<lparr>buffer := vec_write (nat (writeIndex b)) s (buffer b), writeIndex := writeIndex b + int (length s)\<rparr>"
  by (simp add: Buffer_append_def ensure_fits fits_def Let_def)

lemma append_fit_readble:
  "fits (length s) b \<Longrightarrow> Buffer_readbleBytes (Buffer_append s b) = Buffer_readbleBytes b + int (length s)"
  by (simp add: append_fit_eq Buffer_readbleBytes_def)

lemma append_fitting:
  assumes "Buffer_inv b" and "fits (length s) b"
  shows "contents (Buffer_append s b) = contents b @ s"
    and "Buffer_inv (Buffer_append s b)"
    and "vec_size (buffer (Buffer_append s b)) = vec_size (buffer b)"
    and "capacity (buffer (Buffer_append s b)) = capacity (buffer b)"
    and "writeIndex (Buffer_append s b) = writeIndex b + int (length s)"
    and "readIndex (Buffer_append s b) = readIndex b"
proof -
  note e = append_fit_eq [OF assms(2)]
  have n: "nat (writeIndex b + int (length s)) = nat (writeIndex b) + length s"
    using assms(1) by (simp add: Buffer_inv_def nat_add_distrib)
  have w: "nat (writeIndex b) + length s \<le> length (elems (buffer b))"
    using assms by (simp add: Buffer_inv_def fits_def Buffer_writeableBytes_def capacity_def nat_le_iff
        flip: n)
  show "contents (Buffer_append s b) = contents b @ s"
    using inv_nat [OF assms(1)] n by (simp add: e contents_def Buffer_range_def slice_put_at_end)
  show "Buffer_inv (Buffer_append s b)"
    using assms w n by (simp add: e Buffer_inv_def fits_def Buffer_writeableBytes_def capacity_def)
  show "vec_size (buffer (Buffer_append s b)) = vec_size (buffer b)"
    "writeIndex (Buffer_append s b) = writeIndex b + int (length s)"
    "readIndex (Buffer_append s b) = readIndex b"
    by (simp_all add: e)
  show "capacity (buffer (Buffer_append s b)) = capacity (buffer b)"
    using w by (simp add: e capacity_def)
qed

lemma append_ensure:
  "fits (length s) (Buffer_ensureWritebale (int (length s)) b) \<Longrightarrow>
   Buffer_append s b = Buffer_append s (Buffer_ensureWritebale (int (length s)) b)"
  by (simp add: Buffer_append_def ensure_fits)

lemma ensure_room:
  "Buffer_inv b \<Longrightarrow> Buffer_inv (Buffer_ensureWritebale (int n) b) \<and> fits n (Buffer_ensureWritebale (int n) b)"
  by (cases "fits n b"; cases "compacts n b")
    (simp_all add: ensure_fits ensure_compacts(1,3) ensure_grows(1,3))

lemma append_inv [simp, intro]: "Buffer_inv b \<Longrightarrow> Buffer_inv (Buffer_append s b)"
  using ensure_room [of b "length s"] append_ensure [of s b]
  by (simp add: append_fitting(2))

lemma append_contents:
  "Buffer_inv b \<Longrightarrow> contents (Buffer_append s b) =
     (if fits (length s) b \<or> compacts (length s) b then contents b else grown_contents b) @ s"
proof (cases "fits (length s) b")
  case True
  then show "Buffer_inv b \<Longrightarrow> ?thesis" by (simp add: append_fitting(1))
next
  case False
  assume "Buffer_inv b"
  with False ensure_room [of b "length s"] append_ensure [of s b] show ?thesis
    by (simp add: append_fitting(1) ensure_compacts(2) ensure_grows(2))
qed

text \<open>The appends that lose nothing: all but those that move contents that are not clean.\<close>

definition append_safe :: "nat \<Rightarrow> Buffer \<Rightarrow> bool" where
  "append_safe n b \<longleftrightarrow> fits n b \<or> compacts n b \<or> clean b"

lemma append_safe_contents:
  "Buffer_inv b \<Longrightarrow> append_safe (length s) b \<Longrightarrow> contents (Buffer_append s b) = contents b @ s"
  by (auto simp: append_contents append_safe_def grown_contents_clean)

lemma tight_clean: "Buffer_inv b \<Longrightarrow> tight b \<Longrightarrow> clean b"
  by (simp add: Buffer_inv_def tight_def clean_def)

lemma append_tight:
  "Buffer_inv b \<Longrightarrow> tight b \<Longrightarrow> fits (length s) b \<Longrightarrow> tight (Buffer_append s b)"
  by (simp add: tight_def append_fitting(3,4))

text \<open>Below the capacity an append needs no new storage.\<close>

lemma append_in_place:
  assumes "Buffer_inv b" and "length (contents b) + length s < capacity (buffer b)"
  shows "contents (Buffer_append s b) = contents b @ s"
    and "capacity (buffer (Buffer_append s b)) = capacity (buffer b)"
    and "vec_size (buffer (Buffer_append s b)) = vec_size (buffer b)"
proof -
  have "int (length (contents b)) = writeIndex b - readIndex b"
    using assms(1) by (simp add: length_contents Buffer_inv_def)
  with assms(2) have c: "compacts (length s) b"
    by (simp add: compacts_def Buffer_writeableBytes_def)
  then show "contents (Buffer_append s b) = contents b @ s"
    by (simp add: append_contents [OF assms(1)])
  show "capacity (buffer (Buffer_append s b)) = capacity (buffer b)"
    "vec_size (buffer (Buffer_append s b)) = vec_size (buffer b)"
  proof (atomize (full), cases "fits (length s) b")
    case True
    with append_fitting(3,4) [OF assms(1) True]
    show "capacity (buffer (Buffer_append s b)) = capacity (buffer b)
      \<and> vec_size (buffer (Buffer_append s b)) = vec_size (buffer b)" by simp
  next
    case False
    note e = ensure_compacts [OF assms(1) False c]
    from append_ensure [OF e(3)] append_fitting(3,4) [OF e(1) e(3)] e(4,5)
    show "capacity (buffer (Buffer_append s b)) = capacity (buffer b)
      \<and> vec_size (buffer (Buffer_append s b)) = vec_size (buffer b)" by simp
  qed
qed

lemma append_fits:
  "Buffer_inv b \<Longrightarrow> fits (length s + n) b \<Longrightarrow> fits n (Buffer_append s b)"
proof -
  assume i: "Buffer_inv b" and f: "fits (length s + n) b"
  from f have "fits (length s) b" by (simp add: fits_def)
  with i f show ?thesis
    by (simp add: fits_def Buffer_writeableBytes_def append_fitting(4,5))
qed

section \<open>A fresh buffer\<close>

lemma new_simps [simp]:
  "Buffer_inv (Buffer_new k)" "tight (Buffer_new k)" "contents (Buffer_new k) = []"
  "readIndex (Buffer_new k) = 0" "writeIndex (Buffer_new k) = 0"
  "capacity (buffer (Buffer_new k)) = nat (max 1024 k)"
  "vec_size (buffer (Buffer_new k)) = nat (max 1024 k)"
  by (auto simp: Buffer_new_def Let_def DEFAULTINITSIZE_def vec_resize_def Buffer_inv_def tight_def
      contents_def Buffer_range_def capacity_def max_def)

lemma new_fits: "n \<le> 1024 \<Longrightarrow> fits n (Buffer_new k)"
  by (simp add: fits_def Buffer_writeableBytes_def max_def)

lemma contents_fresh_append [simp]:
  "length s \<le> 1024 \<Longrightarrow> contents (Buffer_append s (Buffer_new k)) = s"
  by (simp add: append_fitting(1) new_fits)

section \<open>Retrieving\<close>

lemma retrieve_inv [simp, intro]:
  "Buffer_inv b \<Longrightarrow> 0 \<le> len \<Longrightarrow> Buffer_inv (snd (Buffer_retrieve len b))"
  by (auto simp: Buffer_retrieve_def Buffer_inv_def)

lemma retrieve_contents:
  "Buffer_inv b \<Longrightarrow> 0 \<le> len \<Longrightarrow> contents (snd (Buffer_retrieve len b)) = drop (nat len) (contents b)"
proof -
  assume i: "Buffer_inv b" and l: "0 \<le> len"
  show ?thesis
  proof (cases "len \<ge> writeIndex b - readIndex b")
    case True
    with i l have "length (contents b) \<le> nat len" by (simp add: length_contents)
    with True show ?thesis by (simp add: Buffer_retrieve_def contents_def Buffer_range_def)
  next
    case False
    with i l show ?thesis
      by (simp add: Buffer_retrieve_def contents_def Buffer_range_def drop_slice Buffer_inv_def
          nat_add_distrib)
  qed
qed

lemma retrieve_count:
  "Buffer_inv b \<Longrightarrow> fst (Buffer_retrieve len b) = min len (int (length (contents b)))"
  by (auto simp: Buffer_retrieve_def length_contents Buffer_inv_def)

lemma retrieve_vec [simp]: "buffer (snd (Buffer_retrieve len b)) = buffer b"
  by (simp add: Buffer_retrieve_def)

lemma retrieve_clean: "0 \<le> len \<Longrightarrow> clean b \<Longrightarrow> clean (snd (Buffer_retrieve len b))"
  by (simp add: clean_def Buffer_retrieve_def)

lemma reset_indices [simp]:
  "Buffer_inv b \<Longrightarrow> Buffer_inv (b\<lparr>writeIndex := 0, readIndex := 0\<rparr>)"
  "contents (b\<lparr>writeIndex := 0, readIndex := 0\<rparr>) = []"
  by (simp_all add: Buffer_inv_def contents_def Buffer_range_def)

lemma range_prefix:
  assumes "Buffer_inv b" "0 \<le> i" "i \<le> j" "j \<le> int (length (contents b))"
  shows "Buffer_range b (readIndex b + i) (readIndex b + j) = slice (nat i) (nat j) (contents b)"
proof -
  have r: "0 \<le> readIndex b" and w: "readIndex b + j \<le> writeIndex b"
    using assms by (auto simp: length_contents Buffer_inv_def)
  have "nat (readIndex b) + nat j \<le> nat (writeIndex b)"
    using r w assms(2,3) by (simp add: nat_mono flip: nat_add_distrib)
  with r assms(2,3) show ?thesis
    by (simp add: contents_def Buffer_range_def slice_slice nat_add_distrib min_absorb1)
qed

section \<open>Searching\<close>

lemma findCLRF_peek:
  assumes "Buffer_inv b"
  shows "Buffer_findCLRF (Buffer_peek b) b =
     Inr (if std_search crlf (contents b) = length (contents b) then None
          else Some (Buffer_peek b + int (std_search crlf (contents b))))"
proof -
  have l: "writeIndex b = readIndex b + int (length (contents b))"
    using assms by (simp add: length_contents Buffer_inv_def)
  have c: "Buffer_range b (readIndex b) (readIndex b + int (length (contents b))) = contents b"
    unfolding l [symmetric] by (simp only: contents_def)
  show ?thesis
    using assms by (simp add: Buffer_findCLRF_def Buffer_peek_def Buffer_inv_def c Let_def l)
qed

section \<open>Reading from a descriptor\<close>

lemma readFd_error [simp]: "Buffer_readFd (ReadErr e) b = (-1, Some e, b)"
  by (simp add: Buffer_readFd_def)

lemma readFd_count: "fst (Buffer_readFd (ReadBytes bs) b) = int (length bs)"
  by (simp add: Buffer_readFd_def Let_def)

lemma readFd_fitting:
  "Buffer_inv b \<Longrightarrow> fits (length bs) b \<Longrightarrow>
   snd (snd (Buffer_readFd (ReadBytes bs) b)) = Buffer_append bs b"
  by (simp add: Buffer_readFd_def Buffer_append_def ensure_fits fits_def Let_def)

text \<open>
  The buffer between the system call and the append of \<open>extrabuf\<close>, when more bytes came than
  were free: the free space is overwritten, and the write index moves to \<open>size()\<close>.
\<close>

lemma readFd_overflowing:
  "\<not> fits (length bs) b \<Longrightarrow>
   snd (snd (Buffer_readFd (ReadBytes bs) b)) =
     Buffer_append (drop (nat (Buffer_writeableBytes b)) bs)
       (b\<lparr>buffer := vec_write (nat (writeIndex b)) (take (nat (Buffer_writeableBytes b)) bs) (buffer b),
         writeIndex := int (vec_size (buffer b))\<rparr>)"
  by (simp add: Buffer_readFd_def fits_def Let_def)

lemma filled:
  assumes "Buffer_inv b" "clean b" "\<not> fits (length bs) b"
  defines "b' \<equiv> b\<lparr>buffer := vec_write (nat (writeIndex b))
      (take (nat (Buffer_writeableBytes b)) bs) (buffer b),
      writeIndex := int (vec_size (buffer b))\<rparr>"
  shows "Buffer_inv b'" and "clean b'"
    and "contents b' = contents b @ take (vec_size (buffer b) - nat (writeIndex b)) bs"
proof -
  let ?w = "nat (writeIndex b)" and ?r = "nat (readIndex b)" and ?xs = "elems (buffer b)"
  let ?k = "nat (Buffer_writeableBytes b)" and ?n = "vec_size (buffer b)"
  note nat = inv_nat [OF assms(1)]
  have k: "?k = length ?xs - ?w"
    using assms(1) by (simp add: Buffer_writeableBytes_def capacity_def Buffer_inv_def nat_diff_distrib')
  have bs: "?k \<le> length bs"
    using assms(3) by (simp add: fits_def)
  have full: "put_at ?w (take ?k bs) ?xs = take ?w ?xs @ take ?k bs"
    using bs nat(2) k by (simp add: put_at_def)
  have n: "?n \<le> length ?xs" "?w \<le> ?n"
    using assms(1,2) by (auto simp: Buffer_inv_def capacity_def clean_def)
  show "clean b'" by (simp add: b'_def clean_def)
  have len: "length (take ?w ?xs @ take ?k bs) = length ?xs"
    using bs k nat(2) by simp
  then show "Buffer_inv b'"
    using assms(1,2) n(1) by (simp add: b'_def Buffer_inv_def clean_def capacity_def full del: length_append)
  have "take ?n (take ?w ?xs @ take ?k bs) = take ?w ?xs @ take (?n - ?w) bs"
    using n(2) bs k nat(2) min_absorb1 [OF diff_le_mono [OF n(1)], of ?w]
    by (simp add: min_absorb2)
  then show "contents b' = contents b @ take (?n - ?w) bs"
    using nat by (simp add: b'_def contents_def Buffer_range_def slice_def full)
qed

lemma readFd_clean_contents:
  assumes "Buffer_inv b" "clean b" "\<not> fits (length bs) b"
  shows "contents (snd (snd (Buffer_readFd (ReadBytes bs) b))) =
     contents b @ take (vec_size (buffer b) - nat (writeIndex b)) bs
                @ drop (capacity (buffer b) - nat (writeIndex b)) bs"
proof -
  have "nat (Buffer_writeableBytes b) = capacity (buffer b) - nat (writeIndex b)"
    using assms(1) by (simp add: Buffer_writeableBytes_def Buffer_inv_def nat_diff_distrib')
  with filled [OF assms] show ?thesis
    by (simp add: readFd_overflowing [OF assms(3)] append_safe_contents append_safe_def)
qed

lemma readFd_clean_inv:
  assumes "Buffer_inv b" "clean b"
  shows "Buffer_inv (snd (snd (Buffer_readFd (ReadBytes bs) b)))"
proof (cases "fits (length bs) b")
  case True
  with assms show ?thesis by (simp add: readFd_fitting)
next
  case False
  with filled(1) [OF assms False] show ?thesis by (simp add: readFd_overflowing)
qed

lemma readFd_tight_contents:
  assumes "Buffer_inv b" "tight b"
  shows "contents (snd (snd (Buffer_readFd (ReadBytes bs) b))) = contents b @ bs"
proof (cases "fits (length bs) b")
  case True
  with assms show ?thesis by (simp add: readFd_fitting append_fitting(1))
next
  case False
  with assms readFd_clean_contents [OF assms(1) tight_clean [OF assms]] show ?thesis
    by (simp add: tight_def)
qed

section \<open>The buffer as a byte queue\<close>

text \<open>
  The operations the server uses on its buffers, as steps, and what each of them promises: the
  contents behave as a queue of bytes.
\<close>

datatype buf_op =
    OpAppend "char list"
  | OpRetrieve int
  | OpRetrieveAllAsString
  | OpReadFd read_result

fun buf_step :: "buf_op \<Rightarrow> Buffer \<Rightarrow> Buffer" where
  "buf_step (OpAppend s) b = Buffer_append s b"
| "buf_step (OpRetrieve n) b = snd (Buffer_retrieve n b)"
| "buf_step OpRetrieveAllAsString b = snd (Buffer_retrieveAllAsString b)"
| "buf_step (OpReadFd r) b = snd (snd (Buffer_readFd r b))"

fun queue_step :: "buf_op \<Rightarrow> char list \<Rightarrow> char list" where
  "queue_step (OpAppend s) q = q @ s"
| "queue_step (OpRetrieve n) q = drop (nat n) q"
| "queue_step OpRetrieveAllAsString q = []"
| "queue_step (OpReadFd (ReadErr e)) q = q"
| "queue_step (OpReadFd (ReadBytes bs)) q = q @ bs"

text \<open>
  A step is safe when it does not move or overwrite bytes behind the elements of the vector.
\<close>

fun op_safe :: "buf_op \<Rightarrow> Buffer \<Rightarrow> bool" where
  "op_safe (OpAppend s) b = append_safe (length s) b"
| "op_safe (OpRetrieve n) b = (0 \<le> n)"
| "op_safe OpRetrieveAllAsString b = True"
| "op_safe (OpReadFd (ReadErr e)) b = True"
| "op_safe (OpReadFd (ReadBytes bs)) b = (fits (length bs) b \<or> tight b)"

lemma buf_step_inv: "Buffer_inv b \<Longrightarrow> op_safe op b \<Longrightarrow> Buffer_inv (buf_step op b)"
  by (induction op b rule: op_safe.induct)
    (auto simp: Buffer_retrieveAllAsString_def readFd_fitting readFd_clean_inv tight_clean)

lemma buf_step_queue:
  "Buffer_inv b \<Longrightarrow> op_safe op b \<Longrightarrow> contents (buf_step op b) = queue_step op (contents b)"
  by (induction op b rule: op_safe.induct)
    (auto simp: Buffer_retrieveAllAsString_def append_safe_contents retrieve_contents readFd_fitting
      append_fitting(1) readFd_tight_contents)

fun buf_run :: "buf_op list \<Rightarrow> Buffer \<Rightarrow> Buffer" where
  "buf_run [] b = b"
| "buf_run (op # ops) b = buf_run ops (buf_step op b)"

fun queue_run :: "buf_op list \<Rightarrow> char list \<Rightarrow> char list" where
  "queue_run [] q = q"
| "queue_run (op # ops) q = queue_run ops (queue_step op q)"

fun run_safe :: "buf_op list \<Rightarrow> Buffer \<Rightarrow> bool" where
  "run_safe [] b = True"
| "run_safe (op # ops) b = (op_safe op b \<and> run_safe ops (buf_step op b))"

lemma buf_run_queue:
  "Buffer_inv b \<Longrightarrow> run_safe ops b \<Longrightarrow>
   Buffer_inv (buf_run ops b) \<and> contents (buf_run ops b) = queue_run ops (contents b)"
  by (induction ops arbitrary: b) (auto simp: buf_step_inv buf_step_queue)

text \<open>The bytes an operation adds; as long as they all fit, every run is safe.\<close>

fun op_bytes :: "buf_op \<Rightarrow> nat" where
  "op_bytes (OpAppend s) = length s"
| "op_bytes (OpReadFd (ReadBytes bs)) = length bs"
| "op_bytes _ = 0"

fun op_wellformed :: "buf_op \<Rightarrow> bool" where
  "op_wellformed (OpRetrieve n) = (0 \<le> n)"
| "op_wellformed _ = True"

lemma retrieve_fits:
  "Buffer_inv b \<Longrightarrow> fits n b \<Longrightarrow> fits n (snd (Buffer_retrieve k b))"
  by (auto simp: fits_def Buffer_writeableBytes_def Buffer_retrieve_def Buffer_inv_def)

lemma buf_step_fits:
  "Buffer_inv b \<Longrightarrow> fits (op_bytes op + n) b \<Longrightarrow> fits n (buf_step op b)"
proof (induction op rule: op_bytes.induct)
  case (2 bs)
  then have "fits (length bs) b" by (simp add: fits_def)
  with 2 show ?case by (simp add: readFd_fitting append_fits)
next
  case "3_2"
  then show ?case
    by (simp add: Buffer_retrieveAllAsString_def fits_def Buffer_writeableBytes_def Buffer_inv_def)
qed (simp_all add: append_fits retrieve_fits)

lemma fits_mono: "fits n b \<Longrightarrow> m \<le> n \<Longrightarrow> fits m b"
  by (simp add: fits_def)

lemma fitting_op_safe:
  "op_wellformed op \<Longrightarrow> fits (op_bytes op) b \<Longrightarrow> op_safe op b"
  by (induction op b rule: op_safe.induct) (auto simp: append_safe_def)

lemma fitting_run_safe:
  "Buffer_inv b \<Longrightarrow> list_all op_wellformed ops \<Longrightarrow> fits (sum_list (map op_bytes ops)) b \<Longrightarrow>
   run_safe ops b"
proof (induction ops arbitrary: b)
  case Nil
  then show ?case by simp
next
  case (Cons op ops)
  from Cons.prems have safe: "op_safe op b"
    by (auto intro!: fitting_op_safe elim: fits_mono)
  moreover from Cons.prems have "fits (sum_list (map op_bytes ops)) (buf_step op b)"
    by (auto intro: buf_step_fits)
  ultimately show ?case
    using Cons by (auto intro: buf_step_inv)
qed

section \<open>The interfaces of a buffer\<close>

text \<open>
  A sink of bytes: \<open>put\<close> appends, as long as the sink has room. A sink that is \<^emph>\<open>exact\<close> (its
  storage holds no more than its elements) takes one more piece of any size.
\<close>

locale byte_sink =
  fixes valid :: "'b \<Rightarrow> bool"
    and content :: "'b \<Rightarrow> char list"
    and room :: "nat \<Rightarrow> 'b \<Rightarrow> bool"
    and put :: "char list \<Rightarrow> 'b \<Rightarrow> 'b"
  assumes put_valid: "valid b \<Longrightarrow> valid (put s b)"
    and put_content: "valid b \<Longrightarrow> room (length s) b \<Longrightarrow> content (put s b) = content b @ s"
    and put_room: "valid b \<Longrightarrow> room (length s + n) b \<Longrightarrow> room n (put s b)"
    and room_mono: "room n b \<Longrightarrow> m \<le> n \<Longrightarrow> room m b"
begin

lemma fold_valid: "valid b \<Longrightarrow> valid (fold put ss b)"
  by (induction ss arbitrary: b) (simp_all add: put_valid)

lemma fold_content:
  "valid b \<Longrightarrow> room (sum_list (map length ss)) b \<Longrightarrow>
   content (fold put ss b) = content b @ concat ss"
proof (induction ss arbitrary: b)
  case Nil
  then show ?case by simp
next
  case (Cons s ss)
  from Cons.prems have "room (length s) b" by (auto elim: room_mono)
  with Cons show ?case by (simp add: put_valid put_content put_room)
qed

end

locale exact_sink = byte_sink +
  fixes exact :: "'b \<Rightarrow> bool"
  assumes exact_put: "valid b \<Longrightarrow> exact b \<Longrightarrow> content (put s b) = content b @ s"
    and exact_keep: "valid b \<Longrightarrow> exact b \<Longrightarrow> room (length s) b \<Longrightarrow> exact (put s b)"
begin

lemma fold_exact:
  "valid b \<Longrightarrow> exact b \<Longrightarrow> room (sum_list (map length ss)) b \<Longrightarrow> exact (fold put ss b)"
proof (induction ss arbitrary: b)
  case Nil
  then show ?case by simp
next
  case (Cons s ss)
  from Cons.prems have "room (length s) b" by (auto elim: room_mono)
  with Cons show ?case by (simp add: put_valid exact_keep put_room)
qed

lemma fold_last:
  assumes "valid b" and "exact b" and "room (sum_list (map length ss)) b"
  shows "content (put s (fold put ss b)) = content b @ concat ss @ s"
  by (simp add: exact_put [OF fold_valid fold_exact] assms fold_content)

end

interpretation out: exact_sink Buffer_inv contents fits Buffer_append tight
  by unfold_locales
    (auto simp: append_fitting(1) append_fits append_tight append_safe_contents append_safe_def
      tight_clean elim: fits_mono)

text \<open>
  A source of lines: from the read position a client looks for the end of the line, takes the
  characters in between, and moves the read position past it.
\<close>

locale line_source =
  fixes valid :: "'b \<Rightarrow> bool"
    and unread :: "'b \<Rightarrow> char list"
    and pos :: "'b \<Rightarrow> int"
    and find_eol :: "int \<Rightarrow> 'b \<Rightarrow> int option res"
    and range_of :: "'b \<Rightarrow> int \<Rightarrow> int \<Rightarrow> char list"
    and skip_to :: "int \<Rightarrow> 'b \<Rightarrow> (int \<times> 'b) res"
  assumes find_eol: "valid b \<Longrightarrow> find_eol (pos b) b =
      Inr (if std_search crlf (unread b) = length (unread b) then None
           else Some (pos b + int (std_search crlf (unread b))))"
    and range_of: "valid b \<Longrightarrow> 0 \<le> i \<Longrightarrow> i \<le> j \<Longrightarrow> j \<le> int (length (unread b)) \<Longrightarrow>
      range_of b (pos b + i) (pos b + j) = slice (nat i) (nat j) (unread b)"
    and skip_to: "valid b \<Longrightarrow> 0 \<le> i \<Longrightarrow> i \<le> int (length (unread b)) \<Longrightarrow>
      \<exists>n b'. skip_to (pos b + i) b = Inr (n, b') \<and> valid b' \<and> unread b' = drop (nat i) (unread b)"
begin

lemma find_none: "valid b \<Longrightarrow> split_line (unread b) = None \<Longrightarrow> find_eol (pos b) b = Inr None"
  by (simp add: find_eol split_line_None)

lemma find_some:
  "valid b \<Longrightarrow> split_line (unread b) = Some (l, rest) \<Longrightarrow>
   find_eol (pos b) b = Inr (Some (pos b + int (length l)))"
  by (frule split_line_Some(2); drule split_line_Some(3)) (simp add: find_eol)

lemma line_range:
  assumes "valid b" and "split_line (unread b) = Some (l, rest)"
  shows "range_of b (pos b) (pos b + int (length l)) = l"
proof -
  note u = split_line_Some [OF assms(2)]
  have "range_of b (pos b + 0) (pos b + int (length l)) = slice 0 (length l) (unread b)"
    using u(2,3) range_of [OF assms(1), of 0 "int (length l)"] by simp
  also have "\<dots> = l" by (subst u(1)) (simp add: slice_def)
  finally show ?thesis by simp
qed

lemma skip_line:
  assumes "valid b" and "split_line (unread b) = Some (l, rest)"
  obtains n b' where "skip_to (pos b + int (length l) + 2) b = Inr (n, b')"
    and "valid b'" and "unread b' = rest"
proof -
  note u = split_line_Some [OF assms(2)]
  from skip_to [OF assms(1), of "int (length l) + 2"] u(4)
  obtain n b' where *: "skip_to (pos b + (int (length l) + 2)) b = Inr (n, b')" "valid b'"
      "unread b' = drop (nat (int (length l) + 2)) (unread b)"
    by auto
  have "drop (nat (int (length l) + 2)) (unread b) = rest"
    by (subst u(1)) (simp add: nat_add_distrib crlf_def)
  with * that show thesis by (simp add: add.assoc)
qed

end

lemma retrieveUntill_peek:
  assumes "Buffer_inv b" "0 \<le> i" "i \<le> int (length (contents b))"
  shows "Buffer_retrieveUntill (Buffer_peek b + i) b = Inr (Buffer_retrieve i b)"
  using assms by (simp add: Buffer_retrieveUntill_def Buffer_peek_def length_contents Buffer_inv_def)

interpretation inp: line_source Buffer_inv contents Buffer_peek Buffer_findCLRF Buffer_range
  Buffer_retrieveUntill
proof unfold_locales
  fix b :: Buffer and i :: int
  assume "Buffer_inv b" "0 \<le> i" "i \<le> int (length (contents b))"
  then show "\<exists>n b'. Buffer_retrieveUntill (Buffer_peek b + i) b = Inr (n, b') \<and> Buffer_inv b'
      \<and> contents b' = drop (nat i) (contents b)"
    by (cases "Buffer_retrieve i b")
      (auto simp: retrieveUntill_peek dest: retrieve_inv retrieve_contents)
next
  fix b :: Buffer and i j :: int
  assume "Buffer_inv b" "0 \<le> i" "i \<le> j" "j \<le> int (length (contents b))"
  then show "Buffer_range b (Buffer_peek b + i) (Buffer_peek b + j) = slice (nat i) (nat j) (contents b)"
    by (simp add: Buffer_peek_def range_prefix)
qed (rule findCLRF_peek)

section \<open>The first growth\<close>

lemma fold_fitting:
  "Buffer_inv b \<Longrightarrow> fits (sum_list (map length ss)) b \<Longrightarrow>
   Buffer_inv (fold Buffer_append ss b)
   \<and> capacity (buffer (fold Buffer_append ss b)) = capacity (buffer b)
   \<and> vec_size (buffer (fold Buffer_append ss b)) = vec_size (buffer b)
   \<and> readIndex (fold Buffer_append ss b) = readIndex b
   \<and> writeIndex (fold Buffer_append ss b) = writeIndex b + int (sum_list (map length ss))"
proof (induction ss arbitrary: b)
  case Nil
  then show ?case by simp
next
  case (Cons s ss)
  from Cons.prems have "fits (length s) b" by (auto elim: fits_mono)
  with Cons show ?case by (simp add: append_fitting append_fits)
qed


text \<open>Growing a tight buffer from which nothing was read.\<close>

lemma tight_growth:
  assumes "Buffer_inv b" "tight b" "readIndex b = 0" "\<not> fits (length s) b"
  defines "b' \<equiv> Buffer_append s b"
  shows "Buffer_inv b'" "contents b' = contents b @ s" "clean b'" "readIndex b' = 0"
    "int (vec_size (buffer b')) = writeIndex b + int (length s)"
    "writeIndex b' = writeIndex b + int (length s)"
    "capacity (buffer b') = capacity (buffer b)
       + max (capacity (buffer b)) (nat (writeIndex b) + length s - capacity (buffer b))"
proof -
  let ?e = "Buffer_ensureWritebale (int (length s)) b"
  have nc: "\<not> compacts (length s) b"
    using assms(1,3,4) by (simp add: fits_def compacts_def)
  note g = ensure_grows [OF assms(1,4) nc]
  have r: "?e = b\<lparr>buffer := vec_resize (nat (writeIndex b + int (length s))) (buffer b)\<rparr>"
    using assms(4) nc by (simp add: Buffer_ensureWritebale_def fits_def compacts_def Let_def)
  have n: "nat (writeIndex b + int (length s)) = nat (writeIndex b) + length s"
    using assms(1) by (simp add: Buffer_inv_def nat_add_distrib)
  have big: "\<not> nat (writeIndex b) + length s \<le> capacity (buffer b)"
    using assms(1,4) by (auto simp: fits_def Buffer_writeableBytes_def Buffer_inv_def)
  have c: "capacity (buffer ?e) = capacity (buffer b)
       + max (capacity (buffer b)) (nat (writeIndex b) + length s - capacity (buffer b))"
    using big assms(2) by (simp add: r n capacity_resize tight_def)
  have b: "b' = Buffer_append s ?e"
    using append_ensure [OF g(3)] by (simp add: b'_def)
  note f = append_fitting [OF g(1) g(3)]
  show "Buffer_inv b'" using f(2) by (simp add: b)
  show "contents b' = contents b @ s"
    using f(1) g(2) grown_contents_clean [OF assms(1) tight_clean [OF assms(1,2)]] by (simp add: b)
  show "int (vec_size (buffer b')) = writeIndex b + int (length s)"
    "writeIndex b' = writeIndex b + int (length s)"
    using f(3,5) g(4,5) by (simp_all add: b)
  then show "clean b'" by (simp add: clean_def)
  show "readIndex b' = 0" using f(6) assms(3) by (simp add: b r)
  show "capacity (buffer b') = capacity (buffer b)
       + max (capacity (buffer b)) (nat (writeIndex b) + length s - capacity (buffer b))"
    using f(4) c by (simp add: b)
qed

lemma first_growth:
  assumes "1024 < length s" and "k \<le> 1024"
  defines "b \<equiv> Buffer_append s (Buffer_new k)"
  shows "Buffer_inv b" "contents b = s" "vec_size (buffer b) = length s" "clean b"
    "capacity (buffer b) = max 2048 (length s)" "writeIndex b = int (length s)" "readIndex b = 0"
proof -
  have nf: "\<not> fits (length s) (Buffer_new k)"
    using assms by (simp add: fits_def Buffer_writeableBytes_def max_def)
  note g = tight_growth [OF new_simps(1,2,4) nf]
  show "Buffer_inv b" "contents b = s" "vec_size (buffer b) = length s" "clean b"
    "writeIndex b = int (length s)" "readIndex b = 0"
    using g by (simp_all add: b_def)
  show "capacity (buffer b) = max 2048 (length s)"
    using g(7) assms(1,2) by (auto simp: b_def max_def)
qed

lemma into_slack:
  assumes "1024 < length s1" and "length s1 + length s2 \<le> 2048"
  defines "b \<equiv> Buffer_append s2 (Buffer_append s1 (Buffer_new 0))"
  shows "Buffer_inv b" "contents b = s1 @ s2" "vec_size (buffer b) = length s1"
    "capacity (buffer b) = 2048" "writeIndex b = int (length s1 + length s2)" "readIndex b = 0"
proof -
  have z: "(0::int) \<le> 1024" by simp
  note g = first_growth [OF assms(1) z]
  from assms(2) g have "fits (length s2) (Buffer_append s1 (Buffer_new 0))"
    by (simp add: fits_def Buffer_writeableBytes_def)
  note f = append_fitting [OF g(1) this]
  show "Buffer_inv b" "contents b = s1 @ s2" "vec_size (buffer b) = length s1"
    "capacity (buffer b) = 2048" "writeIndex b = int (length s1 + length s2)" "readIndex b = 0"
    using f g assms(2) by (simp_all add: b_def)
qed

section \<open>Properties\<close>

text \<open>
  C8. A run of appends, retrievals and reads that never moves or overwrites bytes behind the
  elements of the vector behaves as a queue of bytes: the contents are what the same operations
  make of a plain list, and the indices stay in bounds.
\<close>

theorem Buffer_refines_queue:
  assumes "Buffer_inv b" and "run_safe ops b"
  shows "Buffer_inv (buf_run ops b) \<and> contents (buf_run ops b) = queue_run ops (contents b)"
  using assms by (rule buf_run_queue)

theorem Buffer_refines_queue_witness:
  "contents (buf_run [OpAppend ''ab'', OpRetrieve 1, OpReadFd (ReadBytes ''cd'')] (Buffer_new 0)) = ''bcd''"
proof -
  have "run_safe [OpAppend ''ab'', OpRetrieve 1, OpReadFd (ReadBytes ''cd'')] (Buffer_new 0)"
    by (rule fitting_run_safe) (simp_all add: new_fits)
  from Buffer_refines_queue [OF new_simps(1) this] show ?thesis by simp
qed

text \<open>
  A fresh buffer is a queue of bytes as long as the bytes ever put into it, by appends and
  by reads from the descriptor, are at most its initial size; no condition on how the operations
  are interleaved is needed.
\<close>

theorem Buffer_fifo_until_full:
  assumes "list_all op_wellformed ops"
    and "sum_list (map op_bytes ops) \<le> nat (max DEFAULTINITSIZE initSize)"
  shows "contents (buf_run ops (Buffer_new initSize)) = queue_run ops []
    \<and> Buffer_inv (buf_run ops (Buffer_new initSize))"
proof -
  have "fits (sum_list (map op_bytes ops)) (Buffer_new initSize)"
    using assms(2) by (auto simp: fits_def Buffer_writeableBytes_def DEFAULTINITSIZE_def max_def split: if_splits)
  from fitting_run_safe [OF new_simps(1) assms(1) this] show ?thesis
    using buf_run_queue [OF new_simps(1)] by fastforce
qed

theorem Buffer_fifo_until_full_witness:
  "contents (buf_run [OpReadFd (ReadBytes ''GET /''), OpRetrieve 4, OpAppend ''x''] (Buffer_new 16)) = ''/x''"
  using Buffer_fifo_until_full [of "[OpReadFd (ReadBytes ''GET /''), OpRetrieve 4, OpAppend ''x'']" 16]
  by (simp add: DEFAULTINITSIZE_def)

text \<open>
  C33. What an append leaves in the buffer, on every branch: the old contents followed by the
  source where the source fits, or fits after the read bytes are dropped; where the vector has
  to grow, the old contents beyond the elements of the vector are replaced by zeros.
\<close>

theorem Buffer_append_contents:
  assumes "Buffer_inv b"
  shows "Buffer_inv (Buffer_append source b) \<and> contents (Buffer_append source b) =
     (if int (length source) \<le> Buffer_writeableBytes b
         \<or> int (length source) - Buffer_writeableBytes b < readIndex b
         \<or> writeIndex b \<le> int (vec_size (buffer b))
      then contents b
      else survivors b @ replicate (length (contents b) - length (survivors b)) NUL) @ source"
  using assms append_contents [OF assms, of source] grown_contents_clean [OF assms]
  by (auto simp: fits_def compacts_def clean_def grown_contents_def)

theorem Buffer_append_contents_witness:
  "contents (Buffer_append ''xy'' (Buffer_new 0)) = ''xy''"
  using Buffer_append_contents [OF new_simps(1), of "''xy''"]
  by (simp add: Buffer_writeableBytes_def)

text \<open>
  The second growth corrupts the buffer. After an append of more than 1024 bytes to a fresh
  buffer the capacity is larger than the size, and \<open>writeableBytes\<close> counts the capacity, so a
  second append is written behind the elements; when a third append makes the vector grow
  again, the second one is overwritten by zeros.
\<close>

theorem Buffer_second_growth_loses:
  assumes "1024 < length s1" and "length s1 + length s2 \<le> 2048"
    and "2048 < length s1 + length s2 + length s3"
  shows "contents (Buffer_append s3 (Buffer_append s2 (Buffer_append s1 (Buffer_new 0))))
    = s1 @ replicate (length s2) NUL @ s3"
proof -
  let ?b = "Buffer_append s2 (Buffer_append s1 (Buffer_new 0))"
  note b = into_slack [OF assms(1,2)]
  have "\<not> fits (length s3) ?b" "\<not> compacts (length s3) ?b"
    using assms(3) by (simp_all add: fits_def compacts_def Buffer_writeableBytes_def b(4,5,6))
  then show ?thesis
    by (simp add: append_contents [OF b(1)] grown_contents_def survivors_def b(2,3,6))
qed

theorem Buffer_second_growth_loses_witness:
  "contents (Buffer_append (replicate 1000 CHR ''c'') (Buffer_append ''bb''
     (Buffer_append (replicate 1500 CHR ''a'') (Buffer_new 0))))
   = replicate 1500 CHR ''a'' @ [NUL, NUL] @ replicate 1000 CHR ''c''"
  using Buffer_second_growth_loses [of "replicate 1500 CHR ''a''" "''bb''" "replicate 1000 CHR ''c''"]
  by (simp add: numeral_2_eq_2)

text \<open>
  A read that brings more bytes than the free space, into a buffer whose contents are
  elements of the vector: exactly the bytes that fall between the size and the capacity of the
  vector are lost, all others arrive in order. Nothing is lost where size and capacity agree,
  as they do in a fresh buffer.
\<close>

theorem Buffer_readFd_overflow_contents:
  assumes "Buffer_inv b" and "writeIndex b \<le> int (vec_size (buffer b))"
    and "Buffer_writeableBytes b < int (length bs)"
  shows "contents (snd (snd (Buffer_readFd (ReadBytes bs) b))) =
     contents b @ take (vec_size (buffer b) - nat (writeIndex b)) bs
                @ drop (capacity (buffer b) - nat (writeIndex b)) bs"
  using assms by (intro readFd_clean_contents) (simp_all add: clean_def fits_def)

theorem Buffer_readFd_overflow_contents_witness:
  "contents (snd (snd (Buffer_readFd (ReadBytes (replicate 500 CHR ''b'' @ ''cd''))
     (Buffer_append (replicate 1548 CHR ''a'') (Buffer_new 0)))))
   = replicate 1548 CHR ''a'' @ ''cd''"
proof -
  let ?s = "replicate 1548 CHR ''a''"
  have l: "1024 < length ?s" by simp
  have z: "(0::int) \<le> 1024" by simp
  note g = first_growth [OF l z]
  show ?thesis
    using Buffer_readFd_overflow_contents [OF g(1), of "replicate 500 CHR ''b'' @ ''cd''"]
    by (simp add: g Buffer_writeableBytes_def)
qed

text \<open>
  The indices of the buffer can cross: when the read index has moved behind the elements of
  the vector and a read brings more bytes than are free, \<open>readFd\<close> moves the write index to the
  size of the vector, below the read index, and \<open>readbleBytes\<close> is negative.
\<close>

theorem Buffer_readFd_crosses_indices:
  assumes "1024 < length s1" and "length s1 + length s2 + length bs = 2048 + x" and "0 < x"
    and "length s1 + x < n" and "n < length s1 + length s2" and "length s1 + length s2 \<le> 2048"
  shows "Buffer_readbleBytes (buf_run [OpAppend s1, OpAppend s2, OpRetrieve (int n),
      OpReadFd (ReadBytes bs)] (Buffer_new 0)) < 0"
proof -
  let ?b = "Buffer_append s2 (Buffer_append s1 (Buffer_new 0))"
  let ?c = "snd (Buffer_retrieve (int n) ?b)"
  note b = into_slack [OF assms(1,6)]
  from assms(6) obtain k where k: "length s1 + length s2 + k = 2048"
    by (metis le_Suc_ex)
  have bs: "length bs = k + x" using assms(2) k by linarith
  have c: "buffer ?c = buffer ?b" "writeIndex ?c = int (length s1 + length s2)" "readIndex ?c = int n"
    using assms(5) by (simp_all add: Buffer_retrieve_def b(5,6))
  have w: "Buffer_writeableBytes ?c = int k"
    unfolding Buffer_writeableBytes_def c b(4) using k by linarith
  have nf: "\<not> fits (length bs) ?c"
    unfolding fits_def w bs using assms(3) by linarith
  let ?d = "?c\<lparr>buffer := vec_write (length s1 + length s2) (take k bs) (buffer ?b),
      writeIndex := int (length s1)\<rparr>"
  have cap: "capacity (buffer ?d) = 2048"
    using b(4) k bs by (simp add: capacity_def)
  have x: "length (drop k bs) = x" by (simp add: bs)
  have f: "fits x ?d"
    using assms(4-6) cap by (simp add: fits_def Buffer_writeableBytes_def)
  have "buf_run [OpAppend s1, OpAppend s2, OpRetrieve (int n), OpReadFd (ReadBytes bs)] (Buffer_new 0)
      = Buffer_append (drop k bs) ?d"
    by (simp only: buf_run.simps buf_step.simps readFd_overflowing [OF nf] w c(1,2) b(3) nat_int)
  moreover have "Buffer_readbleBytes (Buffer_append (drop k bs) ?d) = Buffer_readbleBytes ?d + int x"
    using append_fit_readble [of "drop k bs" ?d] f unfolding x by blast
  moreover have "Buffer_readbleBytes ?d = int (length s1) - int n"
    by (simp add: Buffer_readbleBytes_def c(3))
  ultimately show ?thesis using assms(4) by (simp del: buf_run.simps)
qed

theorem Buffer_readFd_crosses_indices_witness:
  "Buffer_readbleBytes (buf_run [OpAppend (replicate 1025 CHR ''a''), OpAppend (replicate 500 CHR ''b''),
     OpRetrieve 1500, OpReadFd (ReadBytes (replicate 600 CHR ''c''))] (Buffer_new 0)) < 0"
  using Buffer_readFd_crosses_indices [of "replicate 1025 CHR ''a''" "replicate 500 CHR ''b''"
      "replicate 600 CHR ''c''" 77 1500]
  by (simp del: buf_run.simps)

text \<open>
  \<open>retrieveAsString\<close> returns the first \<open>len\<close> bytes of the contents, but empties the whole
  buffer, also when more bytes than \<open>len\<close> were in it.
\<close>

theorem Buffer_retrieveAsString_empties:
  assumes "Buffer_inv b" and "0 \<le> len"
  shows "\<exists>b'. Buffer_retrieveAsString len b = Inr (take (nat len) (contents b), b') \<and> contents b' = []"
proof -
  let ?n = "min len (int (length (contents b)))"
  have l: "writeIndex b - readIndex b = int (length (contents b))"
    using assms(1) by (simp add: length_contents Buffer_inv_def)
  have "Buffer_range b (readIndex b) (readIndex b + ?n) = take (nat len) (contents b)"
    using range_prefix [OF assms(1), of 0 ?n] assms(2)
    by (cases "len \<le> int (length (contents b))") (simp_all add: slice_def min_absorb1 min_absorb2)
  then show ?thesis
    using assms(2) by (cases "len \<le> int (length (contents b))")
      (auto simp: Buffer_retrieveAsString_def l min_absorb1 min_absorb2)
qed

theorem Buffer_retrieveAsString_empties_witness:
  "\<exists>b'. Buffer_retrieveAsString 1 (Buffer_append ''abc'' (Buffer_new 0)) = Inr (''a'', b') \<and> contents b' = []"
  using Buffer_retrieveAsString_empties [of "Buffer_append ''abc'' (Buffer_new 0)" 1]
  by (simp add: append_fitting(1) new_fits)

end
