(* ===== verification/Std_Map.thy ===== *)
theory Std_Map
  imports Rabbit_Prelude "HOL-Library.Multiset"
begin

text \<open>
  \<open>std::map\<close>, which the sources use for the headers of requests and responses and for the
  table of connections: an association list sorted by its keys, in the order an iterator visits
  them. Strings are compared byte by byte as unsigned characters (\<open>HOL-Library.List_Lexorder\<close>
  over \<open>HOL-Library.Char_ord\<close>), as \<open>std::string\<close> is. \<open>std::multimap\<close>, which holds the timers, is a
  list sorted by its keys in which equal keys stand in the order of their insertion.
\<close>

section \<open>The operations\<close>

type_synonym ('k, 'v) std_map = "('k \<times> 'v) list"

text \<open>\<open>m[k] = v\<close>\<close>

fun map_put :: "'k::linorder \<Rightarrow> 'v \<Rightarrow> ('k, 'v) std_map \<Rightarrow> ('k, 'v) std_map" where
  "map_put k v [] = [(k, v)]"
| "map_put k v ((k', v') # m) =
     (if k < k' then (k, v) # (k', v') # m
      else if k = k' then (k, v) # m
      else (k', v') # map_put k v m)"

text \<open>\<open>m.erase(m.find(k))\<close>\<close>

definition map_erase :: "'k \<Rightarrow> ('k, 'v) std_map \<Rightarrow> ('k, 'v) std_map" where
  "map_erase k m = filter (\<lambda>(k', _). k' \<noteq> k) m"

definition map_find :: "('k, 'v) std_map \<Rightarrow> 'k \<Rightarrow> 'v option" where
  "map_find m k = map_of m k"

definition map_sorted :: "('k::linorder, 'v) std_map \<Rightarrow> bool" where
  "map_sorted m \<longleftrightarrow> sorted_wrt (<) (map fst m)"

section \<open>What the operations do\<close>

lemma map_find_Nil [simp]: "map_find [] = Map.empty"
  by (simp add: map_find_def fun_eq_iff)

lemma set_keys_put: "fst ` set (map_put k v m) = insert k (fst ` set m)"
  by (induction k v m rule: map_put.induct) auto

lemma map_put_sorted: "map_sorted m \<Longrightarrow> map_sorted (map_put k v m)"
proof (induction k v m rule: map_put.induct)
  case (2 k v k' v' m)
  then show ?case
    using set_keys_put [of k v m] by (auto simp: map_sorted_def)
qed (simp add: map_sorted_def)

lemma map_find_put: "map_sorted m \<Longrightarrow> map_find (map_put k v m) = (map_find m)(k \<mapsto> v)"
proof (induction k v m rule: map_put.induct)
  case (2 k v k' v' m)
  have "map_of m k = None" if "k < k'"
  proof -
    from 2(2) that have "\<forall>x\<in>fst ` set m. k < x" by (auto simp: map_sorted_def)
    then show ?thesis by (auto simp: map_of_eq_None_iff)
  qed
  with 2 show ?case by (auto simp: map_find_def map_sorted_def fun_eq_iff)
qed (simp add: map_find_def fun_eq_iff)

lemma map_find_erase: "map_find (map_erase k m) = (map_find m)(k := None)"
  by (induction m) (auto simp: map_find_def map_erase_def fun_eq_iff)

lemma map_erase_sorted: "map_sorted m \<Longrightarrow> map_sorted (map_erase k m)"
proof (induction m)
  case (Cons x m)
  then have "\<forall>y\<in>fst ` set (map_erase k m). fst x < y"
    by (auto simp: map_sorted_def map_erase_def)
  with Cons show ?case by (auto simp: map_sorted_def map_erase_def split: prod.splits)
qed (simp add: map_sorted_def map_erase_def)

section \<open>The interface\<close>

locale key_map =
  fixes valid :: "'m \<Rightarrow> bool"
    and empty :: 'm
    and find :: "'m \<Rightarrow> 'k \<Rightarrow> 'v option"
    and put :: "'k \<Rightarrow> 'v \<Rightarrow> 'm \<Rightarrow> 'm"
    and erase :: "'k \<Rightarrow> 'm \<Rightarrow> 'm"
  assumes valid_empty: "valid empty"
    and valid_put: "valid m \<Longrightarrow> valid (put k v m)"
    and valid_erase: "valid m \<Longrightarrow> valid (erase k m)"
    and find_empty: "find empty k = None"
    and find_put: "valid m \<Longrightarrow> find (put k v m) = (find m)(k \<mapsto> v)"
    and find_erase: "valid m \<Longrightarrow> find (erase k m) = (find m)(k := None)"
begin

lemma erase_put: "valid m \<Longrightarrow> find m k = None \<Longrightarrow> find (erase k (put k v m)) = find m"
  by (auto simp: find_erase find_put valid_put)

lemma fold_valid: "valid m \<Longrightarrow> valid (fold (\<lambda>(k, v). put k v) kvs m)"
  by (induction kvs arbitrary: m) (auto simp: valid_put)

lemma fold_find:
  "valid m \<Longrightarrow> find (fold (\<lambda>(k, v). put k v) kvs m) = find m ++ map_of (rev kvs)"
  by (induction kvs arbitrary: m) (auto simp: valid_put find_put)

end

interpretation smap: key_map "map_sorted :: ('k::linorder, 'v) std_map \<Rightarrow> bool" "[]" map_find map_put map_erase
  by unfold_locales
    (simp_all add: map_put_sorted map_erase_sorted map_find_put map_find_erase, simp add: map_sorted_def)

section \<open>Multimaps\<close>

text \<open>\<open>m.insert(value_type(k, v))\<close>: behind the entries with equal keys.\<close>

fun multimap_insert :: "'k::linorder \<Rightarrow> 'v \<Rightarrow> ('k \<times> 'v) list \<Rightarrow> ('k \<times> 'v) list" where
  "multimap_insert k v [] = [(k, v)]"
| "multimap_insert k v (e # m) =
     (if k < fst e then (k, v) # e # m else e # multimap_insert k v m)"

text \<open>The ranges \<open>[m.begin(), m.lower_bound(k))\<close> and \<open>[m.lower_bound(k), m.end())\<close>.\<close>

definition before_bound :: "'k::linorder \<Rightarrow> ('k \<times> 'v) list \<Rightarrow> ('k \<times> 'v) list" where
  "before_bound k m = takeWhile (\<lambda>e. fst e < k) m"

definition from_bound :: "'k::linorder \<Rightarrow> ('k \<times> 'v) list \<Rightarrow> ('k \<times> 'v) list" where
  "from_bound k m = dropWhile (\<lambda>e. fst e < k) m"

definition multimap_sorted :: "('k::linorder \<times> 'v) list \<Rightarrow> bool" where
  "multimap_sorted m \<longleftrightarrow> sorted (map fst m)"

locale ordered_multimap =
  fixes valid :: "('k::linorder \<times> 'v) list \<Rightarrow> bool"
    and ins :: "'k \<Rightarrow> 'v \<Rightarrow> ('k \<times> 'v) list \<Rightarrow> ('k \<times> 'v) list"
    and below :: "'k \<Rightarrow> ('k \<times> 'v) list \<Rightarrow> ('k \<times> 'v) list"
    and above :: "'k \<Rightarrow> ('k \<times> 'v) list \<Rightarrow> ('k \<times> 'v) list"
  assumes valid_Nil: "valid []"
    and valid_ins: "valid m \<Longrightarrow> valid (ins k v m)"
    and valid_above: "valid m \<Longrightarrow> valid (above k m)"
    and mset_ins: "mset (ins k v m) = add_mset (k, v) (mset m)"
    and stable_ins: "valid m \<Longrightarrow> filter (\<lambda>e. fst e = j) (ins k v m)
       = filter (\<lambda>e. fst e = j) m @ (if j = k then [(k, v)] else [])"
    and split: "below k m @ above k m = m"
    and below_less: "e \<in> set (below k m) \<Longrightarrow> fst e < k"
    and above_ge: "valid m \<Longrightarrow> e \<in> set (above k m) \<Longrightarrow> k \<le> fst e"
begin

lemma set_ins [simp]: "set (ins k v m) = insert (k, v) (set m)"
  by (metis mset_ins set_mset_add_mset_insert set_mset_mset)

lemma distinct_ins: "distinct (map snd (ins k v m)) \<longleftrightarrow> v \<notin> snd ` set m \<and> distinct (map snd m)"
proof -
  have "mset (map snd (ins k v m)) = mset (v # map snd m)"
    by (simp add: mset_ins)
  then have "distinct (map snd (ins k v m)) \<longleftrightarrow> distinct (v # map snd m)"
    by (rule mset_eq_imp_distinct_iff)
  then show ?thesis by auto
qed

lemma below_filter: "valid m \<Longrightarrow> below k m = filter (\<lambda>e. fst e < k) m"
proof -
  assume v: "valid m"
  have "filter (\<lambda>e. fst e < k) (below k m @ above k m) = below k m @ []"
    unfolding filter_append using below_less above_ge [OF v]
    by (intro arg_cong2 [where f = append]) (auto simp: filter_empty_conv filter_id_conv not_less)
  then show ?thesis by (simp add: split)
qed

lemma above_filter: "valid m \<Longrightarrow> above k m = filter (\<lambda>e. \<not> fst e < k) m"
proof -
  assume v: "valid m"
  have "\<forall>e\<in>set (below k m). fst e < k" "\<forall>e\<in>set (above k m). \<not> fst e < k"
    using below_less above_ge [OF v] by (blast, simp add: not_less)
  then have "filter (\<lambda>e. \<not> fst e < k) (below k m @ above k m) = [] @ above k m"
    unfolding filter_append
    by (intro arg_cong2 [where f = append]) (simp_all add: filter_empty_conv filter_id_conv)
  then show ?thesis by (simp add: split)
qed

lemma distinct_split:
  assumes "distinct (map snd m)"
  shows "distinct (map snd (below k m))" "distinct (map snd (above k m))"
    "snd ` set (below k m) \<inter> snd ` set (above k m) = {}"
  using assms unfolding split [of k m, symmetric, THEN arg_cong [of _ _ "map snd"], simplified]
  by auto

end

lemma set_multimap_insert: "set (multimap_insert k v m) = insert (k, v) (set m)"
  by (induction k v m rule: multimap_insert.induct) auto

lemma multimap_insert_sorted: "multimap_sorted m \<Longrightarrow> multimap_sorted (multimap_insert k v m)"
proof (induction k v m rule: multimap_insert.induct)
  case (2 k v e m)
  then show ?case
    by (auto simp: multimap_sorted_def set_multimap_insert less_imp_le intro: order.trans less_imp_le)
qed (simp add: multimap_sorted_def)

lemma multimap_insert_stable: "multimap_sorted m \<Longrightarrow> filter (\<lambda>e. fst e = j) (multimap_insert k v m)
   = filter (\<lambda>e. fst e = j) m @ (if j = k then [(k, v)] else [])"
proof (induction k v m rule: multimap_insert.induct)
  case (2 k v e m)
  show ?case
  proof (cases "k < fst e")
    case True
    with 2(2) have "filter (\<lambda>e. fst e = k) (e # m) = []"
      by (auto simp: multimap_sorted_def filter_empty_conv)
    with True show ?thesis by auto
  next
    case False
    with 2 show ?thesis by (auto simp: multimap_sorted_def)
  qed
qed simp

lemma from_bound_sorted: "multimap_sorted m \<Longrightarrow> multimap_sorted (from_bound k m)"
  unfolding multimap_sorted_def from_bound_def
  by (metis dropWhile_eq_drop drop_map sorted_wrt_drop)

lemma from_bound_ge: "multimap_sorted m \<Longrightarrow> e \<in> set (from_bound k m) \<Longrightarrow> k \<le> fst e"
  by (induction m) (auto simp: multimap_sorted_def from_bound_def not_less split: if_splits)

interpretation mmap: ordered_multimap multimap_sorted multimap_insert before_bound from_bound
proof
  show "mset (multimap_insert k v m) = add_mset (k, v) (mset m)" for k :: 'a and v :: 'b and m
    by (induction k v m rule: multimap_insert.induct) auto
next
  show "multimap_sorted []" by (simp add: multimap_sorted_def)
next
  show "before_bound k m @ from_bound k m = m" for k :: 'a and m :: "('a \<times> 'b) list"
    by (simp add: before_bound_def from_bound_def)
qed (auto simp: multimap_insert_sorted multimap_insert_stable from_bound_sorted from_bound_ge
    before_bound_def dest: set_takeWhileD)

end
