(* ===== verification/Timestamps.thy ===== *)
theory Timestamps
  imports Rabbit_Prelude Complex_Main
begin

text \<open>
  \<open>net/Timestamp.h\<close> and \<open>net/Timestamp.cpp\<close>: points in time as microseconds since the epoch,
  an \<open>int64_t\<close> modelled as an integer. A \<open>double\<close> is modelled as a rational number, which is
  exact for the whole numbers below \<open>2 ^ 53\<close> the code computes with; converting it to
  \<open>int64_t\<close> truncates towards zero. What \<open>gettimeofday\<close> returns is an argument.
\<close>

section \<open>The class\<close>

datatype Timestamp = Timestamp (microSecondsSinceEpoch: int)

definition kMicroSecondsPerSecond :: int where
  "kMicroSecondsPerSecond = 1000 * 1000"

definition truncate_double :: "rat \<Rightarrow> int" where
  "truncate_double x = (if x < 0 then \<lceil>x\<rceil> else \<lfloor>x\<rfloor>)"

definition Timestamp_of_double :: "rat \<Rightarrow> Timestamp" where
  "Timestamp_of_double microSeconds = Timestamp (truncate_double microSeconds)"

definition Timestamp_default :: Timestamp where
  "Timestamp_default = Timestamp_of_double 0"

definition Timestamp_valid :: "Timestamp \<Rightarrow> bool" where
  "Timestamp_valid t \<longleftrightarrow> microSecondsSinceEpoch t > 0"

text \<open>A \<open>struct timeval\<close>: seconds and microseconds.\<close>

type_synonym timeval = "int \<times> int"

definition nowMicroSeconds :: "timeval \<Rightarrow> rat" where
  "nowMicroSeconds tv = of_int (fst tv * kMicroSecondsPerSecond + snd tv)"

definition Timestamp_now :: "timeval \<Rightarrow> Timestamp" where
  "Timestamp_now tv = Timestamp_of_double (nowMicroSeconds tv)"

definition Timestamp_nowAfter :: "timeval \<Rightarrow> rat \<Rightarrow> Timestamp" where
  "Timestamp_nowAfter tv seconds =
     Timestamp_of_double (nowMicroSeconds tv + of_int kMicroSecondsPerSecond * seconds)"

text \<open>The comparison operators make the type an ordered one.\<close>

definition Timestamp_less :: "Timestamp \<Rightarrow> Timestamp \<Rightarrow> bool" where
  "Timestamp_less l r \<longleftrightarrow> microSecondsSinceEpoch l < microSecondsSinceEpoch r"

definition Timestamp_equal :: "Timestamp \<Rightarrow> Timestamp \<Rightarrow> bool" where
  "Timestamp_equal l r \<longleftrightarrow> microSecondsSinceEpoch l = microSecondsSinceEpoch r"

instantiation Timestamp :: linorder
begin

definition less_Timestamp :: "Timestamp \<Rightarrow> Timestamp \<Rightarrow> bool" where
  "l < r \<longleftrightarrow> Timestamp_less l r"

definition less_eq_Timestamp :: "Timestamp \<Rightarrow> Timestamp \<Rightarrow> bool" where
  "l \<le> r \<longleftrightarrow> Timestamp_less l r \<or> Timestamp_equal l r"

instance
  by standard
    (auto simp: less_Timestamp_def less_eq_Timestamp_def Timestamp_less_def Timestamp_equal_def
      intro: Timestamp.expand)

end

lemma Timestamp_less_iff [simp]: "Timestamp a < Timestamp b \<longleftrightarrow> a < b"
  by (simp add: less_Timestamp_def Timestamp_less_def)

lemma Timestamp_less_eq_iff [simp]: "Timestamp a \<le> Timestamp b \<longleftrightarrow> a \<le> b"
  by (auto simp: less_eq_Timestamp_def Timestamp_less_def Timestamp_equal_def)

section \<open>Printing\<close>

text \<open>Division and remainder of C round towards zero.\<close>

definition c_div :: "int \<Rightarrow> int \<Rightarrow> int" where
  "c_div a b = sgn a * sgn b * (\<bar>a\<bar> div \<bar>b\<bar>)"

definition c_mod :: "int \<Rightarrow> int \<Rightarrow> int" where
  "c_mod a b = a - b * c_div a b"

text \<open>The conversion \<open>%06\<close>, whose width counts the sign.\<close>

definition show_int_06 :: "int \<Rightarrow> string" where
  "show_int_06 i = (if i < 0 then CHR ''-'' # pad_zeros 5 (show_nat (nat (- i)))
                    else pad_zeros 6 (show_nat (nat i)))"

definition Timestamp_toString :: "Timestamp \<Rightarrow> string" where
  "Timestamp_toString t =
     (let seconds = c_div (microSecondsSinceEpoch t) kMicroSecondsPerSecond;
          microseconds = c_mod (microSecondsSinceEpoch t) kMicroSecondsPerSecond
      in snprintf 31 (show_int seconds @ ''.'' @ show_int_06 microseconds))"

section \<open>Reading a printed timestamp back\<close>

definition Timestamp_read :: "string \<Rightarrow> nat" where
  "Timestamp_read s =
     parse_nat (takeWhile (\<lambda>c. c \<noteq> CHR ''.'') s) * 1000000
     + parse_nat (drop 1 (dropWhile (\<lambda>c. c \<noteq> CHR ''.'') s))"

lemma toString_nonneg:
  assumes "0 \<le> microSecondsSinceEpoch t" and "microSecondsSinceEpoch t < 2 ^ 63"
  defines "n \<equiv> nat (microSecondsSinceEpoch t)"
  shows "Timestamp_toString t = show_nat (n div 1000000) @ ''.'' @ pad_zeros 6 (show_nat (n mod 1000000))"
    and "length (pad_zeros 6 (show_nat (n mod 1000000))) = 6"
proof -
  let ?m = "microSecondsSinceEpoch t"
  have m: "?m = int n" using assms(1) by (simp add: n_def)
  have dv: "c_div ?m 1000000 = int (n div 1000000)"
    by (cases "n = 0") (simp_all add: m c_div_def zdiv_int sgn_if)
  moreover have "int n - 1000000 * int (n div 1000000) = int (n mod 1000000)"
    by (simp add: zmod_int zdiv_int minus_mult_div_eq_mod)
  ultimately have md: "c_mod ?m 1000000 = int (n mod 1000000)"
    by (simp add: c_mod_def m)
  have "length (show_nat (n mod 1000000)) \<le> 6"
    by (rule length_show_nat_le) simp_all
  then show l: "length (pad_zeros 6 (show_nat (n mod 1000000))) = 6"
    by (simp add: pad_zeros_def)
  have "n < 2 ^ 63" using assms by (simp add: n_def nat_less_iff)
  then have "n div 1000000 < 10 ^ 13" by simp
  then have "length (show_nat (n div 1000000)) \<le> 13"
    by (rule length_show_nat_le [rotated]) simp
  then show "Timestamp_toString t = show_nat (n div 1000000) @ ''.'' @ pad_zeros 6 (show_nat (n mod 1000000))"
    using l by (simp add: Timestamp_toString_def kMicroSecondsPerSecond_def dv md snprintf_def
        show_int_def show_int_06_def)
qed

section \<open>Properties\<close>

text \<open>
  C37. A printed timestamp can be read back: for every time the system clock can return
  (non-negative, in an \<open>int64_t\<close>) the digits before the point are the seconds, the six digits
  after it the microseconds, and nothing is cut off by the 32-byte buffer.
\<close>

theorem Timestamp_toString_roundtrip:
  assumes "0 \<le> microSecondsSinceEpoch t" and "microSecondsSinceEpoch t < 2 ^ 63"
  shows "int (Timestamp_read (Timestamp_toString t)) = microSecondsSinceEpoch t"
proof -
  let ?n = "nat (microSecondsSinceEpoch t)"
  let ?s = "show_nat (?n div 1000000)" and ?u = "pad_zeros 6 (show_nat (?n mod 1000000))"
  have nd: "CHR ''.'' \<notin> set ?s"
    using show_nat_digits [of "CHR ''.''"] by auto
  then have ne: "\<forall>c\<in>set ?s. c \<noteq> CHR ''.''" by blast
  have "takeWhile (\<lambda>c. c \<noteq> CHR ''.'') (?s @ ''.'' @ ?u) = ?s"
    using ne by (simp add: takeWhile_append)
  moreover have "drop 1 (dropWhile (\<lambda>c. c \<noteq> CHR ''.'') (?s @ ''.'' @ ?u)) = ?u"
    using ne by (simp add: dropWhile_append)
  moreover have "parse_nat ?u = ?n mod 1000000"
    by (simp add: pad_zeros_def parse_nat_zeros)
  ultimately have "Timestamp_read (Timestamp_toString t) = ?n div 1000000 * 1000000 + ?n mod 1000000"
    unfolding toString_nonneg(1) [OF assms] Timestamp_read_def by (simp only: parse_show_nat)
  also have "\<dots> = ?n" by (rule div_mult_mod_eq)
  finally show ?thesis using assms(1) by simp
qed

theorem Timestamp_toString_roundtrip_witness:
  "int (Timestamp_read (Timestamp_toString (Timestamp 1500000042))) = 1500000042"
  using Timestamp_toString_roundtrip [of "Timestamp 1500000042"] by simp

end
