(* ===== verification/Http_Request.thy ===== *)
theory Http_Request
  imports Std_Map Timestamps
begin

text \<open>
  \<open>HTTP/HttpRequest.h\<close>: a parsed request. The setters of the source get pointers into the
  input; the model's get the characters in the range.
\<close>

section \<open>The class\<close>

datatype Method = kInvalid | kGet | kPost | kHead | kPut | kDelete

datatype Version = kUnknown | kHttp10 | kHttp11

record HttpRequest =
  req_method :: Method
  req_version :: Version
  req_path :: string
  req_query :: string
  req_receiveTime :: Timestamp
  req_headers :: "(string, string) std_map"

definition HttpRequest_new :: HttpRequest where
  "HttpRequest_new =
     \<lparr>req_method = kInvalid, req_version = kUnknown, req_path = [], req_query = [],
      req_receiveTime = Timestamp_default, req_headers = []\<rparr>"

definition setVersion :: "Version \<Rightarrow> HttpRequest \<Rightarrow> HttpRequest" where
  "setVersion v r = r\<lparr>req_version := v\<rparr>"

definition setMethod :: "string \<Rightarrow> HttpRequest \<Rightarrow> (bool \<times> HttpRequest) res" where
  "setMethod m r =
     assert_that (req_method r = kInvalid)
       (let meth = (if m = ''GET'' then kGet
                    else if m = ''POST'' then kPost
                    else if m = ''HEAD'' then kHead
                    else if m = ''PUT'' then kPut
                    else if m = ''DELETE'' then kDelete
                    else kInvalid)
        in Inr (meth \<noteq> kInvalid, r\<lparr>req_method := meth\<rparr>))"

definition methodString :: "Method \<Rightarrow> string" where
  "methodString m =
     (case m of kGet \<Rightarrow> ''GET'' | kPost \<Rightarrow> ''POST'' | kHead \<Rightarrow> ''HEAD'' | kPut \<Rightarrow> ''PUT''
      | kDelete \<Rightarrow> ''DELETE'' | kInvalid \<Rightarrow> ''UNKNOWN'')"

definition setPath :: "string \<Rightarrow> HttpRequest \<Rightarrow> HttpRequest" where
  "setPath s r = r\<lparr>req_path := s\<rparr>"

definition setQuery :: "string \<Rightarrow> HttpRequest \<Rightarrow> HttpRequest" where
  "setQuery s r = r\<lparr>req_query := s\<rparr>"

definition setReceiveTime :: "Timestamp \<Rightarrow> HttpRequest \<Rightarrow> HttpRequest" where
  "setReceiveTime t r = r\<lparr>req_receiveTime := t\<rparr>"

text \<open>The loop that drops white space from the end of the value.\<close>

function trim_right :: "string \<Rightarrow> string" where
  "trim_right value =
     (if value \<noteq> [] \<and> isspace (last value) then trim_right (butlast value) else value)"
  by pat_completeness auto
termination
  by (relation "measure length") auto

declare trim_right.simps [simp del]

text \<open>A header line and the position of its colon.\<close>

definition addHeader :: "string \<Rightarrow> nat \<Rightarrow> HttpRequest \<Rightarrow> HttpRequest" where
  "addHeader line colon r =
     (let field = take colon line;
          value = trim_right (dropWhile isspace (drop (colon + 1) line))
      in r\<lparr>req_headers := map_put field value (req_headers r)\<rparr>)"

definition getHeader :: "string \<Rightarrow> HttpRequest \<Rightarrow> string" where
  "getHeader field r = (case map_find (req_headers r) field of Some v \<Rightarrow> v | None \<Rightarrow> [])"

text \<open>\<open>swap\<close> leaves both versions where they are, and copies the receive time one way.\<close>

definition HttpRequest_swap :: "HttpRequest \<Rightarrow> HttpRequest \<Rightarrow> HttpRequest \<times> HttpRequest" where
  "HttpRequest_swap this that =
     (this\<lparr>req_method := req_method that, req_path := req_path that, req_query := req_query that,
           req_receiveTime := req_receiveTime that, req_headers := req_headers that\<rparr>,
      that\<lparr>req_method := req_method this, req_path := req_path this, req_query := req_query this,
           req_headers := req_headers this\<rparr>)"

section \<open>Lemmas\<close>

lemma trim_right_id: "s = [] \<or> \<not> isspace (last s) \<Longrightarrow> trim_right s = s"
  by (subst trim_right.simps) auto

lemma trim_right_space: "s \<noteq> [] \<Longrightarrow> isspace (last s) \<Longrightarrow> trim_right s = trim_right (butlast s)"
  by (subst trim_right.simps) auto

text \<open>What is left does not end in white space, and only white space was dropped.\<close>

lemma trim_right_spec:
  "(trim_right s = [] \<or> \<not> isspace (last (trim_right s)))
   \<and> (\<exists>ws. s = trim_right s @ ws \<and> list_all isspace ws)"
proof (induction s rule: trim_right.induct)
  case (1 s)
  show ?case
  proof (cases "s \<noteq> [] \<and> isspace (last s)")
    case True
    with 1 obtain ws where *: "butlast s = trim_right (butlast s) @ ws" "list_all isspace ws"
        "trim_right (butlast s) = [] \<or> \<not> isspace (last (trim_right (butlast s)))" by blast
    from True have "s = butlast s @ [last s]" by simp
    with *(1) have "s = trim_right (butlast s) @ ws @ [last s]" by (metis append.assoc)
    moreover have "list_all isspace (ws @ [last s])" using True *(2) by simp
    ultimately have "\<exists>ws. s = trim_right (butlast s) @ ws \<and> list_all isspace ws" by blast
    moreover have "trim_right s = trim_right (butlast s)" using True by (simp add: trim_right_space)
    ultimately show ?thesis using *(3) by presburger
  next
    case False
    then show ?thesis by (auto simp: trim_right_id)
  qed
qed

lemma dropWhile_hd: "s = [] \<or> \<not> p (hd s) \<Longrightarrow> dropWhile p s = s"
  by (cases s) auto

text \<open>A name, a colon, a space and a value, as clients write a header.\<close>

lemma addHeader_line:
  assumes "CHR '':'' \<notin> set k" and "v = [] \<or> \<not> isspace (hd v) \<and> \<not> isspace (last v)"
  shows "addHeader (k @ '': '' @ v) (std_find CHR '':'' (k @ '': '' @ v)) r =
     r\<lparr>req_headers := map_put k v (req_headers r)\<rparr>"
proof -
  have "std_find CHR '':'' (k @ '': '' @ v) = length k"
    using assms(1) by simp
  moreover have "trim_right (dropWhile isspace (SP # v)) = v"
  proof -
    have "dropWhile isspace (SP # v) = dropWhile isspace v" by (simp add: isspace_def)
    also have "\<dots> = v" using assms(2) by (intro dropWhile_hd) auto
    finally show ?thesis using assms(2) by (auto intro: trim_right_id)
  qed
  ultimately show ?thesis by (simp add: addHeader_def)
qed

lemma setMethod_methodString:
  "m \<noteq> kInvalid \<Longrightarrow> req_method r = kInvalid \<Longrightarrow>
   setMethod (methodString m) r = Inr (True, r\<lparr>req_method := m\<rparr>)"
  by (cases m) (simp_all add: setMethod_def methodString_def)

lemma methodString_no_space: "SP \<notin> set (methodString m)"
  by (cases m) (simp_all add: methodString_def)

lemma methodString_no_CR: "CR \<notin> set (methodString m)"
  by (cases m) (simp_all add: methodString_def)

end
