(* ===== verification/Http_Context.thy ===== *)
theory Http_Context
  imports Http_Request Byte_Buffer
begin

text \<open>
  \<open>HTTP/HttpContext.h\<close> and \<open>HTTP/HttpContext.cpp\<close>: the incremental parser of requests. The loop
  of \<open>parseRequest\<close> does not end in every state, so it is a partial function: \<open>None\<close> is a call
  that does not return. The request line is handed to \<open>processRequestLine\<close> as the characters in
  \<open>[begin, end)\<close>.
\<close>

section \<open>The class\<close>

datatype HttpRequestParseState = kExpectRequestLine | kExpectHeaders | kExpectBody | kGotAll

record HttpContext =
  ctx_state :: HttpRequestParseState
  ctx_request :: HttpRequest

definition HttpContext_new :: HttpContext where
  "HttpContext_new = \<lparr>ctx_state = kExpectRequestLine, ctx_request = HttpRequest_new\<rparr>"

definition gotAll :: "HttpContext \<Rightarrow> bool" where
  "gotAll c \<longleftrightarrow> ctx_state c = kGotAll"

definition HttpContext_reset :: "HttpContext \<Rightarrow> HttpContext" where
  "HttpContext_reset c =
     c\<lparr>ctx_state := kExpectRequestLine,
       ctx_request := fst (HttpRequest_swap (ctx_request c) HttpRequest_new)\<rparr>"

definition with_request :: "HttpContext \<Rightarrow> HttpRequest \<Rightarrow> HttpContext" where
  "with_request c r = c\<lparr>ctx_request := r\<rparr>"

definition HttpContext_processRequestLine :: "string \<Rightarrow> HttpContext \<Rightarrow> (bool \<times> HttpContext) res" where
  "HttpContext_processRequestLine line c =
     (let space = std_find SP line in
      if space \<noteq> length line then
        andThen (setMethod (take space line) (ctx_request c)) (\<lambda>(known, r).
          if known then
            let rest = drop (space + 1) line;
                space = std_find SP rest
            in if space \<noteq> length rest then
                 let target = take space rest;
                     question = std_find CHR ''?'' target;
                     r = (if question \<noteq> length target
                          then setQuery (drop question target) (setPath (take question target) r)
                          else setPath target r);
                     version = drop (space + 1) rest;
                     succeed = (length version = 8 \<and> take 7 version = ''HTTP/1.'')
                 in if succeed then
                      if version ! 7 = CHR ''1'' then Inr (True, with_request c (setVersion kHttp11 r))
                      else if version ! 7 = CHR ''0'' then Inr (True, with_request c (setVersion kHttp10 r))
                      else Inr (False, with_request c r)
                    else Inr (False, with_request c r)
               else Inr (False, with_request c r)
          else Inr (False, with_request c r))
      else Inr (False, c))"

text \<open>
  One pass of the loop is one unfolding. The local \<open>ok\<close> is an argument; \<open>hasMore\<close> is whether
  the pass calls the function again.
\<close>

partial_function (option) parse_loop ::
    "Timestamp \<Rightarrow> bool \<Rightarrow> HttpContext \<Rightarrow> Buffer \<Rightarrow> (bool \<times> HttpContext \<times> Buffer) res option" where
  "parse_loop receiveTime ok c buf =
     (case ctx_state c of
        kExpectRequestLine \<Rightarrow>
          (case Buffer_findCLRF (Buffer_peek buf) buf of
             Inl e \<Rightarrow> Some (Inl e)
           | Inr None \<Rightarrow> Some (Inr (ok, c, buf))
           | Inr (Some eol) \<Rightarrow>
               (case HttpContext_processRequestLine (Buffer_range buf (Buffer_peek buf) eol) c of
                  Inl e \<Rightarrow> Some (Inl e)
                | Inr (ok, c) \<Rightarrow>
                    if ok then
                      (case Buffer_retrieveUntill (eol + 2) buf of
                         Inl e \<Rightarrow> Some (Inl e)
                       | Inr (_, buf) \<Rightarrow>
                           parse_loop receiveTime ok
                             (c\<lparr>ctx_request := setReceiveTime receiveTime (ctx_request c),
                                ctx_state := kExpectHeaders\<rparr>) buf)
                    else Some (Inr (ok, c, buf))))
      | kExpectHeaders \<Rightarrow>
          (case Buffer_findCLRF (Buffer_peek buf) buf of
             Inl e \<Rightarrow> Some (Inl e)
           | Inr None \<Rightarrow> Some (Inr (ok, c, buf))
           | Inr (Some eol) \<Rightarrow>
               (let line = Buffer_range buf (Buffer_peek buf) eol;
                    colon = std_find CHR '':'' line
                in if colon \<noteq> length line then
                     (case Buffer_retrieveUntill (eol + 2) buf of
                        Inl e \<Rightarrow> Some (Inl e)
                      | Inr (_, buf) \<Rightarrow>
                          parse_loop receiveTime ok
                            (with_request c (addHeader line colon (ctx_request c))) buf)
                   else
                     (case Buffer_retrieveUntill (eol + 2) buf of
                        Inl e \<Rightarrow> Some (Inl e)
                      | Inr (_, buf) \<Rightarrow> Some (Inr (ok, c\<lparr>ctx_state := kGotAll\<rparr>, buf)))))
      | kExpectBody \<Rightarrow> parse_loop receiveTime ok c buf
      | kGotAll \<Rightarrow> parse_loop receiveTime ok c buf)"

definition HttpContext_parseRequest ::
    "HttpContext \<Rightarrow> Buffer \<Rightarrow> Timestamp \<Rightarrow> (bool \<times> HttpContext \<times> Buffer) res option" where
  "HttpContext_parseRequest c buf receiveTime = parse_loop receiveTime True c buf"

section \<open>The parser on a plain list of bytes\<close>

text \<open>
  What the parser does to the unread bytes, without the buffer: it takes header lines up to the
  first line without a colon.
\<close>

function parse_headers :: "string \<Rightarrow> HttpContext \<Rightarrow> HttpContext \<times> string" where
  "parse_headers q c =
     (case split_line q of
        None \<Rightarrow> (c, q)
      | Some (line, rest) \<Rightarrow>
          if CHR '':'' \<in> set line then
            parse_headers rest
              (with_request c (addHeader line (std_find CHR '':'' line) (ctx_request c)))
          else (c\<lparr>ctx_state := kGotAll\<rparr>, rest))"
  by pat_completeness auto
termination
  by (relation "measure (\<lambda>(q, c). length q)") (auto dest: split_line_shorter)

declare parse_headers.simps [simp del]

definition parse_bytes ::
    "Timestamp \<Rightarrow> HttpContext \<Rightarrow> string \<Rightarrow> (bool \<times> HttpContext \<times> string) res option" where
  "parse_bytes receiveTime c q =
     (case ctx_state c of
        kExpectRequestLine \<Rightarrow>
          Some (case split_line q of
                  None \<Rightarrow> Inr (True, c, q)
                | Some (line, rest) \<Rightarrow>
                    andThen (HttpContext_processRequestLine line c) (\<lambda>(ok, c).
                      if ok then
                        Inr (True, parse_headers rest
                          (c\<lparr>ctx_request := setReceiveTime receiveTime (ctx_request c),
                             ctx_state := kExpectHeaders\<rparr>))
                      else Inr (False, c, q)))
      | kExpectHeaders \<Rightarrow> Some (Inr (True, parse_headers q c))
      | kExpectBody \<Rightarrow> None
      | kGotAll \<Rightarrow> None)"

text \<open>A result of the parser with the unread bytes in place of the buffer.\<close>

definition abs_result ::
    "(bool \<times> HttpContext \<times> Buffer) res option \<Rightarrow> (bool \<times> HttpContext \<times> string) res option" where
  "abs_result = map_option (map_sum id (apsnd (apsnd contents)))"

lemma abs_result_simps [simp]:
  "abs_result None = None"
  "abs_result (Some (Inl e)) = Some (Inl e)"
  "abs_result (Some (Inr (ok, c, b))) = Some (Inr (ok, c, contents b))"
  by (simp_all add: abs_result_def)

lemma parse_result_cases:
  fixes x :: "(bool \<times> HttpContext \<times> 'b) res option"
  obtains "x = None" | e where "x = Some (Inl e)" | ok c b where "x = Some (Inr (ok, c, b))"
  by (metis option.exhaust sum.exhaust surj_pair)

lemma abs_result_eq:
  "abs_result x = None \<longleftrightarrow> x = None"
  "abs_result x = Some (Inl e) \<longleftrightarrow> x = Some (Inl e)"
  "abs_result x = Some (Inr (ok, c, q)) \<longleftrightarrow> (\<exists>b. x = Some (Inr (ok, c, b)) \<and> contents b = q)"
  by (cases x rule: parse_result_cases; auto)+

lemma parse_headers_none: "split_line q = None \<Longrightarrow> parse_headers q c = (c, q)"
  by (subst parse_headers.simps) simp

lemma parse_headers_line:
  "split_line q = Some (line, rest) \<Longrightarrow> CHR '':'' \<in> set line \<Longrightarrow>
   parse_headers q c = parse_headers rest
     (with_request c (addHeader line (std_find CHR '':'' line) (ctx_request c)))"
  by (subst parse_headers.simps) simp

lemma parse_headers_end:
  "split_line q = Some (line, rest) \<Longrightarrow> CHR '':'' \<notin> set line \<Longrightarrow>
   parse_headers q c = (c\<lparr>ctx_state := kGotAll\<rparr>, rest)"
  by (subst parse_headers.simps) simp

lemma with_request_simps [simp]:
  "ctx_state (with_request c r) = ctx_state c" "ctx_request (with_request c r) = r"
  "with_request (with_request c r) r' = with_request c r'"
  by (simp_all add: with_request_def)

section \<open>The loop does what the plain parser does\<close>

lemma parse_loop_headers:
  "Buffer_inv buf \<Longrightarrow> contents buf = q \<Longrightarrow> ctx_state c = kExpectHeaders \<Longrightarrow>
   \<exists>buf'. parse_loop t ok c buf = Some (Inr (ok, fst (parse_headers q c), buf'))
     \<and> Buffer_inv buf' \<and> contents buf' = snd (parse_headers q c)"
proof (induction q c arbitrary: buf rule: parse_headers.induct)
  case (1 q c)
  show ?case
  proof (cases "split_line q")
    case None
    with "1.prems" inp.find_none [of buf] show ?thesis
      by (subst parse_loop.simps) (simp add: parse_headers_none)
  next
    case (Some lr)
    then obtain line rest where l: "split_line q = Some (line, rest)" by (cases lr) auto
    then have l': "split_line (contents buf) = Some (line, rest)" using "1.prems"(2) by simp
    note find = inp.find_some [OF "1.prems"(1) l'] inp.line_range [OF "1.prems"(1) l']
    obtain n buf' where skip: "Buffer_retrieveUntill (Buffer_peek buf + int (length line) + 2) buf
        = Inr (n, buf')" "Buffer_inv buf'" "contents buf' = rest"
      by (rule inp.skip_line [OF "1.prems"(1) l'])
    show ?thesis
    proof (cases "CHR '':'' \<in> set line")
      case True
      with "1.IH" [OF l refl True skip(2,3)] "1.prems"(3) find skip(1) show ?thesis
        by (subst parse_loop.simps) (simp add: parse_headers_line [OF l True] std_find_eq_length)
    next
      case False
      with "1.prems"(3) find skip show ?thesis
        by (subst parse_loop.simps) (simp add: parse_headers_end [OF l False])
    qed
  qed
qed

lemma parse_loop_request_line:
  assumes "Buffer_inv buf" and "ctx_state c = kExpectRequestLine"
  shows "abs_result (parse_loop t True c buf)
      = parse_bytes t c (contents buf)"
    and "parse_loop t True c buf = Some (Inr (ok, c', buf')) \<Longrightarrow> Buffer_inv buf'"
proof -
  let ?q = "contents buf"
  consider (none) "split_line ?q = None" | (line) line rest where "split_line ?q = Some (line, rest)"
    by (cases "split_line ?q") auto
  then have "abs_result (parse_loop t True c buf)
      = parse_bytes t c ?q \<and> (parse_loop t True c buf = Some (Inr (ok, c', buf')) \<longrightarrow> Buffer_inv buf')"
  proof cases
    case none
    with assms inp.find_none [of buf] show ?thesis
      by (subst (1 2) parse_loop.simps) (auto simp: parse_bytes_def)
  next
    case line
    note find = inp.find_some [OF assms(1) line] inp.line_range [OF assms(1) line]
    obtain n buf1 where skip: "Buffer_retrieveUntill (Buffer_peek buf + int (length line) + 2) buf
        = Inr (n, buf1)" "Buffer_inv buf1" "contents buf1 = rest"
      by (rule inp.skip_line [OF assms(1) line])
    show ?thesis
    proof (cases "HttpContext_processRequestLine line c")
      case (Inl e)
      with assms(2) line find show ?thesis
        by (subst (1 2) parse_loop.simps) (simp add: parse_bytes_def)
    next
      case (Inr okc)
      obtain k c1 where r: "okc = (k, c1)" by (cases okc)
      let ?c = "c1\<lparr>ctx_request := setReceiveTime t (ctx_request c1), ctx_state := kExpectHeaders\<rparr>"
      have st: "ctx_state ?c = kExpectHeaders" by simp
      obtain buf2 where h: "parse_loop t True ?c buf1 = Some (Inr (True, fst (parse_headers rest ?c), buf2))"
          "Buffer_inv buf2" "contents buf2 = snd (parse_headers rest ?c)"
        using parse_loop_headers [OF skip(2,3) st] by blast
      show ?thesis
      proof (cases k)
        case True
        with assms(2) line find skip(1) Inr r h show ?thesis
          by (subst (1 2) parse_loop.simps) (auto simp: parse_bytes_def)
      next
        case False
        with assms line find Inr r show ?thesis
          by (subst (1 2) parse_loop.simps) (auto simp: parse_bytes_def)
      qed
    qed
  qed
  then show "abs_result (parse_loop t True c buf)
      = parse_bytes t c (contents buf)"
    and "parse_loop t True c buf = Some (Inr (ok, c', buf')) \<Longrightarrow> Buffer_inv buf'"
    by blast+
qed

text \<open>In the other two states the loop has no branch to run and never ends.\<close>

lemma parse_loop_stuck:
  assumes "parse_loop t ok c buf = Some r"
  shows "ctx_state c = kExpectRequestLine \<or> ctx_state c = kExpectHeaders"
proof (rule parse_loop.raw_induct [where
      P = "\<lambda>t ok c buf r. ctx_state c = kExpectRequestLine \<or> ctx_state c = kExpectHeaders", OF _ assms],
    goal_cases)
  case (1 f t ok c buf r)
  show ?case by (cases "ctx_state c") (use 1(2) in \<open>auto dest: 1(1)\<close>)
qed

lemma parseRequest_refines:
  "Buffer_inv buf \<Longrightarrow>
   abs_result (HttpContext_parseRequest c buf t)
     = parse_bytes t c (contents buf)"
proof (cases "ctx_state c")
  case kExpectRequestLine
  assume "Buffer_inv buf"
  then show ?thesis
    using kExpectRequestLine by (simp add: HttpContext_parseRequest_def parse_loop_request_line(1))
next
  case kExpectHeaders
  assume "Buffer_inv buf"
  from parse_loop_headers [OF this refl kExpectHeaders, of t True] kExpectHeaders show ?thesis
    by (auto simp: HttpContext_parseRequest_def parse_bytes_def)
next
  case kExpectBody
  with parse_loop_stuck [of t True c buf] show ?thesis
    by (cases "parse_loop t True c buf") (auto simp: HttpContext_parseRequest_def parse_bytes_def)
next
  case kGotAll
  with parse_loop_stuck [of t True c buf] show ?thesis
    by (cases "parse_loop t True c buf") (auto simp: HttpContext_parseRequest_def parse_bytes_def)
qed

lemma parseRequest_inv:
  "Buffer_inv buf \<Longrightarrow> HttpContext_parseRequest c buf t = Some (Inr (ok, c', buf')) \<Longrightarrow> Buffer_inv buf'"
proof -
  assume i: "Buffer_inv buf" and p: "HttpContext_parseRequest c buf t = Some (Inr (ok, c', buf'))"
  from p have p': "parse_loop t True c buf = Some (Inr (ok, c', buf'))"
    by (simp add: HttpContext_parseRequest_def)
  from parse_loop_stuck [OF p'] show ?thesis
  proof
    assume "ctx_state c = kExpectRequestLine"
    from parse_loop_request_line(2) [OF i this p'] show ?thesis .
  next
    assume "ctx_state c = kExpectHeaders"
    from parse_loop_headers [OF i refl this, of t True] p' show ?thesis by auto
  qed
qed

text \<open>
  The parser only moves the indices of the buffer; when it took the last byte, they are back at the
  beginning.
\<close>

definition buf_drained :: "Buffer \<Rightarrow> Buffer \<Rightarrow> bool" where
  "buf_drained b b' \<longleftrightarrow> buffer b' = buffer b
     \<and> (b' = b \<or> readIndex b' < writeIndex b' \<or> readIndex b' = 0 \<and> writeIndex b' = 0)"

lemma buf_drained_trans: "buf_drained a b \<Longrightarrow> buf_drained b c \<Longrightarrow> buf_drained a c"
  by (auto simp: buf_drained_def)

lemma retrieveUntill_drained: "Buffer_retrieveUntill p b = Inr (n, b') \<Longrightarrow> buf_drained b b'"
  by (auto simp: Buffer_retrieveUntill_def assert_that_eq_Inr Buffer_retrieve_def buf_drained_def split: if_splits)

lemma parse_loop_drained:
  assumes "parse_loop t ok c buf = Some r"
  shows "\<forall>ok' c' buf'. r = Inr (ok', c', buf') \<longrightarrow> buf_drained buf buf'"
proof (rule parse_loop.raw_induct [where
      P = "\<lambda>t ok c buf r. \<forall>ok' c' buf'. r = Inr (ok', c', buf') \<longrightarrow> buf_drained buf buf'", OF _ assms],
    goal_cases)
  case (1 f t ok c buf r)
  have s: "buf_drained buf buf" by (simp add: buf_drained_def)
  show ?case
    by (cases "ctx_state c")
      (use 1(2) s in \<open>auto simp: Let_def split: sum.splits option.splits prod.splits if_splits
        dest!: 1(1) intro: retrieveUntill_drained buf_drained_trans [OF retrieveUntill_drained]\<close>)
qed

lemma parseRequest_drained:
  "HttpContext_parseRequest c buf t = Some (Inr (ok, c', buf')) \<Longrightarrow> buf_drained buf buf'"
  using parse_loop_drained unfolding HttpContext_parseRequest_def by blast

section \<open>The request line\<close>

definition version_digit :: "Version \<Rightarrow> char" where
  "version_digit v = (if v = kHttp11 then CHR ''1'' else CHR ''0'')"

definition target_request :: "string \<Rightarrow> HttpRequest \<Rightarrow> HttpRequest" where
  "target_request target r =
     (if CHR ''?'' \<in> set target
      then r\<lparr>req_path := takeWhile (\<lambda>x. x \<noteq> CHR ''?'') target,
             req_query := dropWhile (\<lambda>x. x \<noteq> CHR ''?'') target\<rparr>
      else r\<lparr>req_path := target\<rparr>)"

lemma target_request_path:
  "(if std_find CHR ''?'' target \<noteq> length target
    then setQuery (drop (std_find CHR ''?'' target) target) (setPath (take (std_find CHR ''?'' target) target) r)
    else setPath target r) = target_request target r"
  by (simp add: target_request_def std_find_eq_length setQuery_def setPath_def take_std_find drop_std_find)

lemma version_text: "length v = 8 \<and> take 7 v = ''HTTP/1.'' \<longleftrightarrow> (\<exists>d. v = ''HTTP/1.'' @ [d])"
proof
  assume v: "length v = 8 \<and> take 7 v = ''HTTP/1.''"
  then have "take (Suc 7) v = take 7 v @ [v ! 7]" by (intro take_Suc_conv_app_nth) simp
  with v have "v = take 7 v @ [v ! 7]" by simp
  with v show "\<exists>d. v = ''HTTP/1.'' @ [d]" by metis
qed auto

lemma processRequestLine_complete:
  assumes "m \<noteq> kInvalid" "SP \<notin> set target" "req_method (ctx_request c) = kInvalid"
    "v = kHttp10 \<or> v = kHttp11"
  shows "HttpContext_processRequestLine
      (methodString m @ SP # target @ SP # ''HTTP/1.'' @ [version_digit v]) c =
    Inr (True, with_request c
      (setVersion v (target_request target ((ctx_request c)\<lparr>req_method := m\<rparr>))))"
proof -
  let ?ver = "''HTTP/1.'' @ [version_digit v]"
  let ?rest = "target @ SP # ?ver" and ?ms = "methodString m"
  let ?r = "(ctx_request c)\<lparr>req_method := m\<rparr>"
  have 1: "std_find SP (?ms @ SP # ?rest) = length ?ms"
    using methodString_no_space by (rule std_find_append)
  have 2: "std_find SP ?rest = length target"
    using assms(2) by (rule std_find_append)
  have 3: "take (length ?ms) (?ms @ SP # ?rest) = ?ms" "drop (length ?ms + 1) (?ms @ SP # ?rest) = ?rest"
    "take (length target) ?rest = target" "drop (length target + 1) ?rest = ?ver"
    "length ?ms \<noteq> length (?ms @ SP # ?rest)" "length target \<noteq> length ?rest"
    by simp_all
  have 4: "length ?ver = 8 \<and> take 7 ?ver = ''HTTP/1.''" "?ver ! 7 = version_digit v"
    by simp_all
  note sm = setMethod_methodString [OF assms(1,3)]
  have "HttpContext_processRequestLine (?ms @ SP # ?rest) c =
      (if version_digit v = CHR ''1'' then Inr (True, with_request c (setVersion kHttp11 (target_request target ?r)))
       else if version_digit v = CHR ''0'' then Inr (True, with_request c (setVersion kHttp10 (target_request target ?r)))
       else Inr (False, with_request c (target_request target ?r)))"
    by (simp only: HttpContext_processRequestLine_def Let_def 1 2 3 4 sm andThen_Inr prod.case
        target_request_path if_True simp_thms)
  with assms(4) show ?thesis by (auto simp: version_digit_def)
qed

lemma setMethod_True:
  "setMethod s r = Inr (True, r') \<Longrightarrow>
   \<exists>m. m \<noteq> kInvalid \<and> s = methodString m \<and> r' = r\<lparr>req_method := m\<rparr> \<and> req_method r = kInvalid"
  by (cases "req_method r = kInvalid")
    (auto simp: setMethod_def Let_def methodString_def assert_that_def split: if_splits
      intro: exI [of _ kGet] exI [of _ kPost] exI [of _ kHead] exI [of _ kPut] exI [of _ kDelete])

lemma processRequestLine_sound:
  assumes "HttpContext_processRequestLine line c = Inr (True, c')"
  shows "\<exists>m target v. m \<noteq> kInvalid \<and> SP \<notin> set target \<and> (v = kHttp10 \<or> v = kHttp11)
    \<and> req_method (ctx_request c) = kInvalid
    \<and> line = methodString m @ SP # target @ SP # ''HTTP/1.'' @ [version_digit v]"
proof -
  from assms have n: "std_find SP line \<noteq> length line"
    by (auto simp: HttpContext_processRequestLine_def)
  then obtain ms rest where line: "line = ms @ SP # rest" "take (std_find SP line) line = ms"
      "drop (std_find SP line + 1) line = rest"
    by (rule std_find_split)
  from assms n obtain r where sm: "setMethod ms (ctx_request c) = Inr (True, r)"
    and n2: "std_find SP rest \<noteq> length rest"
    unfolding HttpContext_processRequestLine_def Let_def line(2,3)
    by (auto simp: andThen_eq_Inr split: if_splits)
  from n2 obtain target version where rest: "rest = target @ SP # version" "SP \<notin> set target"
      "take (std_find SP rest) rest = target" "drop (std_find SP rest + 1) rest = version"
    by (rule std_find_split)
  from assms n n2 sm have v: "length version = 8 \<and> take 7 version = ''HTTP/1.''"
    and d: "version ! 7 = CHR ''1'' \<or> version ! 7 = CHR ''0''"
    unfolding HttpContext_processRequestLine_def Let_def line(2,3) rest(3,4)
    by (auto split: if_splits)
  from v obtain e where "version = ''HTTP/1.'' @ [e]" unfolding version_text by blast
  with d have "version = ''HTTP/1.'' @ [version_digit kHttp11] \<or> version = ''HTTP/1.'' @ [version_digit kHttp10]"
    by (auto simp: version_digit_def)
  with setMethod_True [OF sm] line(1) rest(1,2) show ?thesis by blast
qed

section \<open>Requests as clients write them\<close>

definition render_request :: "Method \<Rightarrow> string \<Rightarrow> Version \<Rightarrow> (string \<times> string) list \<Rightarrow> string" where
  "render_request m target v hs =
     (methodString m @ SP # target @ SP # ''HTTP/1.'' @ [version_digit v]) @ crlf
     @ concat (map render_header hs) @ crlf"

definition header_ok :: "string \<times> string \<Rightarrow> bool" where
  "header_ok kv \<longleftrightarrow> CHR '':'' \<notin> set (fst kv) \<and> CR \<notin> set (fst kv) \<and> CR \<notin> set (snd kv)
     \<and> (snd kv = [] \<or> \<not> isspace (hd (snd kv)) \<and> \<not> isspace (last (snd kv)))"

definition put_headers :: "(string \<times> string) list \<Rightarrow> HttpRequest \<Rightarrow> HttpRequest" where
  "put_headers hs r = r\<lparr>req_headers := fold (\<lambda>(k, v). map_put k v) hs (req_headers r)\<rparr>"

lemma parse_headers_render:
  "list_all header_ok hs \<Longrightarrow>
   parse_headers (concat (map render_header hs) @ crlf @ rest) c =
     (c\<lparr>ctx_request := put_headers hs (ctx_request c), ctx_state := kGotAll\<rparr>, rest)"
proof (induction hs arbitrary: c)
  case Nil
  have "split_line (crlf @ rest) = Some ([], rest)"
    using split_line_line [of "[]" rest] by (simp add: crlf_def)
  then show ?case by (simp add: parse_headers_end put_headers_def)
next
  case (Cons kv hs)
  obtain k v where kv: "kv = (k, v)" by (cases kv)
  let ?line = "k @ '': '' @ v" and ?rest = "concat (map render_header hs) @ crlf @ rest"
  from Cons.prems kv have ok: "CHR '':'' \<notin> set k" "CR \<notin> set ?line"
      "v = [] \<or> \<not> isspace (hd v) \<and> \<not> isspace (last v)"
    by (auto simp: header_ok_def)
  have shape: "concat (map render_header (kv # hs)) @ crlf @ rest = ?line @ CR # LF # ?rest"
    by (simp add: kv render_header_def crlf_def)
  have "split_line (?line @ CR # LF # ?rest) = Some (?line, ?rest)"
    using ok(2) by (rule split_line_line)
  then show ?case
    unfolding shape
    using Cons.IH Cons.prems addHeader_line [OF ok(1,3), of "ctx_request c"]
    by (simp add: parse_headers_line kv put_headers_def with_request_def)
qed

lemma reset_simps [simp]:
  "ctx_state (HttpContext_reset c) = kExpectRequestLine"
  "ctx_request (HttpContext_reset c) =
     HttpRequest_new\<lparr>req_version := req_version (ctx_request c)\<rparr>"
  by (simp_all add: HttpContext_reset_def HttpRequest_swap_def HttpRequest_new_def)

lemma crlf_Cons: "crlf @ s = CR # LF # s"
  by (simp add: crlf_def)

definition rendered_request ::
    "Method \<Rightarrow> string \<Rightarrow> Version \<Rightarrow> (string \<times> string) list \<Rightarrow> Timestamp \<Rightarrow> HttpRequest" where
  "rendered_request m target v hs t =
     \<lparr>req_method = m, req_version = v,
      req_path = takeWhile (\<lambda>x. x \<noteq> CHR ''?'') target,
      req_query = dropWhile (\<lambda>x. x \<noteq> CHR ''?'') target,
      req_receiveTime = t,
      req_headers = fold (\<lambda>(k, v). map_put k v) hs []\<rparr>"

lemma target_request_fresh:
  "CHR ''?'' \<in> set target \<or> req_query r = [] \<Longrightarrow>
   target_request target r =
     r\<lparr>req_path := takeWhile (\<lambda>x. x \<noteq> CHR ''?'') target,
       req_query := dropWhile (\<lambda>x. x \<noteq> CHR ''?'') target\<rparr>"
proof (cases "CHR ''?'' \<in> set target")
  case False
  assume "CHR ''?'' \<in> set target \<or> req_query r = []"
  with False have r: "req_query r = []" by simp
  have all: "\<forall>x\<in>set target. x \<noteq> CHR ''?''" using False by blast
  have dw: "dropWhile (\<lambda>x. x \<noteq> CHR ''?'') target = []"
    unfolding dropWhile_eq_Nil_conv by (rule all)
  have tw: "takeWhile (\<lambda>x. x \<noteq> CHR ''?'') target = target"
    unfolding takeWhile_eq_all_conv by (rule all)
  show ?thesis using r by (cases r) (simp add: target_request_def False dw tw)
qed (simp add: target_request_def)

lemma parse_bytes_render:
  assumes "m \<noteq> kInvalid" "SP \<notin> set target" "CR \<notin> set target" "v = kHttp10 \<or> v = kHttp11"
    "list_all header_ok hs"
  shows "parse_bytes t (HttpContext_reset c) (render_request m target v hs @ rest) =
    Some (Inr (True, \<lparr>ctx_state = kGotAll, ctx_request = rendered_request m target v hs t\<rparr>, rest))"
proof -
  let ?line = "methodString m @ SP # target @ SP # ''HTTP/1.'' @ [version_digit v]"
  let ?c = "HttpContext_reset c" and ?rest = "concat (map render_header hs) @ crlf @ rest"
  have "CR \<notin> set ?line"
    using assms(3) methodString_no_CR by (auto simp: version_digit_def)
  then have l: "split_line (render_request m target v hs @ rest) = Some (?line, ?rest)"
    using split_line_line [of ?line ?rest] by (simp add: render_request_def crlf_Cons)
  have "HttpContext_processRequestLine ?line ?c =
      Inr (True, with_request ?c (setVersion v (target_request target ((ctx_request ?c)\<lparr>req_method := m\<rparr>))))"
    using assms by (intro processRequestLine_complete) (simp_all add: HttpRequest_new_def)
  then show ?thesis
    using parse_headers_render [OF assms(5), of rest]
    by (simp add: parse_bytes_def l target_request_fresh HttpRequest_new_def setVersion_def
        setReceiveTime_def put_headers_def rendered_request_def with_request_def)
qed

section \<open>Parsing in pieces\<close>

lemma parse_headers_append:
  "ctx_state c = kExpectHeaders \<Longrightarrow> ctx_state (fst (parse_headers q c)) \<noteq> kGotAll \<Longrightarrow>
   ctx_state (fst (parse_headers q c)) = kExpectHeaders
   \<and> parse_headers (q @ s) c = parse_headers (snd (parse_headers q c) @ s) (fst (parse_headers q c))"
proof (induction q c rule: parse_headers.induct)
  case (1 q c)
  show ?case
  proof (cases "split_line q")
    case None
    with "1.prems" show ?thesis by (simp add: parse_headers_none)
  next
    case (Some lr)
    then obtain line rest where l: "split_line q = Some (line, rest)" by (cases lr) auto
    note l' = split_line_append [OF l, of s]
    show ?thesis
    proof (cases "CHR '':'' \<in> set line")
      case True
      with "1.IH" [OF l refl True] "1.prems" show ?thesis
        by (simp add: parse_headers_line [OF l True] parse_headers_line [OF l' True])
    next
      case False
      with "1.prems" show ?thesis by (simp add: parse_headers_end [OF l False])
    qed
  qed
qed

lemma parse_bytes_append:
  assumes "parse_bytes t c q = Some (Inr (True, c', q'))" and "ctx_state c' \<noteq> kGotAll"
  shows "parse_bytes t c (q @ s) = parse_bytes t c' (q' @ s)"
proof (cases "ctx_state c")
  case kExpectRequestLine
  show ?thesis
  proof (cases "split_line q")
    case None
    with assms kExpectRequestLine show ?thesis by (auto simp: parse_bytes_def)
  next
    case (Some lr)
    then obtain line rest where l: "split_line q = Some (line, rest)" by (cases lr) auto
    note l' = split_line_append [OF l, of s]
    from assms(1) kExpectRequestLine l obtain c1 where
      p: "HttpContext_processRequestLine line c = Inr (True, c1)"
      by (auto simp: parse_bytes_def andThen_eq_Inr split: if_splits)
    let ?c = "c1\<lparr>ctx_request := setReceiveTime t (ctx_request c1), ctx_state := kExpectHeaders\<rparr>"
    from assms(1) kExpectRequestLine l p have h: "parse_headers rest ?c = (c', q')"
      by (simp add: parse_bytes_def)
    from parse_headers_append [of ?c rest s] h assms(2) show ?thesis
      using kExpectRequestLine l' p by (simp add: parse_bytes_def)
  qed
next
  case kExpectHeaders
  with parse_headers_append [of c q s] assms show ?thesis
    by (cases "parse_headers q c") (auto simp: parse_bytes_def)
qed (use assms in \<open>simp_all add: parse_bytes_def\<close>)

lemma processRequestLine_state:
  "HttpContext_processRequestLine line c = Inr (ok, c') \<Longrightarrow> ctx_state c' = ctx_state c"
  unfolding HttpContext_processRequestLine_def Let_def andThen_def
  by (simp only: with_request_simps sum.inject prod.inject sum.simps split: if_split_asm sum.split_asm prod.split_asm)
     (auto simp only: with_request_simps)

section \<open>Any buffer\<close>

text \<open>
  A read can leave a buffer that is not well formed. Even then a parser that is not finished
  returns, and its only fault is a failed assertion: every line it takes shortens the unread part.
\<close>

definition unread :: "Buffer \<Rightarrow> nat" where
  "unread b = nat (writeIndex b - readIndex b)"

lemma skip_line_shrinks:
  assumes "Buffer_findCLRF (Buffer_peek buf) buf = Inr (Some eol)"
    and "Buffer_retrieveUntill (eol + 2) buf = Inr (n, buf')"
  shows "unread buf' < unread buf"
proof -
  have "Buffer_peek buf \<le> eol" "eol + 2 \<le> writeIndex buf"
    using assms by (auto simp: Buffer_findCLRF_def Buffer_retrieveUntill_def assert_that_eq_Inr Let_def split: if_splits)
  then show ?thesis
    using assms(2) by (auto simp: Buffer_retrieveUntill_def assert_that_eq_Inr Buffer_retrieve_def unread_def
        Buffer_peek_def split: if_splits)
qed

definition parser_running :: "HttpContext \<Rightarrow> bool" where
  "parser_running c \<longleftrightarrow> ctx_state c = kExpectRequestLine \<or> ctx_state c = kExpectHeaders"

definition parse_ok :: "(bool \<times> HttpContext \<times> Buffer) res option \<Rightarrow> bool" where
  "parse_ok x = (case x of None \<Rightarrow> False | Some (Inl e) \<Rightarrow> e = AssertionFailed
     | Some (Inr (ok, c, b)) \<Rightarrow> parser_running c \<or> gotAll c)"

lemma findCLRF_fault: "Buffer_findCLRF p b = Inl e \<Longrightarrow> e = AssertionFailed"
  by (auto simp: Buffer_findCLRF_def assert_that_def Let_def split: if_splits)

lemma retrieveUntill_fault: "Buffer_retrieveUntill p b = Inl e \<Longrightarrow> e = AssertionFailed"
  by (auto simp: Buffer_retrieveUntill_def assert_that_def split: if_splits)

lemma parse_loop_headers_ok:
  "ctx_state c = kExpectHeaders \<Longrightarrow> parse_ok (parse_loop t ok c buf)"
proof (induction "unread buf" arbitrary: c buf rule: less_induct)
  case less
  show ?case
  proof (cases "Buffer_findCLRF (Buffer_peek buf) buf")
    case (Inl e)
    with less.prems findCLRF_fault [OF Inl] show ?thesis
      by (subst parse_loop.simps) (simp add: parse_ok_def)
  next
    case (Inr f)
    show ?thesis
    proof (cases f)
      case None
      with Inr less.prems show ?thesis
        by (subst parse_loop.simps) (simp add: parse_ok_def parser_running_def)
    next
      case (Some eol)
      let ?line = "Buffer_range buf (Buffer_peek buf) eol"
      show ?thesis
      proof (cases "Buffer_retrieveUntill (eol + 2) buf")
        case (Inl e)
        with Inr Some less.prems retrieveUntill_fault [OF Inl] show ?thesis
          by (subst parse_loop.simps) (simp add: parse_ok_def Let_def)
      next
        case (Inr nb)
        obtain n buf' where nb: "nb = (n, buf')" by (cases nb)
        have "unread buf' < unread buf"
          using skip_line_shrinks \<open>Buffer_findCLRF (Buffer_peek buf) buf = Inr f\<close> Some Inr nb by blast
        then have "parse_ok (parse_loop t ok
            (with_request c (addHeader ?line (std_find CHR '':'' ?line) (ctx_request c))) buf')"
          using less.prems by (intro less.hyps) simp_all
        with \<open>Buffer_findCLRF (Buffer_peek buf) buf = Inr f\<close> Some Inr nb less.prems show ?thesis
          by (subst parse_loop.simps) (simp add: parse_ok_def Let_def gotAll_def)
      qed
    qed
  qed
qed

lemma setMethod_fault: "setMethod m r = Inl e \<Longrightarrow> e = AssertionFailed"
  by (auto simp: setMethod_def assert_that_def Let_def split: if_splits)

lemma processRequestLine_fault: "HttpContext_processRequestLine line c = Inl e \<Longrightarrow> e = AssertionFailed"
  using setMethod_fault
  by (auto simp: HttpContext_processRequestLine_def Let_def andThen_def split: if_splits sum.splits)

lemma parseRequest_ok:
  assumes "parser_running c"
  shows "parse_ok (HttpContext_parseRequest c buf t)"
proof (cases "ctx_state c = kExpectHeaders")
  case True
  then show ?thesis by (simp add: HttpContext_parseRequest_def parse_loop_headers_ok)
next
  case False
  with assms have st: "ctx_state c = kExpectRequestLine" by (simp add: parser_running_def)
  show ?thesis
  proof (cases "Buffer_findCLRF (Buffer_peek buf) buf")
    case (Inl e)
    with st findCLRF_fault [OF Inl] show ?thesis
      unfolding HttpContext_parseRequest_def by (subst parse_loop.simps) (simp add: parse_ok_def)
  next
    case (Inr f)
    note f = Inr
    show ?thesis
    proof (cases f)
      case None
      with f st show ?thesis
        unfolding HttpContext_parseRequest_def
        by (subst parse_loop.simps) (simp add: parse_ok_def parser_running_def)
    next
      case (Some eol)
      let ?line = "Buffer_range buf (Buffer_peek buf) eol"
      show ?thesis
      proof (cases "HttpContext_processRequestLine ?line c")
        case (Inl e)
        with f Some st processRequestLine_fault [OF Inl] show ?thesis
          unfolding HttpContext_parseRequest_def by (subst parse_loop.simps) (simp add: parse_ok_def)
      next
        case (Inr okc)
        obtain k c1 where okc: "okc = (k, c1)" by (cases okc)
        have "ctx_state c1 = kExpectRequestLine"
          using processRequestLine_state Inr okc st by metis
        then have "parser_running c1" by (simp add: parser_running_def)
        moreover have "parse_ok (case Buffer_retrieveUntill (eol + 2) buf of Inl e \<Rightarrow> Some (Inl e)
            | Inr (_, buf) \<Rightarrow> parse_loop t True
                (c1\<lparr>ctx_request := setReceiveTime t (ctx_request c1), ctx_state := kExpectHeaders\<rparr>) buf)"
          by (cases "Buffer_retrieveUntill (eol + 2) buf")
            (auto simp: parse_ok_def [of "Some (Inl x)" for x] dest: retrieveUntill_fault
              intro: parse_loop_headers_ok split: prod.splits)
        ultimately show ?thesis
          using f Some st Inr okc unfolding HttpContext_parseRequest_def
          by (subst parse_loop.simps) (cases k; simp add: parse_ok_def [of "Some (Inr x)" for x])
      qed
    qed
  qed
qed

text \<open>A rejected line is rejected for good, and its method makes the next call fail.\<close>

lemma reparse_aborts:
  assumes "Buffer_inv buf" "HttpContext_parseRequest c buf t = Some (Inr (False, c', buf'))"
    and "req_method (ctx_request c) = kInvalid" and "req_method (ctx_request c') \<noteq> kInvalid"
    and "Buffer_inv buf2" "contents buf2 = contents buf' @ s"
  shows "HttpContext_parseRequest c' buf2 t2 = Some (Inl AssertionFailed)"
proof -
  let ?q = "contents buf"
  have p: "parse_bytes t c ?q = Some (Inr (False, c', contents buf'))"
    unfolding parseRequest_refines [OF assms(1), symmetric] assms(2) by simp
  then have st: "ctx_state c = kExpectRequestLine"
    by (cases "ctx_state c") (simp_all add: parse_bytes_def)
  with p obtain line rest where l: "split_line ?q = Some (line, rest)"
    by (cases "split_line ?q") (auto simp: parse_bytes_def)
  with p st have r: "HttpContext_processRequestLine line c = Inr (False, c')" and q: "contents buf' = ?q"
    by (auto simp: parse_bytes_def andThen_eq_Inr split: if_splits)
  have st': "ctx_state c' = kExpectRequestLine"
    using processRequestLine_state [OF r] st by simp
  have "std_find SP line \<noteq> length line"
    using r assms(3,4) by (auto simp: HttpContext_processRequestLine_def)
  with assms(4) have "HttpContext_processRequestLine line c' = Inl AssertionFailed"
    by (simp add: HttpContext_processRequestLine_def Let_def setMethod_def)
  with st' split_line_append [OF l, of s]
  have "parse_bytes t2 c' (contents buf2) = Some (Inl AssertionFailed)"
    by (simp add: parse_bytes_def assms(6) q)
  then show ?thesis
    unfolding parseRequest_refines [OF assms(5), symmetric] by (simp add: abs_result_eq)
qed

section \<open>Properties\<close>

text \<open>
  C7. The parser on the buffer refines the parser on the plain list of unread bytes: for every
  well-formed buffer and every state of the context it returns, faults or diverges exactly as the
  plain parser does, and leaves the bytes in the buffer that the plain parser leaves over.
\<close>

theorem HttpContext_parseRequest_refines:
  assumes "Buffer_inv buf"
  shows "abs_result (HttpContext_parseRequest c buf t)
    = parse_bytes t c (contents buf)"
  using assms by (rule parseRequest_refines)

theorem HttpContext_parseRequest_refines_witness:
  "abs_result
     (HttpContext_parseRequest HttpContext_new (Buffer_append ''GET'' (Buffer_new 0)) (Timestamp 7))
   = Some (Inr (True, HttpContext_new, ''GET''))"
proof -
  have c: "contents (Buffer_append ''GET'' (Buffer_new 0)) = ''GET''"
    by (simp add: append_fitting(1) new_fits)
  have "split_line ''GET'' = None" by (simp add: split_line_None crlf_def)
  then show ?thesis
    using HttpContext_parseRequest_refines [OF append_inv [OF new_simps(1)],
        of HttpContext_new "''GET''" 0 "Timestamp 7"]
    by (simp add: c parse_bytes_def HttpContext_new_def)
qed

text \<open>
  C28. \<open>parseRequest\<close> returns exactly when the context expects the request line or headers; called
  with a finished request or in the state \<open>kExpectBody\<close>, whose branch is empty, it loops forever.
\<close>

theorem HttpContext_parseRequest_returns_iff:
  assumes "Buffer_inv buf"
  shows "(\<exists>r. HttpContext_parseRequest c buf t = Some r) \<longleftrightarrow>
    ctx_state c = kExpectRequestLine \<or> ctx_state c = kExpectHeaders"
proof -
  have "(\<exists>r. HttpContext_parseRequest c buf t = Some r) \<longleftrightarrow> parse_bytes t c (contents buf) \<noteq> None"
    unfolding parseRequest_refines [OF assms, symmetric] by (simp add: abs_result_eq)
  also have "\<dots> \<longleftrightarrow> ctx_state c = kExpectRequestLine \<or> ctx_state c = kExpectHeaders"
    by (cases "ctx_state c") (simp_all add: parse_bytes_def)
  finally show ?thesis .
qed

theorem HttpContext_parseRequest_returns_iff_witness:
  "(\<exists>r. HttpContext_parseRequest HttpContext_new (Buffer_new 0) (Timestamp 0) = Some r)
   \<and> HttpContext_parseRequest (HttpContext_new\<lparr>ctx_state := kExpectBody\<rparr>) (Buffer_new 0) (Timestamp 0) = None"
  using HttpContext_parseRequest_returns_iff [OF new_simps(1), of HttpContext_new 0 "Timestamp 0"]
    HttpContext_parseRequest_returns_iff [OF new_simps(1), of "HttpContext_new\<lparr>ctx_state := kExpectBody\<rparr>" 0 "Timestamp 0"]
  by (simp add: HttpContext_new_def)

text \<open>
  C27. The request lines accepted are exactly a known method, a space, a target without spaces, a
  space, and HTTP/1.0 or HTTP/1.1 up to the end of the line; and a request line is accepted only
  by a request whose method is not set yet.
\<close>

theorem HttpContext_requestLine_accepts_iff:
  "(\<exists>c'. HttpContext_processRequestLine line c = Inr (True, c')) \<longleftrightarrow>
     req_method (ctx_request c) = kInvalid
     \<and> (\<exists>m target v. m \<noteq> kInvalid \<and> SP \<notin> set target \<and> (v = kHttp10 \<or> v = kHttp11)
         \<and> line = methodString m @ SP # target @ SP # ''HTTP/1.'' @ [version_digit v])"
  (is "?l \<longleftrightarrow> ?r")
proof
  assume ?l
  then show ?r using processRequestLine_sound by blast
next
  assume ?r
  then show ?l using processRequestLine_complete by blast
qed

text \<open>
  C3. Round trip of a request: what a client writes is what the parser returns. From a context
  that was reset, whatever it had parsed before, a request line and header lines followed by an
  empty line give the method, path, query, version, receive time and headers of the request and
  nothing of an earlier one; a header given twice has its last value; and the bytes behind the
  empty line stay in the buffer.
\<close>

theorem HttpContext_parse_render_roundtrip:
  assumes "Buffer_inv buf" and "contents buf = render_request m target v hs @ rest"
    and "m \<noteq> kInvalid" and "SP \<notin> set target" and "CR \<notin> set target"
    and "v = kHttp10 \<or> v = kHttp11" and "list_all header_ok hs"
  shows "\<exists>r buf'.
    HttpContext_parseRequest (HttpContext_reset c) buf t
      = Some (Inr (True, \<lparr>ctx_state = kGotAll, ctx_request = r\<rparr>, buf'))
    \<and> Buffer_inv buf' \<and> contents buf' = rest
    \<and> req_method r = m \<and> req_version r = v \<and> req_receiveTime r = t
    \<and> req_path r @ req_query r = target \<and> CHR ''?'' \<notin> set (req_path r)
    \<and> (\<forall>k. map_find (req_headers r) k = map_of (rev hs) k)"
proof -
  let ?c = "HttpContext_reset c" and ?r = "rendered_request m target v hs t"
  have "abs_result (HttpContext_parseRequest ?c buf t)
      = Some (Inr (True, \<lparr>ctx_state = kGotAll, ctx_request = ?r\<rparr>, rest))"
    unfolding parseRequest_refines [OF assms(1)] assms(2)
    using assms(3-7) by (rule parse_bytes_render)
  then obtain buf' where
    p: "HttpContext_parseRequest ?c buf t = Some (Inr (True, \<lparr>ctx_state = kGotAll, ctx_request = ?r\<rparr>, buf'))"
      "contents buf' = rest"
    by (auto simp: abs_result_eq)
  have "Buffer_inv buf'" using parseRequest_inv [OF assms(1) p(1)] .
  moreover have "map_find (req_headers ?r) k = map_of (rev hs) k" for k
    by (simp add: rendered_request_def smap.fold_find smap.valid_empty)
  moreover have "CHR ''?'' \<notin> set (req_path ?r)"
    by (auto simp: rendered_request_def dest: set_takeWhileD)
  ultimately show ?thesis
    using p by (intro exI [of _ ?r] exI [of _ buf']) (simp add: rendered_request_def)
qed

theorem HttpContext_parse_render_roundtrip_witness:
  "\<exists>r buf'. HttpContext_parseRequest (HttpContext_reset HttpContext_new)
      (Buffer_append (render_request kGet ''/a?b=1'' kHttp11 [(''Host'', ''x y''), (''A'', [])] @ ''rest'')
        (Buffer_new 0)) (Timestamp 5)
      = Some (Inr (True, \<lparr>ctx_state = kGotAll, ctx_request = r\<rparr>, buf'))
    \<and> contents buf' = ''rest'' \<and> req_path r @ req_query r = ''/a?b=1''
    \<and> map_find (req_headers r) ''Host'' = Some ''x y''"
proof -
  let ?s = "render_request kGet ''/a?b=1'' kHttp11 [(''Host'', ''x y''), (''A'', [])] @ ''rest''"
  have "length ?s \<le> 1024"
    by (simp add: render_request_def render_header_def methodString_def crlf_def)
  then have "contents (Buffer_append ?s (Buffer_new 0)) = ?s"
    by (simp add: append_fitting(1) new_fits)
  moreover have "list_all header_ok [(''Host'', ''x y''), (''A'', [])]"
    by (simp add: header_ok_def isspace_def)
  ultimately show ?thesis
    using HttpContext_parse_render_roundtrip [of "Buffer_append ?s (Buffer_new 0)" kGet "''/a?b=1''" kHttp11
        "[(''Host'', ''x y''), (''A'', [])]" "''rest''" HttpContext_new "Timestamp 5"]
    by auto
qed

text \<open>
  C15. Parsing is independent of how the bytes arrive: when a call returns without an error and
  without a finished request, the next call on the left-over bytes and the bytes that came since
  returns what one call on all the bytes would have returned.
\<close>

theorem HttpContext_parse_in_pieces:
  assumes "Buffer_inv buf" "HttpContext_parseRequest c buf t = Some (Inr (True, c', buf'))"
    and "\<not> gotAll c'"
    and "Buffer_inv buf2" "contents buf2 = contents buf' @ s"
    and "Buffer_inv whole" "contents whole = contents buf @ s"
  shows "abs_result (HttpContext_parseRequest c' buf2 t)
    = abs_result (HttpContext_parseRequest c whole t)"
proof -
  have "parse_bytes t c (contents buf) = Some (Inr (True, c', contents buf'))"
    unfolding parseRequest_refines [OF assms(1), symmetric] assms(2) by simp
  from parse_bytes_append [OF this] assms(3) show ?thesis
    by (simp add: parseRequest_refines assms(4-7) gotAll_def)
qed

theorem HttpContext_parse_in_pieces_witness:
  "abs_result
     (HttpContext_parseRequest HttpContext_new (Buffer_append ''GET / HT'' (Buffer_new 7)) (Timestamp 1))
   = abs_result
     (HttpContext_parseRequest HttpContext_new (Buffer_append ''GET / HT'' (Buffer_new 0)) (Timestamp 1))"
proof -
  let ?b = "Buffer_append ''GE'' (Buffer_new 0)" and ?w = "Buffer_append ''GET / HT'' (Buffer_new 0)"
  let ?v = "Buffer_append ''GET / HT'' (Buffer_new 7)"
  have c: "contents ?b = ''GE''" "contents ?w = ''GET / HT''" "contents ?v = ''GET / HT''"
    by (simp_all add: append_fitting(1) new_fits)
  have "split_line ''GE'' = None" by (simp add: split_line_None crlf_def)
  then have "abs_result
      (HttpContext_parseRequest HttpContext_new ?b (Timestamp 1)) = Some (Inr (True, HttpContext_new, ''GE''))"
    by (simp add: parseRequest_refines c parse_bytes_def HttpContext_new_def)
  then obtain b' where "HttpContext_parseRequest HttpContext_new ?b (Timestamp 1) = Some (Inr (True, HttpContext_new, b'))"
      "contents b' = ''GE''"
    by (auto simp: abs_result_eq)
  from HttpContext_parse_in_pieces [OF _ this(1), of ?v "''T / HT''" ?w] this(2) c show ?thesis
    by (simp add: gotAll_def HttpContext_new_def)
qed

text \<open>
  A rejected request line is fatal for the next call: its method stays set and its bytes stay
  in the buffer, so once a call has rejected a request line with a known method, every further
  call on the same context, whatever arrives behind those bytes, fails the assertion in
  \<open>setMethod\<close> and aborts the server.
\<close>

theorem HttpContext_reparse_aborts:
  assumes "Buffer_inv buf" "HttpContext_parseRequest c buf t = Some (Inr (False, c', buf'))"
    and "req_method (ctx_request c) = kInvalid" and "req_method (ctx_request c') \<noteq> kInvalid"
    and "Buffer_inv buf2" "contents buf2 = contents buf' @ s"
  shows "HttpContext_parseRequest c' buf2 t2 = Some (Inl AssertionFailed)"
  using assms by (rule reparse_aborts)

theorem HttpContext_reparse_aborts_witness:
  "HttpContext_parseRequest (HttpContext_new\<lparr>ctx_request := HttpRequest_new\<lparr>req_method := kGet\<rparr>\<rparr>)
     (Buffer_append (''GET /'' @ crlf @ ''x'') (Buffer_new 0)) (Timestamp 2) = Some (Inl AssertionFailed)"
proof -
  let ?b = "Buffer_append (''GET /'' @ crlf) (Buffer_new 0)"
  let ?b2 = "Buffer_append (''GET /'' @ crlf @ ''x'') (Buffer_new 0)"
  let ?c = "HttpContext_new\<lparr>ctx_request := HttpRequest_new\<lparr>req_method := kGet\<rparr>\<rparr>"
  have c: "contents ?b = ''GET /'' @ crlf" "contents ?b2 = ''GET /'' @ crlf @ ''x''"
    by (simp_all add: append_fitting(1) new_fits)
  have "split_line (''GET /'' @ crlf) = Some (''GET /'', [])"
    by (simp add: split_line_def crlf_def)
  then have "abs_result (HttpContext_parseRequest HttpContext_new ?b (Timestamp 1))
      = Some (Inr (False, ?c, ''GET /'' @ crlf))"
    by (simp add: parseRequest_refines c parse_bytes_def HttpContext_new_def HttpRequest_new_def
        HttpContext_processRequestLine_def setMethod_def with_request_def)
  then obtain b' where p: "HttpContext_parseRequest HttpContext_new ?b (Timestamp 1) = Some (Inr (False, ?c, b'))"
      "contents b' = ''GET /'' @ crlf"
    unfolding abs_result_eq by blast
  show ?thesis
    by (rule HttpContext_reparse_aborts [OF _ p(1), of _ "''x''"])
      (simp_all add: HttpContext_new_def HttpRequest_new_def p(2) c)
qed

end
