(* ===== verification/Http_Response.thy ===== *)
theory Http_Response
  imports Std_Map Byte_Buffer
begin

text \<open>
  \<open>HTTP/HttpResponse.h\<close> and \<open>HTTP/HttpResponse.cpp\<close>: a response and its serialisation into a
  buffer. The headers are iterated in the order of the map.
\<close>

section \<open>The class\<close>

datatype HttpStatusCode =
  kUnknownStatus | k200Ok | k301MovedPermanently | k400BadRequest | k404NotFound

definition status_value :: "HttpStatusCode \<Rightarrow> int" where
  "status_value s = (case s of kUnknownStatus \<Rightarrow> 0 | k200Ok \<Rightarrow> 200 | k301MovedPermanently \<Rightarrow> 301
     | k400BadRequest \<Rightarrow> 400 | k404NotFound \<Rightarrow> 404)"

record HttpResponse =
  resp_headers :: "(string, string) std_map"
  resp_statusCode :: HttpStatusCode
  resp_statusMessage :: string
  resp_closeConnection :: bool
  resp_body :: string

definition HttpResponse_new :: "bool \<Rightarrow> HttpResponse" where
  "HttpResponse_new close =
     \<lparr>resp_headers = [], resp_statusCode = kUnknownStatus, resp_statusMessage = [],
      resp_closeConnection = close, resp_body = []\<rparr>"

definition setStatusCode :: "HttpStatusCode \<Rightarrow> HttpResponse \<Rightarrow> HttpResponse" where
  "setStatusCode code r = r\<lparr>resp_statusCode := code\<rparr>"

definition setStatusMessage :: "string \<Rightarrow> HttpResponse \<Rightarrow> HttpResponse" where
  "setStatusMessage message r = r\<lparr>resp_statusMessage := message\<rparr>"

definition setCloseConnection :: "bool \<Rightarrow> HttpResponse \<Rightarrow> HttpResponse" where
  "setCloseConnection on r = r\<lparr>resp_closeConnection := on\<rparr>"

definition HttpResponse_addHeader :: "string \<Rightarrow> string \<Rightarrow> HttpResponse \<Rightarrow> HttpResponse" where
  "HttpResponse_addHeader key v r = r\<lparr>resp_headers := map_put key v (resp_headers r)\<rparr>"

definition setContentType :: "string \<Rightarrow> HttpResponse \<Rightarrow> HttpResponse" where
  "setContentType contentType r = HttpResponse_addHeader ''Content-Type'' contentType r"

definition setBody :: "string \<Rightarrow> HttpResponse \<Rightarrow> HttpResponse" where
  "setBody body r = r\<lparr>resp_body := body\<rparr>"

definition HttpResponse_appendToBuffer :: "HttpResponse \<Rightarrow> Buffer \<Rightarrow> Buffer" where
  "HttpResponse_appendToBuffer r output =
     (let buf = snprintf 32 (''HTTP/1.1 '' @ show_int (status_value (resp_statusCode r)) @ '' '');
          output = Buffer_append_string buf output;
          output = Buffer_append_string (resp_statusMessage r) output;
          output = Buffer_append_string crlf output;
          output =
            (if resp_closeConnection r then
               Buffer_append_string (''Connection: close'' @ crlf) output
             else
               (let buf = snprintf 32 (''Content-Length: '' @ show_nat (length (resp_body r)) @ crlf);
                    output = Buffer_append_string buf output
                in Buffer_append_string (''Connection: Keep-Alive'' @ crlf) output));
          output =
            fold (\<lambda>(first, second) output.
                let output = Buffer_append_string first output;
                    output = Buffer_append_string '': '' output;
                    output = Buffer_append_string second output
                in Buffer_append_string crlf output)
              (resp_headers r) output;
          output = Buffer_append_string crlf output
      in Buffer_append_string (resp_body r) output)"

section \<open>The pieces of a response\<close>

definition response_pieces :: "HttpResponse \<Rightarrow> string list" where
  "response_pieces r =
     [snprintf 32 (''HTTP/1.1 '' @ show_int (status_value (resp_statusCode r)) @ '' ''),
      resp_statusMessage r, crlf]
     @ (if resp_closeConnection r then [''Connection: close'' @ crlf]
        else [snprintf 32 (''Content-Length: '' @ show_nat (length (resp_body r)) @ crlf),
              ''Connection: Keep-Alive'' @ crlf])
     @ concat (map (\<lambda>(k, v). [k, '': '', v, crlf]) (resp_headers r))
     @ [crlf]"

definition response_head :: "HttpResponse \<Rightarrow> string" where
  "response_head r = concat (response_pieces r)"

lemma fold_header_pieces:
  "fold (\<lambda>(first, second) output.
      let output = Buffer_append_string first output;
          output = Buffer_append_string '': '' output;
          output = Buffer_append_string second output
      in Buffer_append_string crlf output) hs b
   = fold Buffer_append (concat (map (\<lambda>(k, v). [k, '': '', v, crlf]) hs)) b"
  by (induction hs arbitrary: b) (auto simp: Buffer_append_string_def Let_def)

lemma appendToBuffer_pieces:
  "HttpResponse_appendToBuffer r output =
     Buffer_append (resp_body r) (fold Buffer_append (response_pieces r) output)"
  unfolding HttpResponse_appendToBuffer_def fold_header_pieces
  by (simp add: response_pieces_def Buffer_append_string_def Let_def)

lemma length_response_head: "sum_list (map length (response_pieces r)) = length (response_head r)"
  by (simp only: response_head_def length_concat)

lemma appendToBuffer_contents:
  "Buffer_inv output \<Longrightarrow> tight output \<Longrightarrow> fits (length (response_head r)) output \<Longrightarrow>
   contents (HttpResponse_appendToBuffer r output) = contents output @ response_head r @ resp_body r"
  unfolding appendToBuffer_pieces
  by (subst out.fold_last) (simp_all only: length_response_head response_head_def)

lemma appendToBuffer_inv [simp]:
  "Buffer_inv output \<Longrightarrow> Buffer_inv (HttpResponse_appendToBuffer r output)"
  by (simp add: appendToBuffer_pieces out.fold_valid)

text \<open>Neither of the two formatted lines is cut off by the 32-byte buffer.\<close>

lemma status_line_fits:
  "snprintf 32 (''HTTP/1.1 '' @ show_int (status_value s) @ '' '') =
     ''HTTP/1.1 '' @ show_int (status_value s) @ '' ''"
proof -
  have "length (show_nat (nat (status_value s))) \<le> 3"
    by (rule length_show_nat_le) (cases s; simp add: status_value_def)+
  moreover have "0 \<le> status_value s" by (cases s) (simp_all add: status_value_def)
  ultimately show ?thesis by (simp add: snprintf_def show_int_def)
qed

lemma length_line_fits:
  assumes "n < 10 ^ 13"
  shows "snprintf 32 (''Content-Length: '' @ show_nat n @ crlf) = ''Content-Length: '' @ show_nat n @ crlf"
proof -
  have "length (show_nat n) \<le> 13"
    using assms by (intro length_show_nat_le) simp_all
  then show ?thesis by (simp add: snprintf_def)
qed

section \<open>Reading a response\<close>

text \<open>What a client does: the status line, then header lines up to the empty line, then the body.\<close>

function read_headers :: "string \<Rightarrow> ((string \<times> string) list \<times> string) option" where
  "read_headers q =
     (case split_line q of
        None \<Rightarrow> None
      | Some (l, rest) \<Rightarrow>
          if l = [] then Some ([], rest)
          else map_option (apfst (Cons (take (std_find CHR '':'' l) l, drop (std_find CHR '':'' l + 2) l)))
                 (read_headers rest))"
  by pat_completeness auto
termination
  by (relation "measure length") (auto dest: split_line_shorter)

declare read_headers.simps [simp del]

definition read_response :: "string \<Rightarrow> (string \<times> (string \<times> string) list \<times> string) option" where
  "read_response q =
     (case split_line q of
        None \<Rightarrow> None
      | Some (l, rest) \<Rightarrow> map_option (Pair l) (read_headers rest))"

definition response_fields :: "HttpResponse \<Rightarrow> (string \<times> string) list" where
  "response_fields r =
     (if resp_closeConnection r then [(''Connection'', ''close'')]
      else [(''Content-Length'', show_nat (length (resp_body r))), (''Connection'', ''Keep-Alive'')])
     @ resp_headers r"

definition field_ok :: "string \<times> string \<Rightarrow> bool" where
  "field_ok kv \<longleftrightarrow> CHR '':'' \<notin> set (fst kv) \<and> CR \<notin> set (fst kv) \<and> CR \<notin> set (snd kv)"

definition status_text :: "HttpResponse \<Rightarrow> string" where
  "status_text r = ''HTTP/1.1 '' @ show_int (status_value (resp_statusCode r)) @ '' '' @ resp_statusMessage r"

lemma response_head_fields:
  assumes "length (resp_body r) < 10 ^ 13"
  shows "response_head r =
    status_text r @ crlf @ concat (map render_header (response_fields r)) @ crlf"
proof -
  have "concat (concat (map (\<lambda>(k, v). [k, '': '', v, crlf]) hs))
      = concat (map render_header hs)" for hs :: "(string \<times> string) list"
    by (induction hs) (auto simp: render_header_def)
  then show ?thesis
    using status_line_fits [of "resp_statusCode r"] length_line_fits [OF assms]
    by (auto simp: response_head_def response_pieces_def response_fields_def status_text_def
        render_header_def)
qed

lemma read_headers_fields:
  "list_all field_ok hs \<Longrightarrow>
   read_headers (concat (map render_header hs) @ crlf @ body) = Some (hs, body)"
proof (induction hs)
  case Nil
  have "split_line (crlf @ body) = Some ([], body)"
    using split_line_line [of "[]" body] by (simp add: crlf_def)
  then show ?case by (subst read_headers.simps) simp
next
  case (Cons kv hs)
  obtain k v where kv: "kv = (k, v)" by (cases kv)
  let ?l = "k @ '': '' @ v" and ?rest = "concat (map render_header hs) @ crlf @ body"
  from Cons.prems kv have ok: "CHR '':'' \<notin> set k" "CR \<notin> set ?l" by (auto simp: field_ok_def)
  have shape: "concat (map render_header (kv # hs)) @ crlf @ body = ?l @ CR # LF # ?rest"
    by (simp add: kv render_header_def crlf_def)
  have l: "split_line (?l @ CR # LF # ?rest) = Some (?l, ?rest)"
    using ok(2) by (rule split_line_line)
  have "read_headers (?l @ CR # LF # ?rest) = map_option (apfst (Cons (k, v))) (read_headers ?rest)"
    unfolding read_headers.simps [of "?l @ CR # LF # ?rest"] l using ok(1) by simp
  with Cons show ?case unfolding shape by (simp add: kv)
qed

lemma show_int_no_CR: "0 \<le> i \<Longrightarrow> CR \<notin> set (show_int i)"
  using show_nat_digits [of CR] by (auto simp: show_int_def)

lemma status_value_nonneg [simp]: "0 \<le> status_value s"
  by (cases s) (simp_all add: status_value_def)

lemma read_response_head:
  assumes "length (resp_body r) < 10 ^ 13" "CR \<notin> set (resp_statusMessage r)"
    "list_all field_ok (resp_headers r)"
  shows "read_response (response_head r @ body) = Some (status_text r, response_fields r, body)"
proof -
  have "CR \<notin> set (status_text r)"
    using assms(2) show_int_no_CR by (simp add: status_text_def)
  moreover have "list_all field_ok (response_fields r)"
    using assms(3) show_nat_digits [of CR] by (auto simp: response_fields_def field_ok_def)
  moreover have "response_head r @ body = status_text r @ CR # LF #
      concat (map render_header (response_fields r)) @ crlf @ body"
    by (simp add: response_head_fields [OF assms(1)] crlf_def)
  ultimately show ?thesis
    by (simp add: read_response_def read_headers_fields [simplified])
qed

lemma read_fresh_response:
  assumes "length (response_head r) \<le> 1024" and "length (resp_body r) < 10 ^ 13"
    and "CR \<notin> set (resp_statusMessage r)" and "list_all field_ok (resp_headers r)"
  shows "read_response (contents (HttpResponse_appendToBuffer r (Buffer_new k)))
    = Some (status_text r, response_fields r, resp_body r)"
proof -
  have "contents (HttpResponse_appendToBuffer r (Buffer_new k)) = response_head r @ resp_body r"
    using appendToBuffer_contents [of "Buffer_new k" r] assms(1) by (simp add: new_fits)
  with read_response_head [OF assms(2-4)] show ?thesis by simp
qed

section \<open>Properties\<close>

text \<open>
  C18. Round trip of a response: a client that reads what \<open>appendToBuffer\<close> puts into a fresh
  buffer gets the status line, the framing headers (\<open>Connection: close\<close>, or the length of the
  body and \<open>Keep-Alive\<close>) followed by the headers of the response in the order of the map, and
  exactly the body, of any length below \<open>10 ^ 13\<close>; provided the part before the body is at most
  the initial size of the buffer.
\<close>

theorem HttpResponse_roundtrip:
  assumes "length (response_head r) \<le> 1024" and "length (resp_body r) < 10 ^ 13"
    and "CR \<notin> set (resp_statusMessage r)" and "list_all field_ok (resp_headers r)"
  shows "read_response (contents (HttpResponse_appendToBuffer r (Buffer_new k)))
    = Some (status_text r, response_fields r, resp_body r)"
  by (rule read_fresh_response [OF assms])

theorem HttpResponse_roundtrip_witness:
  "read_response (contents (HttpResponse_appendToBuffer
     (setBody ''hi'' (setContentType ''text/plain'' (setStatusMessage ''OK'' (setStatusCode k200Ok (HttpResponse_new False)))))
     (Buffer_new 0)))
   = Some (''HTTP/1.1 200 OK'',
       [(''Content-Length'', ''2''), (''Connection'', ''Keep-Alive''), (''Content-Type'', ''text/plain'')], ''hi'')"
proof -
  let ?r = "setBody ''hi'' (setContentType ''text/plain'' (setStatusMessage ''OK'' (setStatusCode k200Ok (HttpResponse_new False))))"
  have d: "show_nat 2 = ''2''" "show_nat (Suc (Suc 0)) = ''2''" "show_nat 200 = ''200''"
    by code_simp+
  have r: "resp_body ?r = ''hi''" "resp_statusMessage ?r = ''OK''"
      "resp_headers ?r = [(''Content-Type'', ''text/plain'')]" "resp_statusCode ?r = k200Ok" "\<not> resp_closeConnection ?r"
    by (simp_all add: setBody_def setContentType_def setStatusMessage_def setStatusCode_def
        HttpResponse_new_def HttpResponse_addHeader_def)
  have h: "length (response_head ?r) \<le> 1024"
    using response_head_fields [of ?r]
    by (simp add: r response_fields_def status_text_def status_value_def show_int_def d render_header_def)
  show ?thesis
    using HttpResponse_roundtrip [OF h, of 0]
    by (simp add: r field_ok_def status_text_def response_fields_def status_value_def show_int_def d)
qed

text \<open>
  A long header corrupts the response. When the value of the last header makes the buffer
  grow, the line end behind it and the empty line are written behind the elements of the vector;
  a body that makes the buffer grow again overwrites these four bytes with zeros, so the client
  never sees the end of the headers.
\<close>

theorem HttpResponse_long_header_corrupted:
  assumes "resp_headers r = hs @ [(k, v)]"
    and "1028 < length (response_head r)" and "length (response_head r) \<le> 2048"
    and "length (response_head r) \<le> 1028 + length v"
    and "2048 < length (response_head r) + length (resp_body r)"
  shows "contents (HttpResponse_appendToBuffer r (Buffer_new 0)) =
    take (length (response_head r) - 4) (response_head r) @ replicate 4 NUL @ resp_body r"
proof -
  obtain pre where p: "response_pieces r = pre @ [v, crlf, crlf]"
    by (simp add: response_pieces_def assms(1))
  let ?n = "sum_list (map length pre)"
  have h: "response_head r = concat pre @ v @ crlf @ crlf"
    by (simp add: response_head_def p)
  have n: "length (concat pre) = ?n" by (simp add: length_concat)
  have len: "length (response_head r) = ?n + length v + 4" by (simp add: h n)
  have fit: "fits ?n (Buffer_new 0)" using assms(4) len by (intro new_fits) linarith
  let ?a = "fold Buffer_append pre (Buffer_new 0)"
  note a = fold_fitting [OF new_simps(1) fit] and ac = out.fold_content [OF new_simps(1) fit]
  have nf: "\<not> fits (length v) ?a"
    using a assms(2) len by (simp add: fits_def Buffer_writeableBytes_def)
  have ta: "tight ?a" using a by (simp add: tight_def)
  note b = tight_growth [OF _ ta _ nf]
  let ?b = "Buffer_append v ?a"
  have b: "Buffer_inv ?b" "contents ?b = concat pre @ v" "readIndex ?b = 0"
    "vec_size (buffer ?b) = ?n + length v" "writeIndex ?b = int (?n + length v)"
    "capacity (buffer ?b) = 2048"
    using b a ac assms(3) len by (simp_all add: nat_add_distrib)
  let ?c = "fold Buffer_append [crlf, crlf] ?b"
  have fit2: "fits (sum_list (map length [crlf, crlf])) ?b"
    using b assms(3) len by (simp add: fits_def Buffer_writeableBytes_def)
  note c = fold_fitting [OF b(1) fit2] and cc = out.fold_content [OF b(1) fit2]
  have nfc: "\<not> fits (length (resp_body r)) ?c" "\<not> compacts (length (resp_body r)) ?c"
    using c b assms(5) len by (simp_all add: fits_def compacts_def Buffer_writeableBytes_def)
  have "HttpResponse_appendToBuffer r (Buffer_new 0) = Buffer_append (resp_body r) ?c"
    by (simp add: appendToBuffer_pieces p)
  moreover have "contents (Buffer_append (resp_body r) ?c) = (concat pre @ v @ replicate 4 NUL) @ resp_body r"
    using c cc b nfc by (simp add: append_contents grown_contents_def survivors_def n)
  moreover have "take (length (response_head r) - 4) (response_head r) = concat pre @ v"
    by (simp add: len h n)
  ultimately show ?thesis by simp
qed

theorem HttpResponse_long_header_corrupted_witness:
  "take 4 (drop 1535 (contents (HttpResponse_appendToBuffer
     (HttpResponse_addHeader ''A'' (replicate 1500 CHR ''x'') (setBody (replicate 600 CHR ''y'') (HttpResponse_new True)))
     (Buffer_new 0)))) = replicate 4 NUL"
proof -
  let ?r = "HttpResponse_addHeader ''A'' (replicate 1500 CHR ''x'') (setBody (replicate 600 CHR ''y'') (HttpResponse_new True))"
  have r: "resp_headers ?r = [] @ [(''A'', replicate 1500 CHR ''x'')]" "resp_body ?r = replicate 600 CHR ''y''"
      "resp_statusCode ?r = kUnknownStatus" "resp_statusMessage ?r = []" "resp_closeConnection ?r"
    by (simp_all add: HttpResponse_addHeader_def setBody_def HttpResponse_new_def)
  have d: "show_nat 0 = ''0''" by code_simp
  have n: "length (response_head ?r) = 1539"
    using response_head_fields [of ?r]
    by (simp add: r response_fields_def status_text_def status_value_def show_int_def d render_header_def)
  have "contents (HttpResponse_appendToBuffer ?r (Buffer_new 0)) =
      take (length (response_head ?r) - 4) (response_head ?r) @ replicate 4 NUL @ resp_body ?r"
    by (rule HttpResponse_long_header_corrupted [OF r(1)]) (simp_all add: n r)
  then show ?thesis by (simp add: n)
qed

end
