(* ===== verification/Timer_Queue.thy ===== *)
theory Timer_Queue
  imports Std_Map Timestamps
begin

text \<open>
  \<open>net/Timer.h\<close>, \<open>net/Timer.cpp\<close>, \<open>net/TimerQueue.h\<close>, \<open>net/TimerQueue.cpp\<close> and the three
  functions of \<open>net/EventLoop.cpp\<close> that create timers. Timers are objects on the heap, so the
  model keeps the heap: a pointer is a number, and using a pointer to a deleted timer is a fault.
  The clock is a function of the number of times it has been read. What a callback does to the
  timers of its loop, the calls of \<open>addTimerRunAt\<close>, \<open>addTimerRunAfter\<close> and
  \<open>addTimerRunEvery\<close> it makes, is an argument of the model.
\<close>

section \<open>Timers\<close>

record 'c Timer =
  callBack :: 'c
  expiration :: Timestamp
  repeat :: bool
  interval :: int

definition Timer_new :: "'c \<Rightarrow> Timestamp \<Rightarrow> bool \<Rightarrow> int \<Rightarrow> 'c Timer" where
  "Timer_new cb e r i = \<lparr>callBack = cb, expiration = e, repeat = r, interval = i\<rparr>"

definition Timer_isRepeated :: "'c Timer \<Rightarrow> bool" where
  "Timer_isRepeated t = repeat t"

definition Timer_getExpiration :: "'c Timer \<Rightarrow> Timestamp" where
  "Timer_getExpiration t = expiration t"

section \<open>The queue\<close>

text \<open>
  \<open>timers\<close> is the multimap, \<open>queued\<close> holds the timers whose \<open>addTimer\<close> waits in the functors
  of the loop, \<open>ran\<close> records the callbacks that have been run.
\<close>

record 'c TimerQueue =
  heap :: "nat \<Rightarrow> 'c Timer option"
  next_ptr :: nat
  timers :: "(Timestamp \<times> nat) list"
  expiredTimers :: "(Timestamp \<times> nat) list"
  queued :: "nat list"
  clock_reads :: nat
  ran :: "'c list"

definition TimerQueue_new :: "'c TimerQueue" where
  "TimerQueue_new = \<lparr>heap = Map.empty, next_ptr = 0, timers = [], expiredTimers = [], queued = [],
     clock_reads = 0, ran = []\<rparr>"

text \<open>One call of \<open>gettimeofday\<close>, and a pointer being followed.\<close>

definition read_clock :: "(nat \<Rightarrow> timeval) \<Rightarrow> 'c TimerQueue \<Rightarrow> timeval \<times> 'c TimerQueue" where
  "read_clock clock q = (clock (clock_reads q), q\<lparr>clock_reads := clock_reads q + 1\<rparr>)"

definition deref :: "nat \<Rightarrow> 'c TimerQueue \<Rightarrow> 'c Timer res" where
  "deref p q = (case heap q p of None \<Rightarrow> Inl NullPointer | Some t \<Rightarrow> Inr t)"

definition TimerQueue_addTimer ::
  "(nat \<Rightarrow> timeval) \<Rightarrow> nat \<Rightarrow> 'c TimerQueue \<Rightarrow> (bool \<times> 'c TimerQueue) res" where
  "TimerQueue_addTimer clock timer q =
     andThen (deref timer q) (\<lambda>t.
       let expirationTime = Timer_getExpiration t;
           (tv, q) = read_clock clock q
       in if expirationTime < Timestamp_now tv then Inr (False, q)
          else Inr (True, q\<lparr>timers := multimap_insert expirationTime timer (timers q)\<rparr>))"

definition TimerQueue_addTimerInLoop ::
  "(nat \<Rightarrow> timeval) \<Rightarrow> bool \<Rightarrow> nat \<Rightarrow> 'c TimerQueue \<Rightarrow> 'c TimerQueue res" where
  "TimerQueue_addTimerInLoop clock isInLoopThread timer q =
     (if isInLoopThread then andThen (TimerQueue_addTimer clock timer q) (\<lambda>(_, q). Inr q)
      else Inr (q\<lparr>queued := queued q @ [timer]\<rparr>))"

definition new_timer :: "'c Timer \<Rightarrow> 'c TimerQueue \<Rightarrow> nat \<times> 'c TimerQueue" where
  "new_timer t q = (next_ptr q, q\<lparr>heap := (heap q)(next_ptr q \<mapsto> t), next_ptr := next_ptr q + 1\<rparr>)"

definition delete_timer :: "nat \<Rightarrow> 'c TimerQueue \<Rightarrow> 'c TimerQueue" where
  "delete_timer p q = q\<lparr>heap := (heap q)(p := None)\<rparr>"

definition EventLoop_addTimerRunAt ::
  "(nat \<Rightarrow> timeval) \<Rightarrow> bool \<Rightarrow> Timestamp \<Rightarrow> 'c \<Rightarrow> 'c TimerQueue \<Rightarrow> 'c TimerQueue res" where
  "EventLoop_addTimerRunAt clock il time func q =
     (let (p, q) = new_timer (Timer_new func time False 0) q
      in TimerQueue_addTimerInLoop clock il p q)"

definition EventLoop_addTimerRunAfter ::
  "(nat \<Rightarrow> timeval) \<Rightarrow> bool \<Rightarrow> rat \<Rightarrow> 'c \<Rightarrow> 'c TimerQueue \<Rightarrow> 'c TimerQueue res" where
  "EventLoop_addTimerRunAfter clock il delay func q =
     (let (tv, q) = read_clock clock q;
          (p, q) = new_timer (Timer_new func (Timestamp_nowAfter tv delay) False 0) q
      in TimerQueue_addTimerInLoop clock il p q)"

definition EventLoop_addTimerRunEvery ::
  "(nat \<Rightarrow> timeval) \<Rightarrow> bool \<Rightarrow> rat \<Rightarrow> 'c \<Rightarrow> 'c TimerQueue \<Rightarrow> 'c TimerQueue res" where
  "EventLoop_addTimerRunEvery clock il period func q =
     (let (tv, q) = read_clock clock q;
          (p, q) = new_timer (Timer_new func (Timestamp_nowAfter tv period) True (truncate_double period)) q
      in TimerQueue_addTimerInLoop clock il p q)"

text \<open>The calls a callback, or another part of the program, can make.\<close>

datatype 'c timer_call =
    AddTimerRunAt Timestamp 'c
  | AddTimerRunAfter rat 'c
  | AddTimerRunEvery rat 'c

fun perform_call :: "(nat \<Rightarrow> timeval) \<Rightarrow> bool \<Rightarrow> 'c timer_call \<Rightarrow> 'c TimerQueue \<Rightarrow> 'c TimerQueue res" where
  "perform_call clock il (AddTimerRunAt time func) q = EventLoop_addTimerRunAt clock il time func q"
| "perform_call clock il (AddTimerRunAfter delay func) q = EventLoop_addTimerRunAfter clock il delay func q"
| "perform_call clock il (AddTimerRunEvery period func) q = EventLoop_addTimerRunEvery clock il period func q"

fun perform_calls :: "(nat \<Rightarrow> timeval) \<Rightarrow> 'c timer_call list \<Rightarrow> 'c TimerQueue \<Rightarrow> 'c TimerQueue res" where
  "perform_calls clock [] q = Inr q"
| "perform_calls clock (c # cs) q = andThen (perform_call clock True c q) (perform_calls clock cs)"

section \<open>Expiry\<close>

definition Timer_reset ::
  "(nat \<Rightarrow> timeval) \<Rightarrow> nat \<Rightarrow> 'c TimerQueue \<Rightarrow> 'c TimerQueue res" where
  "Timer_reset clock p q =
     andThen (deref p q) (\<lambda>t.
       if repeat t then
         let (tv, q) = read_clock clock q
         in Inr (q\<lparr>heap := (heap q)(p \<mapsto> t\<lparr>expiration := Timestamp_nowAfter tv (of_int (interval t))\<rparr>)\<rparr>)
       else Inr q)"

definition Timer_run ::
  "(nat \<Rightarrow> timeval) \<Rightarrow> ('c \<Rightarrow> 'c TimerQueue \<Rightarrow> 'c timer_call list) \<Rightarrow> nat \<Rightarrow> 'c TimerQueue \<Rightarrow> 'c TimerQueue res"
  where
  "Timer_run clock body p q =
     andThen (deref p q) (\<lambda>t.
       let q = q\<lparr>ran := ran q @ [callBack t]\<rparr>
       in perform_calls clock (body (callBack t) q) q)"

definition TimerQueue_getExpiredTimers ::
  "(nat \<Rightarrow> timeval) \<Rightarrow> 'c TimerQueue \<Rightarrow> 'c TimerQueue res" where
  "TimerQueue_getExpiredTimers clock q =
     (let q = q\<lparr>expiredTimers := []\<rparr>
      in if timers q \<noteq> [] then
           let (tv, q) = read_clock clock q;
               now = Timestamp_now tv;
               it = from_bound now (timers q)
           in assert_that (it = [] \<or> now < fst (hd it) \<or> now = fst (hd it))
                (Inr (q\<lparr>expiredTimers := before_bound now (timers q), timers := it\<rparr>))
         else Inr q)"

fun reset_loop ::
  "(nat \<Rightarrow> timeval) \<Rightarrow> ('c \<Rightarrow> 'c TimerQueue \<Rightarrow> 'c timer_call list) \<Rightarrow> (Timestamp \<times> nat) list
     \<Rightarrow> 'c TimerQueue \<Rightarrow> 'c TimerQueue res" where
  "reset_loop clock body [] q = Inr q"
| "reset_loop clock body (it # its) q =
     andThen (Timer_run clock body (snd it) q) (\<lambda>q.
     andThen (deref (snd it) q) (\<lambda>t.
     andThen (if Timer_isRepeated t then
                andThen (Timer_reset clock (snd it) q) (\<lambda>q.
                andThen (TimerQueue_addTimer clock (snd it) q) (\<lambda>(_, q). Inr q))
              else Inr (delete_timer (snd it) q))
       (reset_loop clock body its)))"

definition TimerQueue_resetTimers ::
  "(nat \<Rightarrow> timeval) \<Rightarrow> ('c \<Rightarrow> 'c TimerQueue \<Rightarrow> 'c timer_call list) \<Rightarrow> 'c TimerQueue \<Rightarrow> 'c TimerQueue res" where
  "TimerQueue_resetTimers clock body q = reset_loop clock body (expiredTimers q) q"

definition TimerQueue_handleRead ::
  "(nat \<Rightarrow> timeval) \<Rightarrow> ('c \<Rightarrow> 'c TimerQueue \<Rightarrow> 'c timer_call list) \<Rightarrow> 'c TimerQueue \<Rightarrow> 'c TimerQueue res" where
  "TimerQueue_handleRead clock body q =
     andThen (TimerQueue_getExpiredTimers clock q) (TimerQueue_resetTimers clock body)"

definition TimerQueue_destroy :: "'c TimerQueue \<Rightarrow> 'c TimerQueue" where
  "TimerQueue_destroy q = fold (\<lambda>e. delete_timer (snd e)) (timers q) q"

text \<open>
  What happens to a queue: a call from the loop thread or from another thread, the loop running
  the functors that wait, the timer descriptor becoming readable.
\<close>

datatype 'c timer_op = TimerCall bool "'c timer_call" | TimerFunctors | TimerRead

fun add_queued :: "(nat \<Rightarrow> timeval) \<Rightarrow> nat list \<Rightarrow> 'c TimerQueue \<Rightarrow> 'c TimerQueue res" where
  "add_queued clock [] q = Inr q"
| "add_queued clock (p # ps) q =
     andThen (TimerQueue_addTimer clock p q) (\<lambda>(_, q). add_queued clock ps q)"

fun timer_step ::
  "(nat \<Rightarrow> timeval) \<Rightarrow> ('c \<Rightarrow> 'c TimerQueue \<Rightarrow> 'c timer_call list) \<Rightarrow> 'c timer_op \<Rightarrow> 'c TimerQueue \<Rightarrow> 'c TimerQueue res"
  where
  "timer_step clock body (TimerCall il c) q = perform_call clock il c q"
| "timer_step clock body TimerFunctors q = add_queued clock (queued q) (q\<lparr>queued := []\<rparr>)"
| "timer_step clock body TimerRead q = TimerQueue_handleRead clock body q"

fun timer_run ::
  "(nat \<Rightarrow> timeval) \<Rightarrow> ('c \<Rightarrow> 'c TimerQueue \<Rightarrow> 'c timer_call list) \<Rightarrow> 'c timer_op list \<Rightarrow> 'c TimerQueue \<Rightarrow> 'c TimerQueue res"
  where
  "timer_run clock body [] q = Inr q"
| "timer_run clock body (op # ops) q = andThen (timer_step clock body op q) (timer_run clock body ops)"

section \<open>Well-formed queues\<close>

text \<open>
  The multimap is sorted; the pointers in it, those waiting in the functors of the loop and those
  of the expired timers still to be handled (\<open>ps\<close>) are distinct and point to timers; an entry
  carries the expiration of its timer.
\<close>

definition TQ_wf :: "nat list \<Rightarrow> 'c TimerQueue \<Rightarrow> bool" where
  "TQ_wf ps q \<longleftrightarrow> multimap_sorted (timers q)
     \<and> distinct (map snd (timers q) @ queued q @ ps)
     \<and> (\<forall>e\<in>set (timers q). \<exists>t. heap q (snd e) = Some t \<and> expiration t = fst e)
     \<and> (\<forall>p\<in>set (queued q) \<union> set ps. heap q p \<noteq> None)
     \<and> (\<forall>p. heap q p \<noteq> None \<longrightarrow> p < next_ptr q)"

definition TQ_inv :: "'c TimerQueue \<Rightarrow> bool" where
  "TQ_inv q = TQ_wf [] q"

text \<open>What calls from the loop thread leave alone.\<close>

definition TQ_extends :: "'c TimerQueue \<Rightarrow> 'c TimerQueue \<Rightarrow> bool" where
  "TQ_extends q q' \<longleftrightarrow> ran q' = ran q \<and> next_ptr q \<le> next_ptr q'
     \<and> (\<forall>p<next_ptr q. heap q' p = heap q p) \<and> set (timers q) \<subseteq> set (timers q')"

lemma TQ_extends_refl [simp]: "TQ_extends q q"
  by (simp add: TQ_extends_def)

lemma TQ_extends_trans: "TQ_extends q q' \<Longrightarrow> TQ_extends q' q'' \<Longrightarrow> TQ_extends q q''"
  by (fastforce simp: TQ_extends_def)

lemma TQ_wf_heap: "TQ_wf ps q \<Longrightarrow> p \<in> set ps \<Longrightarrow> \<exists>t. heap q p = Some t \<and> p < next_ptr q"
  by (auto simp: TQ_wf_def)

lemma TQ_wf_perm: "TQ_wf ps q \<Longrightarrow> queued q = queued q' \<Longrightarrow> heap q = heap q' \<Longrightarrow> timers q = timers q'
    \<Longrightarrow> next_ptr q = next_ptr q' \<Longrightarrow> TQ_wf ps q'"
  by (simp add: TQ_wf_def)

lemma addTimer_eq:
  "heap q p = Some t \<Longrightarrow> TimerQueue_addTimer clock p q =
     (let q' = q\<lparr>clock_reads := Suc (clock_reads q)\<rparr>
      in if expiration t < Timestamp_now (clock (clock_reads q)) then Inr (False, q')
         else Inr (True, q'\<lparr>timers := multimap_insert (expiration t) p (timers q)\<rparr>))"
  by (simp add: TimerQueue_addTimer_def deref_def read_clock_def Timer_getExpiration_def Let_def)

lemma wf_addTimer:
  assumes "TQ_wf (p # ps) q"
  obtains b q' where "TimerQueue_addTimer clock p q = Inr (b, q')" "TQ_wf ps q'" "TQ_extends q q'"
    "heap q' = heap q" "next_ptr q' = next_ptr q" "queued q' = queued q"
proof -
  from assms obtain t where t: "heap q p = Some t"
    by (metis TQ_wf_heap list.set_intros(1))
  let ?q = "q\<lparr>clock_reads := Suc (clock_reads q)\<rparr>"
  let ?r = "?q\<lparr>timers := multimap_insert (expiration t) p (timers q)\<rparr>"
  have n: "TQ_wf ps ?q" using assms by (auto simp: TQ_wf_def)
  have "TQ_wf ps ?r"
    using assms t
    by (auto simp: TQ_wf_def mmap.valid_ins mmap.distinct_ins simp del: map_map)
  then show thesis
    using that [of False ?q] that [of True ?r] n
    by (cases "expiration t < Timestamp_now (clock (clock_reads q))")
      (simp_all add: addTimer_eq [OF t] TQ_extends_def Let_def subset_insertI)
qed

lemma wf_new_timer:
  assumes "TQ_wf ps q" and "new_timer t q = (p, q')"
  shows "TQ_wf (p # ps) q'" "TQ_extends q q'" "queued q' = queued q" "p = next_ptr q" "heap q' p = Some t"
proof -
  have p: "p = next_ptr q" and q': "q' = q\<lparr>heap := (heap q)(p \<mapsto> t), next_ptr := Suc p\<rparr>"
    using assms(2) by (auto simp: new_timer_def)
  have l: "x < next_ptr q" if "heap q x \<noteq> None" for x
    using assms(1) that by (simp add: TQ_wf_def)
  have "\<forall>x \<in> snd ` set (timers q) \<union> set (queued q) \<union> set ps. heap q x \<noteq> None"
    using assms(1) unfolding TQ_wf_def by (metis (no_types, lifting) Un_iff imageE option.distinct(1))
  then have "\<forall>x \<in> snd ` set (timers q) \<union> set (queued q) \<union> set ps. x < p"
    using l p by blast
  moreover from this have "\<forall>e\<in>set (timers q). snd e \<noteq> p" by fastforce
  ultimately show "TQ_wf (p # ps) q'"
    using assms(1) l p unfolding TQ_wf_def q' by (auto simp: less_Suc_eq)
  show "TQ_extends q q'" "queued q' = queued q" "p = next_ptr q" "heap q' p = Some t"
    using p by (simp_all add: TQ_extends_def q')
qed

lemma wf_addTimerInLoop:
  assumes "TQ_wf (p # ps) q"
  obtains q' where "TimerQueue_addTimerInLoop clock il p q = Inr q'" "TQ_wf ps q'" "TQ_extends q q'"
proof (cases il)
  case True
  obtain b q' where "TimerQueue_addTimer clock p q = Inr (b, q')" "TQ_wf ps q'" "TQ_extends q q'"
    using wf_addTimer [OF assms] by metis
  with True that show thesis by (simp add: TimerQueue_addTimerInLoop_def)
next
  case False
  from assms have "TQ_wf ps (q\<lparr>queued := queued q @ [p]\<rparr>)" by (auto simp: TQ_wf_def)
  with False that show thesis
    by (simp add: TimerQueue_addTimerInLoop_def TQ_extends_def)
qed

lemma wf_create:
  assumes "TQ_wf ps q"
  obtains q' where "(let (p, q) = new_timer t q in TimerQueue_addTimerInLoop clock il p q) = Inr q'"
    "TQ_wf ps q'" "TQ_extends q q'"
proof -
  obtain p q1 where n: "new_timer t q = (p, q1)" by fastforce
  note w = wf_new_timer [OF assms n]
  obtain q' where "TimerQueue_addTimerInLoop clock il p q1 = Inr q'" "TQ_wf ps q'" "TQ_extends q1 q'"
    using wf_addTimerInLoop [OF w(1)] by metis
  with that n w(2) show thesis by (auto intro: TQ_extends_trans)
qed

lemma wf_read_clock:
  assumes "TQ_wf ps q"
  shows "TQ_wf ps (q\<lparr>clock_reads := n\<rparr>)" "TQ_extends q (q\<lparr>clock_reads := n\<rparr>)"
  using assms by (auto simp: TQ_wf_def TQ_extends_def)

lemma wf_call:
  assumes "TQ_wf ps q"
  obtains q' where "perform_call clock il c q = Inr q'" "TQ_wf ps q'" "TQ_extends q q'"
proof (cases c)
  case (AddTimerRunAt time func)
  with wf_create [OF assms] that show thesis
    by (metis perform_call.simps(1) EventLoop_addTimerRunAt_def)
next
  case (AddTimerRunAfter delay func)
  note r = wf_read_clock [OF assms, of "clock_reads q + 1"]
  from AddTimerRunAfter wf_create [OF r(1)] that TQ_extends_trans [OF r(2)] show thesis
    by (simp add: EventLoop_addTimerRunAfter_def read_clock_def) metis
next
  case (AddTimerRunEvery period func)
  note r = wf_read_clock [OF assms, of "clock_reads q + 1"]
  from AddTimerRunEvery wf_create [OF r(1)] that TQ_extends_trans [OF r(2)] show thesis
    by (simp add: EventLoop_addTimerRunEvery_def read_clock_def) metis
qed

lemma wf_calls:
  assumes "TQ_wf ps q"
  obtains q' where "perform_calls clock cs q = Inr q'" "TQ_wf ps q'" "TQ_extends q q'"
proof -
  from assms have "\<exists>q'. perform_calls clock cs q = Inr q' \<and> TQ_wf ps q' \<and> TQ_extends q q'"
  proof (induction cs arbitrary: q)
    case Nil
    then show ?case by simp
  next
    case (Cons c cs)
    obtain q1 where q1: "perform_call clock True c q = Inr q1" "TQ_wf ps q1" "TQ_extends q q1"
      using wf_call [OF Cons.prems] by metis
    from Cons.IH [OF q1(2)] TQ_extends_trans [OF q1(3)] show ?case by (auto simp: q1(1))
  qed
  then show thesis using that by blast
qed

section \<open>Handling the expired timers\<close>

text \<open>The clock moves less than a second between two readings.\<close>

definition slow_clock :: "(nat \<Rightarrow> timeval) \<Rightarrow> bool" where
  "slow_clock clock \<longleftrightarrow> (\<forall>i. Timestamp_now (clock (Suc i)) \<le> Timestamp_nowAfter (clock i) 1)"

lemma truncate_of_int [simp]: "truncate_double (of_int i) = i"
  by (simp add: truncate_double_def)

lemma now_eq: "Timestamp_now tv = Timestamp (fst tv * 1000000 + snd tv)"
  by (simp only: Timestamp_now_def Timestamp_of_double_def nowMicroSeconds_def truncate_of_int
      kMicroSecondsPerSecond_def) simp

lemma nowAfter_int: "Timestamp_nowAfter tv (of_int i) = Timestamp (fst tv * 1000000 + snd tv + 1000000 * i)"
proof -
  have "nowMicroSeconds tv + of_int kMicroSecondsPerSecond * of_int i
      = of_int (fst tv * 1000000 + snd tv + 1000000 * i)"
    by (simp add: nowMicroSeconds_def kMicroSecondsPerSecond_def)
  then show ?thesis by (simp only: Timestamp_nowAfter_def Timestamp_of_double_def truncate_of_int)
qed

lemma slow_clock_later:
  assumes "slow_clock clock" and "1 \<le> i"
  shows "\<not> Timestamp_nowAfter (clock n) (of_int i) < Timestamp_now (clock (Suc n))"
proof -
  from assms(1) have "Timestamp_now (clock (Suc n)) \<le> Timestamp_nowAfter (clock n) (of_int 1)"
    by (simp add: slow_clock_def)
  with assms(2) show ?thesis unfolding nowAfter_int now_eq by simp
qed

text \<open>The clock moves between any two readings.\<close>

definition ticking_clock :: "(nat \<Rightarrow> timeval) \<Rightarrow> bool" where
  "ticking_clock clock \<longleftrightarrow> (\<forall>i. Timestamp_now (clock i) < Timestamp_now (clock (Suc i)))"

lemma ticking_clock_earlier:
  assumes "ticking_clock clock" and "i \<le> 0"
  shows "Timestamp_nowAfter (clock n) (of_int i) < Timestamp_now (clock (Suc n))"
proof -
  from assms(1) have "Timestamp_now (clock n) < Timestamp_now (clock (Suc n))"
    by (simp add: ticking_clock_def)
  with assms(2) show ?thesis unfolding nowAfter_int now_eq by simp
qed

text \<open>One round of the loop of \<open>resetTimers\<close>, and what it leaves of the timer.\<close>

definition reset_one ::
  "(nat \<Rightarrow> timeval) \<Rightarrow> ('c \<Rightarrow> 'c TimerQueue \<Rightarrow> 'c timer_call list) \<Rightarrow> nat \<Rightarrow> 'c TimerQueue \<Rightarrow> 'c TimerQueue res" where
  "reset_one clock body p q =
     andThen (Timer_run clock body p q) (\<lambda>q.
     andThen (deref p q) (\<lambda>t.
       if Timer_isRepeated t then
         andThen (Timer_reset clock p q) (\<lambda>q.
         andThen (TimerQueue_addTimer clock p q) (\<lambda>(_, q). Inr q))
       else Inr (delete_timer p q)))"

lemma reset_loop_Cons: "reset_loop clock body (it # its) q =
    andThen (reset_one clock body (snd it) q) (reset_loop clock body its)"
  by (auto simp: reset_one_def andThen_def split: sum.splits)

definition settled :: "(nat \<Rightarrow> timeval) \<Rightarrow> 'c Timer \<Rightarrow> nat \<Rightarrow> 'c TimerQueue \<Rightarrow> bool" where
  "settled clock t p q \<longleftrightarrow>
     (if repeat t then (\<exists>e. heap q p = Some (t\<lparr>expiration := e\<rparr>))
        \<and> (slow_clock clock \<and> 1 \<le> interval t \<longrightarrow> p \<in> snd ` set (timers q))
      else heap q p = None)"

lemma reset_repeated:
  assumes "TQ_wf (p # ps) q" and "heap q p = Some t" and "repeat t"
  obtains q' where "andThen (Timer_reset clock p q) (\<lambda>q.
      andThen (TimerQueue_addTimer clock p q) (\<lambda>(_, q). Inr q)) = Inr q'"
    "TQ_wf ps q'" "ran q' = ran q" "next_ptr q' = next_ptr q"
    "\<forall>x. x \<noteq> p \<longrightarrow> heap q' x = heap q x" "set (timers q) \<subseteq> set (timers q')" "settled clock t p q'"
    "ticking_clock clock \<and> interval t \<le> 0 \<longrightarrow> p \<notin> snd ` set (timers q') \<union> set (queued q')"
proof -
  let ?n = "clock_reads q"
  let ?t = "t\<lparr>expiration := Timestamp_nowAfter (clock ?n) (of_int (interval t))\<rparr>"
  let ?q = "q\<lparr>clock_reads := ?n + 1, heap := (heap q)(p \<mapsto> ?t)\<rparr>"
  have r: "Timer_reset clock p q = Inr ?q"
    using assms(2,3) by (simp add: Timer_reset_def deref_def read_clock_def)
  have w: "TQ_wf (p # ps) ?q"
    using assms(1) by (auto simp: TQ_wf_def)
  obtain b q' where q': "TimerQueue_addTimer clock p ?q = Inr (b, q')" "TQ_wf ps q'" "TQ_extends ?q q'"
    "heap q' = heap ?q" "next_ptr q' = next_ptr ?q"
    using wf_addTimer [OF w] by metis
  have "p \<in> snd ` set (timers q')" if "slow_clock clock" "1 \<le> interval t"
    using q'(1) slow_clock_later [OF that, of ?n] by (auto simp: addTimer_eq Let_def)
  then have "settled clock t p q'"
    using assms(3) by (auto simp: settled_def q'(4))
  moreover have "p \<notin> snd ` set (timers q') \<union> set (queued q')" if "ticking_clock clock" "interval t \<le> 0"
  proof -
    have "q' = ?q\<lparr>clock_reads := Suc (Suc ?n)\<rparr>"
      using q'(1) ticking_clock_earlier [OF that, of ?n] by (simp add: addTimer_eq Let_def)
    moreover have "p \<notin> snd ` set (timers q) \<union> set (queued q)"
      using assms(1) by (auto simp: TQ_wf_def)
    ultimately show ?thesis by simp
  qed
  ultimately show thesis
    using q' by (intro that [of q']) (auto simp: r TQ_extends_def)
qed

lemma wf_reset_one:
  assumes "TQ_wf (p # ps) q" and "heap q p = Some t"
  obtains q' where "reset_one clock body p q = Inr q'" "TQ_wf ps q'" "ran q' = ran q @ [callBack t]"
    "next_ptr q \<le> next_ptr q'" "\<forall>x<next_ptr q. x \<noteq> p \<longrightarrow> heap q' x = heap q x"
    "set (timers q) \<subseteq> set (timers q')" "settled clock t p q'"
    "repeat t \<and> ticking_clock clock \<and> interval t \<le> 0 \<longrightarrow> p \<notin> snd ` set (timers q') \<union> set (queued q')"
proof -
  let ?q = "q\<lparr>ran := ran q @ [callBack t]\<rparr>"
  have "TQ_wf (p # ps) ?q" using assms(1) by (simp add: TQ_wf_def)
  then obtain q1 where q1: "perform_calls clock (body (callBack t) ?q) ?q = Inr q1" "TQ_wf (p # ps) q1"
    "TQ_extends ?q q1"
    using wf_calls by metis
  have p: "p < next_ptr q" using assms by (auto simp: TQ_wf_def)
  with q1(3) assms(2) have t: "heap q1 p = Some t" by (simp add: TQ_extends_def)
  have run: "reset_one clock body p q =
      (if repeat t then andThen (Timer_reset clock p q1) (\<lambda>q.
         andThen (TimerQueue_addTimer clock p q) (\<lambda>(_, q). Inr q)) else Inr (delete_timer p q1))"
    using assms(2) q1(1) t by (simp add: reset_one_def Timer_run_def deref_def Timer_isRepeated_def)
  note e = q1(3) [unfolded TQ_extends_def]
  show thesis
  proof (cases "repeat t")
    case True
    obtain q' where "andThen (Timer_reset clock p q1) (\<lambda>q.
        andThen (TimerQueue_addTimer clock p q) (\<lambda>(_, q). Inr q)) = Inr q'"
      "TQ_wf ps q'" "ran q' = ran q1" "next_ptr q' = next_ptr q1"
      "\<forall>x. x \<noteq> p \<longrightarrow> heap q' x = heap q1 x" "set (timers q1) \<subseteq> set (timers q')" "settled clock t p q'"
      "ticking_clock clock \<and> interval t \<le> 0 \<longrightarrow> p \<notin> snd ` set (timers q') \<union> set (queued q')"
      by (rule reset_repeated [where clock = clock, OF q1(2) t True])
    with True e run show thesis by (intro that [of q']) auto
  next
    case False
    have "TQ_wf ps (delete_timer p q1)"
      using q1(2) by (auto simp: TQ_wf_def delete_timer_def)
    with False e run show thesis
      by (intro that [of "delete_timer p q1"]) (auto simp: delete_timer_def settled_def)
  qed
qed

lemma settled_mono:
  assumes "settled clock t p q" "p < next_ptr q" "heap q' p = heap q p" "set (timers q) \<subseteq> set (timers q')"
  shows "settled clock t p q'"
  using assms by (auto simp: settled_def split: if_splits)

lemma wf_reset_loop:
  assumes "TQ_wf (map snd es) q"
  obtains q' where "reset_loop clock body es q = Inr q'" "TQ_inv q'"
    "ran q' = ran q @ map (\<lambda>e. callBack (the (heap q (snd e)))) es" "next_ptr q \<le> next_ptr q'"
    "\<forall>x<next_ptr q. x \<notin> snd ` set es \<longrightarrow> heap q' x = heap q x" "set (timers q) \<subseteq> set (timers q')"
    "\<forall>e\<in>set es. settled clock (the (heap q (snd e))) (snd e) q'"
proof -
  from assms have "\<exists>q'. reset_loop clock body es q = Inr q' \<and> TQ_inv q'
    \<and> ran q' = ran q @ map (\<lambda>e. callBack (the (heap q (snd e)))) es \<and> next_ptr q \<le> next_ptr q'
    \<and> (\<forall>x<next_ptr q. x \<notin> snd ` set es \<longrightarrow> heap q' x = heap q x) \<and> set (timers q) \<subseteq> set (timers q')
    \<and> (\<forall>e\<in>set es. settled clock (the (heap q (snd e))) (snd e) q')"
  proof (induction es arbitrary: q)
    case Nil
    then show ?case by (simp add: TQ_inv_def)
  next
    case (Cons e es)
    obtain t where t: "heap q (snd e) = Some t" "snd e < next_ptr q"
      using TQ_wf_heap [OF Cons.prems, of "snd e"] by auto
    have w: "TQ_wf (snd e # map snd es) q" using Cons.prems by simp
    have below: "\<forall>x\<in>snd ` set es. x < next_ptr q"
      using TQ_wf_heap [OF w] by (metis imageI list.set_intros(2) list.set_map)
    have ne: "snd e \<notin> snd ` set es"
      using w by (simp add: TQ_wf_def)
    obtain q1 where q1: "reset_one clock body (snd e) q = Inr q1" "TQ_wf (map snd es) q1"
      "ran q1 = ran q @ [callBack t]" "next_ptr q \<le> next_ptr q1"
      "\<forall>x<next_ptr q. x \<noteq> snd e \<longrightarrow> heap q1 x = heap q x"
      "set (timers q) \<subseteq> set (timers q1)" "settled clock t (snd e) q1"
      using wf_reset_one [OF w t(1)] by metis
    have h: "heap q1 (snd x) = heap q (snd x)" if "x \<in> set es" for x
    proof -
      from that below ne have "snd x < next_ptr q" "snd x \<noteq> snd e" by (simp, metis imageI)
      with q1(5) show ?thesis by simp
    qed
    obtain q' where q': "reset_loop clock body es q1 = Inr q'" "TQ_inv q'"
      "ran q' = ran q1 @ map (\<lambda>e. callBack (the (heap q1 (snd e)))) es" "next_ptr q1 \<le> next_ptr q'"
      "\<forall>x<next_ptr q1. x \<notin> snd ` set es \<longrightarrow> heap q' x = heap q1 x" "set (timers q1) \<subseteq> set (timers q')"
      "\<forall>e\<in>set es. settled clock (the (heap q1 (snd e))) (snd e) q'"
      using Cons.IH [OF q1(2)] by metis
    have "settled clock t (snd e) q'"
      using q1(7) _ _ q'(6)
    proof (rule settled_mono)
      show l: "snd e < next_ptr q1" using t(2) q1(4) by simp
      show "heap q' (snd e) = heap q1 (snd e)" using q'(5) l ne by simp
    qed
    moreover have "map (\<lambda>e. callBack (the (heap q1 (snd e)))) es = map (\<lambda>e. callBack (the (heap q (snd e)))) es"
      by (simp add: h)
    moreover have "\<forall>x<next_ptr q. x \<notin> snd ` set (e # es) \<longrightarrow> heap q' x = heap q x"
      using q'(5) q1(4,5) by simp
    moreover have "\<forall>x\<in>set es. settled clock (the (heap q (snd x))) (snd x) q'"
      using q'(7) h by simp
    moreover have "reset_loop clock body (e # es) q = Inr q'"
      by (simp only: reset_loop_Cons q1(1) andThen_Inr q'(1))
    moreover have "next_ptr q \<le> next_ptr q'" "set (timers q) \<subseteq> set (timers q')"
      using q'(4,6) q1(4,6) by (auto intro: order.trans)
    ultimately show ?case
      using q'(2,3) q1(3) t(1) by (intro exI [of _ q']) (simp del: reset_loop.simps)
  qed
  then show thesis using that by blast
qed

section \<open>The operations on well-formed queues\<close>

lemma new_inv: "TQ_inv TimerQueue_new"
  by (simp add: TQ_inv_def TQ_wf_def TimerQueue_new_def multimap_sorted_def)

text \<open>The expired entries at the next reading of the clock.\<close>

definition due :: "(nat \<Rightarrow> timeval) \<Rightarrow> 'c TimerQueue \<Rightarrow> (Timestamp \<times> nat) list" where
  "due clock q = filter (\<lambda>e. fst e < Timestamp_now (clock (clock_reads q))) (timers q)"

lemma getExpired_split:
  assumes "TQ_inv q"
  obtains q' where "TimerQueue_getExpiredTimers clock q = Inr q'" "expiredTimers q' = due clock q"
    "timers q' = filter (\<lambda>e. \<not> fst e < Timestamp_now (clock (clock_reads q))) (timers q)"
    "TQ_wf (map snd (due clock q)) q'" "heap q' = heap q" "ran q' = ran q" "next_ptr q' = next_ptr q"
    "queued q' = queued q"
proof (cases "timers q = []")
  case True
  with assms that [of "q\<lparr>expiredTimers := []\<rparr>"] show thesis
    by (simp add: TimerQueue_getExpiredTimers_def due_def TQ_inv_def TQ_wf_def)
next
  case False
  let ?now = "Timestamp_now (clock (clock_reads q))"
  let ?b = "before_bound ?now (timers q)" and ?a = "from_bound ?now (timers q)"
  let ?q = "q\<lparr>clock_reads := clock_reads q + 1, expiredTimers := ?b, timers := ?a\<rparr>"
  from assms have s: "multimap_sorted (timers q)" and d: "distinct (map snd (timers q))"
    by (simp_all add: TQ_inv_def TQ_wf_def)
  have h: "?now \<le> fst (hd ?a)" if "?a \<noteq> []"
    using mmap.above_ge [OF s] that by simp
  have r: "TimerQueue_getExpiredTimers clock q = Inr ?q"
    using False h by (auto simp: TimerQueue_getExpiredTimers_def read_clock_def Let_def assert_that_def le_less)
  have u: "set ?a \<union> set ?b = set (timers q)"
    by (metis mmap.split set_append sup_commute)
  note w = assms [unfolded TQ_inv_def TQ_wf_def]
  have n: "\<And>x. x \<in> set (timers q) \<Longrightarrow> snd x \<notin> set (queued q)"
    using w by auto
  have "distinct (map snd ?a @ queued q @ map snd ?b)"
  proof -
    have "snd ` (set ?a \<union> set ?b) \<inter> set (queued q) = {}"
      unfolding u using n by blast
    then have "snd ` set ?a \<inter> set (queued q) = {}" "set (queued q) \<inter> snd ` set ?b = {}"
      unfolding image_Un by blast+
    moreover have "distinct (queued q)" using w by simp
    moreover have "snd ` set ?a \<inter> snd ` set ?b = {}"
      using mmap.distinct_split(3) [OF d, of ?now] by blast
    ultimately show ?thesis
      using mmap.distinct_split(1,2) [OF d, of ?now]
      unfolding distinct_append set_append set_map Int_Un_distrib by simp
  qed
  moreover have "\<forall>e\<in>set ?a \<union> set ?b. \<exists>t. heap q (snd e) = Some t \<and> expiration t = fst e"
    using w unfolding u by blast
  moreover from this have "\<forall>p\<in>set (queued q) \<union> set (map snd ?b). heap q p \<noteq> None"
    using w by auto
  moreover have "\<forall>p. heap q p \<noteq> None \<longrightarrow> p < next_ptr q" using w by blast
  ultimately have "TQ_wf (map snd ?b) ?q"
    using mmap.valid_above [OF s] unfolding TQ_wf_def by simp
  with r that [of ?q] show thesis
    by (simp add: due_def mmap.below_filter [OF s] mmap.above_filter [OF s])
qed

lemma handleRead_spec:
  assumes "TQ_inv q"
  obtains q' where "TimerQueue_handleRead clock body q = Inr q'" "TQ_inv q'"
    "ran q' = ran q @ map (\<lambda>e. callBack (the (heap q (snd e)))) (due clock q)"
    "set (timers q) - set (due clock q) \<subseteq> set (timers q')"
    "\<forall>e\<in>set (due clock q). settled clock (the (heap q (snd e))) (snd e) q'"
    "\<forall>x<next_ptr q. x \<notin> snd ` set (due clock q) \<longrightarrow> heap q' x = heap q x"
proof -
  obtain q1 where q1: "TimerQueue_getExpiredTimers clock q = Inr q1" "expiredTimers q1 = due clock q"
    "timers q1 = filter (\<lambda>e. \<not> fst e < Timestamp_now (clock (clock_reads q))) (timers q)"
    "TQ_wf (map snd (due clock q)) q1" "heap q1 = heap q" "ran q1 = ran q" "next_ptr q1 = next_ptr q"
    using getExpired_split [OF assms] by metis
  obtain q' where q': "reset_loop clock body (due clock q) q1 = Inr q'" "TQ_inv q'"
    "ran q' = ran q1 @ map (\<lambda>e. callBack (the (heap q1 (snd e)))) (due clock q)"
    "\<forall>x<next_ptr q1. x \<notin> snd ` set (due clock q) \<longrightarrow> heap q' x = heap q1 x"
    "set (timers q1) \<subseteq> set (timers q')"
    "\<forall>e\<in>set (due clock q). settled clock (the (heap q1 (snd e))) (snd e) q'"
    using wf_reset_loop [OF q1(4)] by metis
  have "set (timers q) - set (due clock q) \<subseteq> set (timers q1)"
    by (auto simp: q1(3) due_def)
  with q' q1 that show thesis
    by (simp add: TimerQueue_handleRead_def TimerQueue_resetTimers_def)
qed

lemma add_queued_inv:
  "TQ_wf ps q \<Longrightarrow> \<exists>q'. add_queued clock ps q = Inr q' \<and> TQ_inv q' \<and> TQ_extends q q'"
proof (induction ps arbitrary: q)
  case Nil
  then show ?case by (simp add: TQ_inv_def)
next
  case (Cons p ps)
  obtain b q1 where "TimerQueue_addTimer clock p q = Inr (b, q1)" "TQ_wf ps q1"
    "TQ_extends q q1"
    using wf_addTimer [OF Cons.prems] by metis
  with Cons.IH TQ_extends_trans show ?case by simp blast
qed

lemma timer_step_inv: "TQ_inv q \<Longrightarrow> \<exists>q'. timer_step clock body op q = Inr q' \<and> TQ_inv q'"
proof (cases op)
  case (TimerCall il c)
  assume "TQ_inv q"
  with TimerCall show ?thesis
    by (metis TQ_inv_def wf_call timer_step.simps(1))
next
  case TimerFunctors
  assume "TQ_inv q"
  then have "TQ_wf (queued q) (q\<lparr>queued := []\<rparr>)"
    by (auto simp: TQ_inv_def TQ_wf_def)
  with TimerFunctors show ?thesis using add_queued_inv by fastforce
next
  case TimerRead
  assume "TQ_inv q"
  with TimerRead show ?thesis by (metis handleRead_spec timer_step.simps(3))
qed

lemma timer_run_inv: "TQ_inv q \<Longrightarrow> \<exists>q'. timer_run clock body ops q = Inr q' \<and> TQ_inv q'"
proof (induction ops arbitrary: q)
  case (Cons op ops)
  obtain q1 where "timer_step clock body op q = Inr q1" "TQ_inv q1"
    using timer_step_inv [OF Cons.prems] by metis
  with Cons.IH show ?case by simp
qed simp

lemma destroy_heap: "heap (TimerQueue_destroy q) p = (if p \<in> snd ` set (timers q) then None else heap q p)"
proof -
  have "heap (fold (\<lambda>e. delete_timer (snd e)) es q) p = (if p \<in> snd ` set es then None else heap q p)"
    for es :: "(Timestamp \<times> nat) list" and q :: "'a TimerQueue"
    by (induction es arbitrary: q) (auto simp: delete_timer_def)
  then show ?thesis by (simp add: TimerQueue_destroy_def)
qed

text \<open>A timer that waits in the queue, with the expiration of its last round.\<close>

definition armed :: "nat \<Rightarrow> 'c Timer \<Rightarrow> 'c TimerQueue \<Rightarrow> bool" where
  "armed p t q \<longleftrightarrow> p \<in> snd ` set (timers q) \<and> (\<exists>e. heap q p = Some (t\<lparr>expiration := e\<rparr>))"

lemma armed_below: "TQ_inv q \<Longrightarrow> armed p t q \<Longrightarrow> p < next_ptr q"
  by (auto simp: armed_def TQ_inv_def TQ_wf_def)

lemma armed_extends: "TQ_inv q \<Longrightarrow> armed p t q \<Longrightarrow> TQ_extends q q' \<Longrightarrow> armed p t q'"
  using armed_below [of q p t] by (auto simp: armed_def TQ_extends_def)

lemma armed_handleRead:
  assumes "TQ_inv q" "armed p t q" "repeat t" "1 \<le> interval t" "slow_clock clock"
    and "TimerQueue_handleRead clock body q = Inr q'"
  shows "armed p t q'"
proof -
  obtain q2 where q2: "TimerQueue_handleRead clock body q = Inr q2"
    "set (timers q) - set (due clock q) \<subseteq> set (timers q2)"
    "\<forall>e\<in>set (due clock q). settled clock (the (heap q (snd e))) (snd e) q2"
    "\<forall>x<next_ptr q. x \<notin> snd ` set (due clock q) \<longrightarrow> heap q2 x = heap q x"
    using handleRead_spec [OF assms(1)] by metis
  from assms(6) q2(1) have q': "q2 = q'" by simp
  obtain k e where k: "(k, p) \<in> set (timers q)" "heap q p = Some (t\<lparr>expiration := e\<rparr>)"
    using assms(2) by (auto simp: armed_def)
  show ?thesis
  proof (cases "p \<in> snd ` set (due clock q)")
    case True
    then obtain j where "(j, p) \<in> set (due clock q)" by auto
    with q2(3) have "settled clock (the (heap q p)) p q'" by (auto simp: q')
    with assms(3-5) k(2) show ?thesis by (auto simp: settled_def armed_def)
  next
    case False
    with k q2(2) have "(k, p) \<in> set (timers q')" by (force simp: q')
    moreover have "heap q' p = heap q p"
      using q2(4) False armed_below [OF assms(1,2)] by (simp add: q')
    ultimately show ?thesis using k(2) by (force simp: armed_def)
  qed
qed

lemma armed_step:
  assumes "TQ_inv q" "armed p t q" "repeat t" "1 \<le> interval t" "slow_clock clock"
    and "timer_step clock body op q = Inr q'"
  shows "armed p t q'"
proof (cases op)
  case (TimerCall il c)
  from assms(1) obtain q2 where "perform_call clock il c q = Inr q2" "TQ_extends q q2"
    unfolding TQ_inv_def by (metis wf_call)
  with TimerCall assms(6) armed_extends [OF assms(1,2)] show ?thesis by simp
next
  case TimerFunctors
  have "TQ_wf (queued q) (q\<lparr>queued := []\<rparr>)"
    using assms(1) by (auto simp: TQ_inv_def TQ_wf_def)
  from add_queued_inv [OF this, of clock] obtain q2 where
    "add_queued clock (queued q) (q\<lparr>queued := []\<rparr>) = Inr q2" "TQ_extends (q\<lparr>queued := []\<rparr>) q2"
    by blast
  then have "q2 = q'" "TQ_extends q q2"
    using TimerFunctors assms(6) by (simp_all add: TQ_extends_def)
  with armed_extends [OF assms(1,2)] show ?thesis by simp
next
  case TimerRead
  with assms(6) armed_handleRead [OF assms(1-5)] show ?thesis by simp
qed

section \<open>Properties\<close>

text \<open>
  C16. Whatever the callbacks do, whatever the clock shows and in whatever order timers are
  added, from the loop thread or from another one, and the timer descriptor becomes readable:
  the queue never follows a pointer to a deleted timer and never fails its assertion; it stays
  sorted, with every timer in it at most once.
\<close>

theorem TimerQueue_run_safe:
  "\<exists>q. timer_run clock body ops TimerQueue_new = Inr q \<and> TQ_inv q"
  using timer_run_inv [OF new_inv] .

text \<open>
  C25. When the timer descriptor becomes readable, exactly the callbacks of the timers whose
  expiration is before the time read from the clock are run, in the order of their expiration;
  one-shot timers among them are freed, and the timers that have not expired stay.
\<close>

theorem TimerQueue_handleRead_runs_expired:
  assumes "TQ_inv q"
  shows "\<exists>q'. TimerQueue_handleRead clock body q = Inr q' \<and> TQ_inv q'
    \<and> ran q' = ran q @ map (\<lambda>e. callBack (the (heap q (snd e))))
                  (filter (\<lambda>e. fst e < Timestamp_now (clock (clock_reads q))) (timers q))
    \<and> {e \<in> set (timers q). \<not> fst e < Timestamp_now (clock (clock_reads q))} \<subseteq> set (timers q')
    \<and> (\<forall>e\<in>set (timers q). fst e < Timestamp_now (clock (clock_reads q))
         \<and> \<not> repeat (the (heap q (snd e))) \<longrightarrow> heap q' (snd e) = None)"
proof -
  obtain q' where q': "TimerQueue_handleRead clock body q = Inr q'" "TQ_inv q'"
    "ran q' = ran q @ map (\<lambda>e. callBack (the (heap q (snd e)))) (due clock q)"
    "set (timers q) - set (due clock q) \<subseteq> set (timers q')"
    "\<forall>e\<in>set (due clock q). settled clock (the (heap q (snd e))) (snd e) q'"
    using handleRead_spec [OF assms] by metis
  have "{e \<in> set (timers q). \<not> fst e < Timestamp_now (clock (clock_reads q))} \<subseteq> set (timers q')"
    using q'(4) by (auto simp: due_def)
  moreover have "heap q' (snd e) = None" if "e \<in> set (timers q)"
    "fst e < Timestamp_now (clock (clock_reads q))" "\<not> repeat (the (heap q (snd e)))" for e
    using bspec [OF q'(5), of e] that by (simp add: due_def settled_def)
  ultimately show ?thesis
    using q'(1-3) unfolding due_def by blast
qed

text \<open>A queue with a one-shot timer due at 5 seconds and one due at 20 seconds, read at 7 seconds.\<close>

definition sample_clock :: "nat \<Rightarrow> timeval" where
  "sample_clock n = (if n < 2 then (1, 0) else (int n + 5, 0))"

lemma sample_run:
  "timer_run sample_clock (\<lambda>_ _. []) [TimerCall True (AddTimerRunAt (Timestamp 20000000) ''b''),
     TimerCall True (AddTimerRunAt (Timestamp 5000000) ''a'')] TimerQueue_new
   = Inr \<lparr>heap = [0 \<mapsto> Timer_new ''b'' (Timestamp 20000000) False 0,
                  1 \<mapsto> Timer_new ''a'' (Timestamp 5000000) False 0],
          next_ptr = 2, timers = [(Timestamp 5000000, 1), (Timestamp 20000000, 0)],
          expiredTimers = [], queued = [], clock_reads = 2, ran = []\<rparr>"
  by (simp add: EventLoop_addTimerRunAt_def new_timer_def TimerQueue_addTimerInLoop_def addTimer_eq
      TimerQueue_new_def Timer_new_def sample_clock_def now_eq Let_def)

theorem TimerQueue_handleRead_runs_expired_witness:
  "\<exists>q q'. timer_run sample_clock (\<lambda>_ _. []) [TimerCall True (AddTimerRunAt (Timestamp 20000000) ''b''),
      TimerCall True (AddTimerRunAt (Timestamp 5000000) ''a'')] TimerQueue_new = Inr q
    \<and> TimerQueue_handleRead sample_clock (\<lambda>_ _. []) q = Inr q' \<and> ran q' = [''a''] \<and> heap q' 1 = None
    \<and> (Timestamp 20000000, 0) \<in> set (timers q')"
proof -
  obtain q where q: "timer_run sample_clock (\<lambda>_ _. []) [TimerCall True (AddTimerRunAt (Timestamp 20000000) ''b''),
      TimerCall True (AddTimerRunAt (Timestamp 5000000) ''a'')] TimerQueue_new = Inr q" "TQ_inv q"
    using timer_run_inv [OF new_inv] by metis
  from TimerQueue_handleRead_runs_expired [OF q(2), of sample_clock "\<lambda>_ _. []"] q(1)
  show ?thesis unfolding sample_run
    by (auto simp: Timer_new_def sample_clock_def now_eq)
qed

text \<open>
  C26. A repeating timer with an interval of at least one second stays in the queue for ever, as
  long as the clock moves less than a second between two of its readings: after any number of
  calls and of expiries, of this timer and of others, it is in the queue again, with the same
  callback and interval.
\<close>

theorem TimerQueue_repeating_timer_stays:
  assumes "TQ_inv q" and "(k, p) \<in> set (timers q)" and "heap q p = Some t"
    and "repeat t" and "1 \<le> interval t" and "slow_clock clock"
  shows "\<exists>q' e. timer_run clock body ops q = Inr q' \<and> p \<in> snd ` set (timers q')
    \<and> heap q' p = Some (t\<lparr>expiration := e\<rparr>)"
proof -
  have "armed p t q" unfolding armed_def
    using assms(2,3) by (auto simp: rev_image_eqI intro!: exI [of _ "expiration t"])
  with assms(1) have "\<exists>q'. timer_run clock body ops q = Inr q' \<and> armed p t q'"
  proof (induction ops arbitrary: q)
    case (Cons op ops)
    obtain q1 where "timer_step clock body op q = Inr q1" "TQ_inv q1"
      using timer_step_inv [OF Cons.prems(1)] by metis
    with Cons.IH armed_step [OF Cons.prems assms(4-6)] show ?case by simp
  qed simp
  then show ?thesis by (auto simp: armed_def)
qed

lemma every_run:
  "timer_run (\<lambda>n. (0, 500000 * int n)) body [TimerCall True (AddTimerRunEvery (of_int i) c)] TimerQueue_new
   = Inr \<lparr>heap = [0 \<mapsto> Timer_new c (Timestamp (1000000 * i)) True i], next_ptr = 1,
          timers = [(Timestamp (1000000 * i), 0)], expiredTimers = [], queued = [], clock_reads = 2, ran = []\<rparr>"
  if "1 \<le> i" for i :: int
  using that
  by (simp add: EventLoop_addTimerRunEvery_def new_timer_def TimerQueue_addTimerInLoop_def addTimer_eq
      TimerQueue_new_def Timer_new_def read_clock_def nowAfter_int now_eq Let_def)

theorem TimerQueue_repeating_timer_stays_witness:
  "\<exists>q q'. timer_run (\<lambda>n. (0, 500000 * int n)) (\<lambda>_ _. []) [TimerCall True (AddTimerRunEvery 3 ''tick'')] TimerQueue_new = Inr q
    \<and> timer_run (\<lambda>n. (0, 500000 * int n)) (\<lambda>_ _. []) (replicate 10 TimerRead) q = Inr q'
    \<and> 0 \<in> snd ` set (timers q')"
proof -
  let ?c = "\<lambda>n. (0, 500000 * int n) :: timeval"
  have s: "slow_clock ?c"
    unfolding slow_clock_def using nowAfter_int [of _ 1] by (simp add: now_eq)
  obtain q where q: "timer_run ?c (\<lambda>_ _. []) [TimerCall True (AddTimerRunEvery 3 ''tick'')] TimerQueue_new = Inr q"
    "TQ_inv q"
    using timer_run_inv [OF new_inv] by metis
  then have e: "q = \<lparr>heap = [0 \<mapsto> Timer_new ''tick'' (Timestamp 3000000) True 3], next_ptr = 1,
      timers = [(Timestamp 3000000, 0)], expiredTimers = [], queued = [], clock_reads = 2, ran = []\<rparr>"
    using every_run [of 3 "\<lambda>_ _. []" "''tick''"] by (simp del: timer_run.simps)
  have "\<exists>q' e. timer_run ?c (\<lambda>_ _. []) (replicate 10 TimerRead) q = Inr q' \<and> 0 \<in> snd ` set (timers q')
      \<and> heap q' 0 = Some ((Timer_new ''tick'' (Timestamp 3000000) True 3)\<lparr>expiration := e\<rparr>)"
    by (rule TimerQueue_repeating_timer_stays [OF q(2) _ _ _ _ s]) (simp_all add: e Timer_new_def)
  with q(1) show ?thesis by blast
qed

text \<open>
  A repeating timer whose interval is a fraction of a second fires once and is lost: its
  interval is truncated to 0, so after it has run it is due at once, \<open>addTimer\<close> finds it
  expired and refuses it, and nobody looks at the refusal. The timer is never freed either, not
  even with the queue.
\<close>

theorem TimerQueue_fractional_interval_stops:
  assumes "0 < r" and "r < 1" and "ticking_clock clock"
    and "Timestamp_now (clock 1) \<le> Timestamp_nowAfter (clock 0) r"
    and "Timestamp_nowAfter (clock 0) r < Timestamp_now (clock 2)"
  shows "\<exists>q'. timer_run clock body [TimerCall True (AddTimerRunEvery r c), TimerRead] TimerQueue_new = Inr q'
    \<and> ran q' = [c] \<and> 0 \<notin> snd ` set (timers q') \<union> set (queued q') \<and> heap (TimerQueue_destroy q') 0 \<noteq> None"
proof -
  let ?e = "Timestamp_nowAfter (clock 0) r"
  let ?t = "Timer_new c ?e True 0"
  let ?q = "\<lparr>heap = [0 \<mapsto> ?t], next_ptr = 1, timers = [(?e, 0)], expiredTimers = [], queued = [],
    clock_reads = 2, ran = []\<rparr>"
  have "truncate_double r = 0"
    using assms(1,2) by (simp add: truncate_double_def floor_eq_iff)
  with assms(4) have call: "perform_call clock True (AddTimerRunEvery r c) TimerQueue_new = Inr ?q"
    by (simp add: EventLoop_addTimerRunEvery_def new_timer_def TimerQueue_addTimerInLoop_def addTimer_eq
        TimerQueue_new_def Timer_new_def read_clock_def Let_def not_less)
  have i: "TQ_inv ?q"
    by (auto simp: TQ_inv_def TQ_wf_def multimap_sorted_def Timer_new_def)
  have d: "due clock ?q = [(?e, 0)]"
    using assms(5) by (simp add: due_def numeral_2_eq_2)
  obtain q1 where g: "TimerQueue_getExpiredTimers clock ?q = Inr q1" "expiredTimers q1 = due clock ?q"
    "TQ_wf (map snd (due clock ?q)) q1" "heap q1 = heap ?q" "ran q1 = ran ?q"
    using getExpired_split [OF i, of clock] by blast
  then have q1: "TimerQueue_getExpiredTimers clock ?q = Inr q1" "expiredTimers q1 = [(?e, 0)]"
    "TQ_wf [0] q1" "heap q1 = heap ?q" "ran q1 = ran ?q"
    unfolding d by simp_all
  have h: "heap q1 0 = Some ?t" by (simp add: q1(4))
  obtain q' where q': "reset_one clock body 0 q1 = Inr q'" "ran q' = ran q1 @ [c]" "settled clock ?t 0 q'"
    "repeat ?t \<and> ticking_clock clock \<and> interval ?t \<le> 0 \<longrightarrow> 0 \<notin> snd ` set (timers q') \<union> set (queued q')"
    using wf_reset_one [OF q1(3) h] by (metis Timer.select_convs(1) Timer_new_def)
  have n: "0 \<notin> snd ` set (timers q') \<union> set (queued q')"
    using q'(4) assms(3) by (simp add: Timer_new_def)
  have "timer_run clock body [TimerCall True (AddTimerRunEvery r c), TimerRead] TimerQueue_new = Inr q'"
    using call q1(1,2) q'(1) by (simp add: TimerQueue_handleRead_def TimerQueue_resetTimers_def
        reset_loop_Cons del: reset_loop.simps(2))
  moreover have "heap q' 0 \<noteq> None" using q'(3) by (auto simp: settled_def Timer_new_def)
  ultimately show ?thesis using n q'(2) by (simp add: destroy_heap q1(5))
qed

theorem TimerQueue_fractional_interval_stops_witness:
  "\<exists>q'. timer_run (\<lambda>n. (0, 300000 * int n)) (\<lambda>_ _. []) [TimerCall True (AddTimerRunEvery (1 / 2) ''tick''), TimerRead]
      TimerQueue_new = Inr q'
    \<and> ran q' = [''tick''] \<and> 0 \<notin> snd ` set (timers q') \<union> set (queued q') \<and> heap (TimerQueue_destroy q') 0 \<noteq> None"
  by (rule TimerQueue_fractional_interval_stops)
    (simp_all add: ticking_clock_def now_eq Timestamp_nowAfter_def Timestamp_of_double_def nowMicroSeconds_def
      kMicroSecondsPerSecond_def truncate_double_def)

end
