(* ===== verification/Channels.thy ===== *)
theory Channels
  imports Rabbit_Prelude "HOL-Library.Word"
begin

text \<open>
  \<open>net/Channel.h\<close>, \<open>net/Channel.cpp\<close>, \<open>net/Poller.h\<close> and \<open>net/Poller.cpp\<close>: the events a
  descriptor is registered for, the registration with \<open>epoll\<close> and the dispatch of the events
  that arrive. Event masks are 32-bit words. The interest set of an \<open>epoll\<close> instance, kept by the
  kernel, is a map from descriptors to the address of the channel and its mask; \<open>epoll_ctl\<close> fails
  without effect on a bad descriptor, when it adds a registered one and when it modifies or
  deletes one that is not registered, and the sources ignore its result. An operation of a
  channel returns the channel and the interest set of its loop.
\<close>

unbundle bit_operations_syntax

section \<open>The kernel's part\<close>

type_synonym mask = "32 word"
type_synonym epoll = "int \<Rightarrow> (nat \<times> mask) option"

definition EPOLLIN :: mask where "EPOLLIN = 0x001"
definition EPOLLPRI :: mask where "EPOLLPRI = 0x002"
definition EPOLLOUT :: mask where "EPOLLOUT = 0x004"
definition EPOLLERR :: mask where "EPOLLERR = 0x008"
definition EPOLLHUP :: mask where "EPOLLHUP = 0x010"
definition EPOLLRDHUP :: mask where "EPOLLRDHUP = 0x2000"

lemmas mask_defs = EPOLLIN_def EPOLLPRI_def EPOLLOUT_def EPOLLERR_def EPOLLHUP_def EPOLLRDHUP_def

definition epoll_add :: "int \<Rightarrow> nat \<times> mask \<Rightarrow> epoll \<Rightarrow> epoll" where
  "epoll_add fd x ep = (if fd < 0 \<or> ep fd \<noteq> None then ep else ep(fd \<mapsto> x))"

definition epoll_mod :: "int \<Rightarrow> nat \<times> mask \<Rightarrow> epoll \<Rightarrow> epoll" where
  "epoll_mod fd x ep = (if ep fd = None then ep else ep(fd \<mapsto> x))"

definition epoll_del :: "int \<Rightarrow> epoll \<Rightarrow> epoll" where
  "epoll_del fd ep = ep(fd := None)"

section \<open>The channel\<close>

definition kNew :: int where "kNew = 0"
definition kAdded :: int where "kAdded = 1"
definition NoEvent :: mask where "NoEvent = 0"
definition ReadEvent :: mask where "ReadEvent = EPOLLIN OR EPOLLPRI"
definition WriteEvent :: mask where "WriteEvent = EPOLLOUT"

text \<open>A callback is a value of the type \<open>'f\<close>; the owner of the channel gives it its meaning.\<close>

record 'f Channel =
  chan_ptr :: nat
  chan_fd :: int
  chan_index :: int
  chan_events :: mask
  chan_revents :: mask
  chan_tied :: bool
  chan_writing :: bool
  readCallback :: "'f option"
  writeCallback :: "'f option"
  errorCallback :: "'f option"
  closeCallback :: "'f option"
  hupCallback :: "'f option"

definition Channel_new :: "nat \<Rightarrow> int \<Rightarrow> 'f Channel" where
  "Channel_new ptr fd = \<lparr>chan_ptr = ptr, chan_fd = fd, chan_index = kNew, chan_events = 0, chan_revents = 0,
     chan_tied = False, chan_writing = False, readCallback = None, writeCallback = None,
     errorCallback = None, closeCallback = None, hupCallback = None\<rparr>"

text \<open>The setters of the class.\<close>

definition Channel_setReadCallBack :: "'f \<Rightarrow> 'f Channel \<Rightarrow> 'f Channel" where
  "Channel_setReadCallBack f ch = ch\<lparr>readCallback := Some f\<rparr>"

definition Channel_setWriteCallBack :: "'f \<Rightarrow> 'f Channel \<Rightarrow> 'f Channel" where
  "Channel_setWriteCallBack f ch = ch\<lparr>writeCallback := Some f\<rparr>"

definition Channel_setErrorCallBack :: "'f \<Rightarrow> 'f Channel \<Rightarrow> 'f Channel" where
  "Channel_setErrorCallBack f ch = ch\<lparr>errorCallback := Some f\<rparr>"

definition Channel_setCloseCallBack :: "'f \<Rightarrow> 'f Channel \<Rightarrow> 'f Channel" where
  "Channel_setCloseCallBack f ch = ch\<lparr>closeCallback := Some f\<rparr>"

definition Channel_setHupCallback :: "'f \<Rightarrow> 'f Channel \<Rightarrow> 'f Channel" where
  "Channel_setHupCallback f ch = ch\<lparr>hupCallback := Some f\<rparr>"

definition Channel_set_revnets :: "mask \<Rightarrow> 'f Channel \<Rightarrow> 'f Channel" where
  "Channel_set_revnets revents ch = ch\<lparr>chan_revents := revents\<rparr>"

definition Channel_set_index :: "int \<Rightarrow> 'f Channel \<Rightarrow> 'f Channel" where
  "Channel_set_index index ch = ch\<lparr>chan_index := index\<rparr>"

lemmas channel_setters [simp] = Channel_setReadCallBack_def Channel_setWriteCallBack_def Channel_setErrorCallBack_def
  Channel_setCloseCallBack_def Channel_setHupCallback_def Channel_set_revnets_def Channel_set_index_def

section \<open>Registration\<close>

definition Poller_upDateChannel :: "'f Channel \<Rightarrow> epoll \<Rightarrow> 'f Channel \<times> epoll" where
  "Poller_upDateChannel ch ep =
     (if chan_index ch = kNew then
        (Channel_set_index kAdded ch, epoll_add (chan_fd ch) (chan_ptr ch, chan_events ch) ep)
      else if chan_index ch = kAdded then
        (ch, epoll_mod (chan_fd ch) (chan_ptr ch, chan_events ch) ep)
      else (ch, ep))"

definition Poller_removeChannel :: "'f Channel \<Rightarrow> epoll \<Rightarrow> 'f Channel \<times> epoll" where
  "Poller_removeChannel ch ep =
     (if chan_index ch = kNew then (ch, ep)
      else (Channel_set_index kNew ch, epoll_del (chan_fd ch) ep))"

definition EventLoop_upDateChannel :: "'f Channel \<Rightarrow> epoll \<Rightarrow> 'f Channel \<times> epoll" where
  "EventLoop_upDateChannel ch ep = Poller_upDateChannel ch ep"

definition EventLoop_removeChannel :: "'f Channel \<Rightarrow> epoll \<Rightarrow> 'f Channel \<times> epoll" where
  "EventLoop_removeChannel ch ep = Poller_removeChannel ch ep"

definition Channel_update :: "'f Channel \<Rightarrow> epoll \<Rightarrow> 'f Channel \<times> epoll" where
  "Channel_update ch ep = EventLoop_upDateChannel ch ep"

definition Channel_enableReading :: "'f Channel \<Rightarrow> epoll \<Rightarrow> 'f Channel \<times> epoll" where
  "Channel_enableReading ch ep = Channel_update (ch\<lparr>chan_events := chan_events ch OR ReadEvent\<rparr>) ep"

definition Channel_enableWriting :: "'f Channel \<Rightarrow> epoll \<Rightarrow> 'f Channel \<times> epoll" where
  "Channel_enableWriting ch ep =
     Channel_update (ch\<lparr>chan_writing := True, chan_events := chan_events ch OR WriteEvent\<rparr>) ep"

definition Channel_disableWriting :: "'f Channel \<Rightarrow> epoll \<Rightarrow> 'f Channel \<times> epoll" where
  "Channel_disableWriting ch ep =
     (let (ch, ep) = Channel_update (ch\<lparr>chan_events := chan_events ch AND NOT WriteEvent\<rparr>) ep
      in (ch\<lparr>chan_writing := False\<rparr>, ep))"

definition Channel_disableReading :: "'f Channel \<Rightarrow> epoll \<Rightarrow> 'f Channel \<times> epoll" where
  "Channel_disableReading ch ep = Channel_update (ch\<lparr>chan_events := chan_events ch AND NOT ReadEvent\<rparr>) ep"

definition Channel_disableAll :: "'f Channel \<Rightarrow> epoll \<Rightarrow> 'f Channel \<times> epoll" where
  "Channel_disableAll ch ep =
     (let (ch, ep) = Channel_update (ch\<lparr>chan_events := NoEvent\<rparr>) ep
      in (ch\<lparr>chan_writing := False\<rparr>, ep))"

definition Channel_remove :: "'f Channel \<Rightarrow> epoll \<Rightarrow> 'f Channel \<times> epoll" where
  "Channel_remove ch ep =
     (let (ch, ep) = Channel_disableAll ch ep in EventLoop_removeChannel ch ep)"

definition Channel_isNoEvent :: "'f Channel \<Rightarrow> bool" where
  "Channel_isNoEvent ch \<longleftrightarrow> chan_events ch = NoEvent"

definition Channel_tie :: "'f Channel \<Rightarrow> 'f Channel" where
  "Channel_tie ch = ch\<lparr>chan_tied := True\<rparr>"

section \<open>Dispatch\<close>

text \<open>
  The callbacks \<open>handleEventWithGuard\<close> calls, in order: the calls do not change \<open>revents_\<close>,
  which is set by the poller only, nor the callbacks of the channel. \<open>alive\<close> says whether the
  object the channel is tied to still exists.
\<close>

definition calls :: "'f option \<Rightarrow> 'f list" where
  "calls f = (case f of None \<Rightarrow> [] | Some g \<Rightarrow> [g])"

definition Channel_handleEventWithGuard :: "'f Channel \<Rightarrow> 'f list" where
  "Channel_handleEventWithGuard ch =
     (if chan_revents ch AND EPOLLERR \<noteq> 0 then calls (errorCallback ch) else [])
     @ (if chan_revents ch AND (EPOLLIN OR EPOLLPRI OR EPOLLRDHUP OR EPOLLHUP) \<noteq> 0 then
          if chan_revents ch AND EPOLLHUP \<noteq> 0 then calls (hupCallback ch) else calls (readCallback ch)
        else [])
     @ (if chan_revents ch AND EPOLLOUT \<noteq> 0 then calls (writeCallback ch) else [])"

definition Channel_handleEvent :: "bool \<Rightarrow> 'f Channel \<Rightarrow> 'f list" where
  "Channel_handleEvent alive ch =
     (if chan_tied ch then if alive then Channel_handleEventWithGuard ch else []
      else Channel_handleEventWithGuard ch)"

section \<open>Polling\<close>

text \<open>
  The channels live at their addresses. \<open>epoll_wait\<close> gives an error or at most as many events
  as the array has room for, each the pointer that was registered and the mask of what happened.
\<close>

type_synonym 'f channels = "nat \<Rightarrow> 'f Channel"

definition InitEventsNum :: nat where
  "InitEventsNum = 255"

fun Poller_fillActiveChannels ::
  "(nat \<times> mask) list \<Rightarrow> 'f channels \<times> nat list \<Rightarrow> 'f channels \<times> nat list" where
  "Poller_fillActiveChannels [] (cs, active) = (cs, active)"
| "Poller_fillActiveChannels ((p, ev) # evs) (cs, active) =
     Poller_fillActiveChannels evs (cs(p := Channel_set_revnets ev (cs p)), active @ [p])"

definition Poller_Poll ::
  "(nat \<times> mask) list option \<Rightarrow> nat \<Rightarrow> 'f channels \<times> nat list \<Rightarrow> nat \<times> 'f channels \<times> nat list" where
  "Poller_Poll ready events_size w =
     (case ready of None \<Rightarrow> (events_size, w)
      | Some evs \<Rightarrow> (if events_size = length evs then length evs * 2 else events_size, Poller_fillActiveChannels evs w))"

section \<open>Channels in step with the kernel\<close>

text \<open>
  A channel is in step when it is registered exactly when its index says so, with the mask it
  holds, and when its flag for writing agrees with the mask.
\<close>

definition in_step :: "'f Channel \<Rightarrow> epoll \<Rightarrow> bool" where
  "in_step ch ep \<longleftrightarrow> chan_index ch \<in> {kNew, kAdded}
     \<and> ep (chan_fd ch) = (if chan_index ch = kAdded then Some (chan_ptr ch, chan_events ch) else None)
     \<and> (chan_writing ch \<longleftrightarrow> chan_events ch AND WriteEvent \<noteq> 0)"

datatype chan_op = EnableReading | EnableWriting | DisableReading | DisableWriting | DisableAll | Remove

fun chan_step :: "chan_op \<Rightarrow> 'f Channel \<times> epoll \<Rightarrow> 'f Channel \<times> epoll" where
  "chan_step EnableReading (ch, ep) = Channel_enableReading ch ep"
| "chan_step EnableWriting (ch, ep) = Channel_enableWriting ch ep"
| "chan_step DisableReading (ch, ep) = Channel_disableReading ch ep"
| "chan_step DisableWriting (ch, ep) = Channel_disableWriting ch ep"
| "chan_step DisableAll (ch, ep) = Channel_disableAll ch ep"
| "chan_step Remove (ch, ep) = Channel_remove ch ep"

lemmas chan_defs = Channel_enableReading_def Channel_enableWriting_def Channel_disableReading_def
  Channel_disableWriting_def Channel_disableAll_def Channel_remove_def Channel_update_def
  EventLoop_upDateChannel_def EventLoop_removeChannel_def Poller_upDateChannel_def
  Poller_removeChannel_def epoll_add_def epoll_mod_def epoll_del_def

lemma kNew_kAdded [simp]: "kNew \<noteq> kAdded" "kAdded \<noteq> kNew"
  by (simp_all add: kNew_def kAdded_def)

lemma WriteEvent_bits:
  "(m OR ReadEvent) AND WriteEvent = m AND WriteEvent"
  "(m AND NOT ReadEvent) AND WriteEvent = m AND WriteEvent"
  "(m OR WriteEvent) AND WriteEvent = WriteEvent"
  "(m AND NOT WriteEvent) AND WriteEvent = 0"
  "WriteEvent \<noteq> 0" "NoEvent AND WriteEvent = 0"
  by (simp_all add: ReadEvent_def WriteEvent_def NoEvent_def mask_defs and.assoc bit.conj_disj_distrib2)

lemma ReadEvent_bits:
  "(m OR ReadEvent) AND ReadEvent = ReadEvent"
  "m AND ReadEvent = ReadEvent \<Longrightarrow> (m OR WriteEvent) AND ReadEvent = ReadEvent"
  "m AND ReadEvent = ReadEvent \<Longrightarrow> (m AND NOT WriteEvent) AND ReadEvent = ReadEvent"
proof -
  have w: "WriteEvent AND ReadEvent = 0" "NOT WriteEvent AND ReadEvent = ReadEvent"
    by (simp_all add: ReadEvent_def WriteEvent_def mask_defs)
  show "(m OR ReadEvent) AND ReadEvent = ReadEvent"
    by (simp add: bit.conj_disj_distrib2)
  show "m AND ReadEvent = ReadEvent \<Longrightarrow> (m OR WriteEvent) AND ReadEvent = ReadEvent"
    by (simp add: bit.conj_disj_distrib2 w(1))
  show "m AND ReadEvent = ReadEvent \<Longrightarrow> (m AND NOT WriteEvent) AND ReadEvent = ReadEvent"
    by (simp only: and.assoc w(2))
qed

text \<open>What each operation makes of a channel in step.\<close>

lemma update_in_step:
  assumes "in_step ch ep" and "0 \<le> chan_fd ch"
  shows "Channel_update (ch\<lparr>chan_events := m\<rparr>) ep =
      (ch\<lparr>chan_events := m, chan_index := kAdded\<rparr>, ep(chan_fd ch \<mapsto> (chan_ptr ch, m)))"
    and "Channel_update (ch\<lparr>chan_events := m, chan_writing := b\<rparr>) ep =
      (ch\<lparr>chan_events := m, chan_writing := b, chan_index := kAdded\<rparr>, ep(chan_fd ch \<mapsto> (chan_ptr ch, m)))"
proof -
  have i: "chan_index ch = kNew \<and> ep (chan_fd ch) = None
      \<or> chan_index ch = kAdded \<and> ep (chan_fd ch) = Some (chan_ptr ch, chan_events ch)"
    using assms(1) by (auto simp: in_step_def)
  note d = Channel_update_def EventLoop_upDateChannel_def Poller_upDateChannel_def epoll_add_def epoll_mod_def
  show "Channel_update (ch\<lparr>chan_events := m\<rparr>) ep =
      (ch\<lparr>chan_events := m, chan_index := kAdded\<rparr>, ep(chan_fd ch \<mapsto> (chan_ptr ch, m)))"
    using i assms(2) by (elim disjE) (simp_all add: d)
  show "Channel_update (ch\<lparr>chan_events := m, chan_writing := b\<rparr>) ep =
      (ch\<lparr>chan_events := m, chan_writing := b, chan_index := kAdded\<rparr>, ep(chan_fd ch \<mapsto> (chan_ptr ch, m)))"
    using i assms(2) by (elim disjE) (simp_all add: d)
qed

lemma op_in_step:
  assumes "in_step ch ep" and "0 \<le> chan_fd ch"
  shows "Channel_enableReading ch ep =
      (ch\<lparr>chan_events := chan_events ch OR ReadEvent, chan_index := kAdded\<rparr>,
       ep(chan_fd ch \<mapsto> (chan_ptr ch, chan_events ch OR ReadEvent)))"
    and "Channel_disableReading ch ep =
      (ch\<lparr>chan_events := chan_events ch AND NOT ReadEvent, chan_index := kAdded\<rparr>,
       ep(chan_fd ch \<mapsto> (chan_ptr ch, chan_events ch AND NOT ReadEvent)))"
    and "Channel_enableWriting ch ep =
      (ch\<lparr>chan_events := chan_events ch OR WriteEvent, chan_writing := True, chan_index := kAdded\<rparr>,
       ep(chan_fd ch \<mapsto> (chan_ptr ch, chan_events ch OR WriteEvent)))"
    and "Channel_disableWriting ch ep =
      (ch\<lparr>chan_events := chan_events ch AND NOT WriteEvent, chan_writing := False, chan_index := kAdded\<rparr>,
       ep(chan_fd ch \<mapsto> (chan_ptr ch, chan_events ch AND NOT WriteEvent)))"
    and "Channel_disableAll ch ep =
      (ch\<lparr>chan_events := NoEvent, chan_writing := False, chan_index := kAdded\<rparr>,
       ep(chan_fd ch \<mapsto> (chan_ptr ch, NoEvent)))"
    and "Channel_remove ch ep =
      (ch\<lparr>chan_events := NoEvent, chan_writing := False, chan_index := kNew\<rparr>, ep(chan_fd ch := None))"
proof -
  note u = update_in_step [OF assms]
  have w: "ch\<lparr>chan_writing := True, chan_events := m\<rparr> = ch\<lparr>chan_events := m, chan_writing := True\<rparr>" for m
    by simp
  show "Channel_enableReading ch ep =
      (ch\<lparr>chan_events := chan_events ch OR ReadEvent, chan_index := kAdded\<rparr>,
       ep(chan_fd ch \<mapsto> (chan_ptr ch, chan_events ch OR ReadEvent)))"
    by (simp add: Channel_enableReading_def u)
  show "Channel_disableReading ch ep =
      (ch\<lparr>chan_events := chan_events ch AND NOT ReadEvent, chan_index := kAdded\<rparr>,
       ep(chan_fd ch \<mapsto> (chan_ptr ch, chan_events ch AND NOT ReadEvent)))"
    by (simp add: Channel_disableReading_def u)
  show "Channel_enableWriting ch ep =
      (ch\<lparr>chan_events := chan_events ch OR WriteEvent, chan_writing := True, chan_index := kAdded\<rparr>,
       ep(chan_fd ch \<mapsto> (chan_ptr ch, chan_events ch OR WriteEvent)))"
    unfolding Channel_enableWriting_def w u by simp
  show "Channel_disableWriting ch ep =
      (ch\<lparr>chan_events := chan_events ch AND NOT WriteEvent, chan_writing := False, chan_index := kAdded\<rparr>,
       ep(chan_fd ch \<mapsto> (chan_ptr ch, chan_events ch AND NOT WriteEvent)))"
    by (simp add: Channel_disableWriting_def u)
  show d: "Channel_disableAll ch ep =
      (ch\<lparr>chan_events := NoEvent, chan_writing := False, chan_index := kAdded\<rparr>,
       ep(chan_fd ch \<mapsto> (chan_ptr ch, NoEvent)))"
    by (simp add: Channel_disableAll_def u)
  show "Channel_remove ch ep =
      (ch\<lparr>chan_events := NoEvent, chan_writing := False, chan_index := kNew\<rparr>, ep(chan_fd ch := None))"
    by (simp add: Channel_remove_def d EventLoop_removeChannel_def Poller_removeChannel_def epoll_del_def)
qed

lemma chan_step_in_step:
  fixes s :: chan_op
  assumes "in_step ch ep" and "0 \<le> chan_fd ch" and "r = chan_step s (ch, ep)"
  shows "in_step (fst r) (snd r) \<and> chan_fd (fst r) = chan_fd ch \<and> chan_ptr (fst r) = chan_ptr ch
    \<and> (\<forall>fd. fd \<noteq> chan_fd ch \<longrightarrow> snd r fd = ep fd)"
  using assms(1) unfolding assms(3)
  by (cases s) (simp_all add: op_in_step [OF assms(1,2)] in_step_def WriteEvent_bits)

lemma new_in_step: "ep fd = None \<Longrightarrow> in_step (Channel_new ptr fd) ep"
  by (simp add: in_step_def Channel_new_def)

lemma chan_run_in_step:
  "in_step ch ep \<Longrightarrow> 0 \<le> chan_fd ch \<Longrightarrow>
   in_step (fst (fold chan_step ops (ch, ep))) (snd (fold chan_step ops (ch, ep)))
   \<and> chan_fd (fst (fold chan_step ops (ch, ep))) = chan_fd ch
   \<and> chan_ptr (fst (fold chan_step ops (ch, ep))) = chan_ptr ch
   \<and> (\<forall>fd. fd \<noteq> chan_fd ch \<longrightarrow> snd (fold chan_step ops (ch, ep)) fd = ep fd)"
proof (induction ops arbitrary: ch ep)
  case (Cons op ops)
  obtain ch1 ep1 where r: "chan_step op (ch, ep) = (ch1, ep1)" by fastforce
  with chan_step_in_step [OF Cons.prems r [symmetric]] Cons.IH [of ch1 ep1] Cons.prems(2)
  show ?case by simp
qed simp

section \<open>Properties\<close>

text \<open>
  C17. A new channel on a valid, unregistered descriptor stays in step with the kernel through
  any sequence of operations: the descriptor is registered exactly when the channel's index says
  so, with the channel's address and its current mask; \<open>isWriting\<close> tells whether write events
  are requested; the registrations of other descriptors are not touched.
\<close>

theorem Channel_in_step_with_epoll:
  assumes "0 \<le> fd" and "ep fd = None"
  shows "\<exists>ch' ep'. fold chan_step ops (Channel_new ptr fd :: 'f Channel, ep) = (ch', ep')
    \<and> chan_index ch' \<in> {kNew, kAdded}
    \<and> ep' fd = (if chan_index ch' = kAdded then Some (ptr, chan_events ch') else None)
    \<and> (chan_writing ch' \<longleftrightarrow> chan_events ch' AND EPOLLOUT \<noteq> 0)
    \<and> (\<forall>fd'. fd' \<noteq> fd \<longrightarrow> ep' fd' = ep fd')"
proof -
  obtain ch' ep' where r: "fold chan_step ops (Channel_new ptr fd :: 'f Channel, ep) = (ch', ep')" by fastforce
  have s: "in_step (Channel_new ptr fd :: 'f Channel) ep" using assms(2) by (rule new_in_step)
  have "chan_fd (Channel_new ptr fd :: 'f Channel) = fd" "chan_ptr (Channel_new ptr fd :: 'f Channel) = ptr"
    by (simp_all add: Channel_new_def)
  with chan_run_in_step [OF s, of ops] assms(1)
  have "in_step ch' ep'" "chan_fd ch' = fd" "chan_ptr ch' = ptr" "\<forall>fd'. fd' \<noteq> fd \<longrightarrow> ep' fd' = ep fd'"
    unfolding r by simp_all
  then show ?thesis unfolding r
    by (intro exI [of _ ch'] exI [of _ ep']) (simp add: in_step_def WriteEvent_def)
qed

theorem Channel_in_step_with_epoll_witness:
  "\<exists>ch' ep'. fold chan_step [EnableReading, EnableWriting, DisableAll, Remove, EnableReading]
      (Channel_new 7 5 :: unit Channel, [3 \<mapsto> (1, 1)]) = (ch', ep')
    \<and> ep' 5 = Some (7, 3) \<and> ep' 3 = Some (1, 1) \<and> \<not> chan_writing ch'"
proof -
  let ?ops = "[EnableReading, EnableWriting, DisableAll, Remove, EnableReading]"
  have s: "in_step (Channel_new 7 5 :: unit Channel) [3 \<mapsto> (1, 1)]" by (rule new_in_step) simp
  obtain ch' ep' where r: "fold chan_step ?ops (Channel_new 7 5 :: unit Channel, [3 \<mapsto> (1, 1)]) = (ch', ep')"
    "ep' 5 = (if chan_index ch' = kAdded then Some (7, chan_events ch') else None)"
    "chan_writing ch' \<longleftrightarrow> chan_events ch' AND EPOLLOUT \<noteq> 0" "\<forall>fd'. fd' \<noteq> 5 \<longrightarrow> ep' fd' = [3 \<mapsto> (1, 1)] fd'"
    using Channel_in_step_with_epoll [of 5 "[3 \<mapsto> (1, 1)]" ?ops 7] by auto
  have "chan_index ch' = kAdded \<and> chan_events ch' = 3"
    using r(1) by (auto simp: chan_defs Channel_new_def Let_def ReadEvent_def WriteEvent_def NoEvent_def mask_defs)
  with r show ?thesis by (auto simp: mask_defs)
qed

end
