(* ===== verification/Event_Loop.thy ===== *)
theory Event_Loop
  imports Rabbit_Prelude
begin

text \<open>
  \<open>net/EventLoop.h\<close> and \<open>net/EventLoop.cpp\<close>: the loop thread, the functors other threads queue
  for it and the event descriptor that wakes it. The threads interleave: a step is one access to
  the shared state (the functors, under their mutex; \<open>quit_\<close>; \<open>callingPendingFunctors_\<close>; the
  counter of the event descriptor), so \<open>QueueInLoop\<close> and \<open>stop\<close> take two steps, and other
  threads can run between them. What event handlers and functors do besides queueing functors
  and stopping the loop is not visible here.
\<close>

section \<open>Threads and the state they share\<close>

datatype thread = LoopThread | Other nat

text \<open>
  Between the two steps of \<open>QueueInLoop\<close> a thread has pushed its functor and still has to
  decide whether to wake the loop; between the two steps of \<open>stop\<close> it has set \<open>quit_\<close>.
\<close>

datatype phase = Idle | Pushed | QuitSet

text \<open>
  Where the loop thread is: in front of \<open>loop()\<close>, at the test of \<open>quit_\<close>, in \<open>epoll_wait\<close>,
  handling events (the flag tells that the wakeup channel is active and not handled yet), in
  front of \<open>doPendingFunctors\<close>, in front of its swap, running functors (the first one has
  begun), after \<open>loop()\<close>, or aborted by the assertion of \<open>loop()\<close>.
\<close>

datatype 'f loop_pc =
    NotStarted
  | AtTest
  | Polling
  | Handling bool
  | AtDo
  | AtSwap
  | Running "'f list"
  | Exited
  | Aborted

text \<open>
  The last three fields record the history: the functors queued and run, and whether the loop
  thread has queued a functor before it entered \<open>loop()\<close>.
\<close>

record 'f EventLoop =
  pc :: "'f loop_pc"
  quit :: bool
  callingPendingFunctors :: bool
  pendingFunctors :: "'f list"
  wakeup_count :: nat
  phase_of :: "thread \<Rightarrow> phase"
  queued_log :: "'f list"
  ran_log :: "'f list"
  early :: bool

definition EventLoop_new :: "'f EventLoop" where
  "EventLoop_new = \<lparr>pc = NotStarted, quit = False, callingPendingFunctors = False, pendingFunctors = [],
     wakeup_count = 0, phase_of = (\<lambda>_. Idle), queued_log = [], ran_log = [], early = False\<rparr>"

section \<open>The operations\<close>

definition isInLoopThread :: "thread \<Rightarrow> bool" where
  "isInLoopThread t \<longleftrightarrow> t = LoopThread"

text \<open>
  Where more than one loop is in play, a loop is known by its address, and \<open>cur\<close> is the loop of
  the calling thread.
\<close>

definition assertInLoopThread :: "nat \<Rightarrow> nat \<Rightarrow> 'a res \<Rightarrow> 'a res" where
  "assertInLoopThread cur loop r = assert_that (cur = loop) r"

lemma assertInLoopThread_same [simp]: "assertInLoopThread l l r = r"
  by (simp add: assertInLoopThread_def)

text \<open>Writing 1 to the event descriptor adds to its counter, reading it resets the counter.\<close>

definition EventLoop_wakeup :: "'f EventLoop \<Rightarrow> 'f EventLoop" where
  "EventLoop_wakeup s = s\<lparr>wakeup_count := wakeup_count s + 1\<rparr>"

definition EventLoop_handleRead :: "'f EventLoop \<Rightarrow> 'f EventLoop" where
  "EventLoop_handleRead s = s\<lparr>wakeup_count := 0\<rparr>"

definition set_phase :: "thread \<Rightarrow> phase \<Rightarrow> 'f EventLoop \<Rightarrow> 'f EventLoop" where
  "set_phase t p s = s\<lparr>phase_of := (phase_of s)(t := p)\<rparr>"

definition QueueInLoop_push :: "thread \<Rightarrow> 'f \<Rightarrow> 'f EventLoop \<Rightarrow> 'f EventLoop" where
  "QueueInLoop_push t f s =
     set_phase t Pushed (s\<lparr>pendingFunctors := pendingFunctors s @ [f], queued_log := queued_log s @ [f],
       early := (early s \<or> t = LoopThread \<and> pc s = NotStarted)\<rparr>)"

definition QueueInLoop_wake :: "thread \<Rightarrow> 'f EventLoop \<Rightarrow> 'f EventLoop" where
  "QueueInLoop_wake t s =
     set_phase t Idle (if \<not> isInLoopThread t \<or> callingPendingFunctors s then EventLoop_wakeup s else s)"

definition stop_set :: "thread \<Rightarrow> 'f EventLoop \<Rightarrow> 'f EventLoop" where
  "stop_set t s = set_phase t QuitSet (s\<lparr>quit := True\<rparr>)"

definition stop_wake :: "thread \<Rightarrow> 'f EventLoop \<Rightarrow> 'f EventLoop" where
  "stop_wake t s = set_phase t Idle (if \<not> isInLoopThread t then EventLoop_wakeup s else s)"

definition loop_start :: "'f EventLoop \<Rightarrow> 'f EventLoop" where
  "loop_start s = (if quit s = False then s\<lparr>pc := AtTest\<rparr> else s\<lparr>pc := Aborted\<rparr>)"

definition loop_test :: "'f EventLoop \<Rightarrow> 'f EventLoop" where
  "loop_test s = (if quit s \<noteq> True then s\<lparr>pc := Polling\<rparr> else s\<lparr>pc := Exited\<rparr>)"

text \<open>
  \<open>doPendingFunctors\<close>: the flag, the swap under the mutex, the functors one by one, the flag.
\<close>

definition pending_begin :: "'f EventLoop \<Rightarrow> 'f EventLoop" where
  "pending_begin s = s\<lparr>callingPendingFunctors := True, pc := AtSwap\<rparr>"

definition pending_swap :: "'f EventLoop \<Rightarrow> 'f EventLoop" where
  "pending_swap s = s\<lparr>pc := Running (pendingFunctors s), pendingFunctors := [], early := False\<rparr>"

definition pending_end :: "'f EventLoop \<Rightarrow> 'f EventLoop" where
  "pending_end s = s\<lparr>callingPendingFunctors := False, pc := AtTest\<rparr>"

text \<open>Where the loop thread runs code that can queue functors and stop the loop.\<close>

fun in_callback :: "'f loop_pc \<Rightarrow> bool" where
  "in_callback NotStarted = True"
| "in_callback (Handling _) = True"
| "in_callback (Running (f # fs)) = True"
| "in_callback _ = False"

definition may_call :: "thread \<Rightarrow> 'f EventLoop \<Rightarrow> bool" where
  "may_call t s \<longleftrightarrow> phase_of s t = Idle \<and> (t = LoopThread \<longrightarrow> in_callback (pc s))"

section \<open>The steps\<close>

text \<open>
  \<open>epoll_wait\<close> can return whenever it likes, since other descriptors may be ready; the wakeup
  channel is among the active ones only if its counter is not zero. The loop thread goes on
  only when it is in no call of its own.
\<close>

inductive el_step :: "'f EventLoop \<Rightarrow> 'f EventLoop \<Rightarrow> bool" where
  Push: "may_call t s \<Longrightarrow> el_step s (QueueInLoop_push t f s)"
| Wake: "phase_of s t = Pushed \<Longrightarrow> el_step s (QueueInLoop_wake t s)"
| StopSet: "may_call t s \<Longrightarrow> el_step s (stop_set t s)"
| StopWake: "phase_of s t = QuitSet \<Longrightarrow> el_step s (stop_wake t s)"
| Start: "pc s = NotStarted \<Longrightarrow> phase_of s LoopThread = Idle \<Longrightarrow> el_step s (loop_start s)"
| Test: "pc s = AtTest \<Longrightarrow> el_step s (loop_test s)"
| Poll: "pc s = Polling \<Longrightarrow> b \<longrightarrow> 0 < wakeup_count s \<Longrightarrow> el_step s (s\<lparr>pc := Handling b\<rparr>)"
| HandleWakeup: "pc s = Handling True \<Longrightarrow> phase_of s LoopThread = Idle \<Longrightarrow>
    el_step s ((EventLoop_handleRead s)\<lparr>pc := Handling False\<rparr>)"
| Handled: "pc s = Handling False \<Longrightarrow> phase_of s LoopThread = Idle \<Longrightarrow> el_step s (s\<lparr>pc := AtDo\<rparr>)"
| DoBegin: "pc s = AtDo \<Longrightarrow> el_step s (pending_begin s)"
| Swap: "pc s = AtSwap \<Longrightarrow> el_step s (pending_swap s)"
| Ran: "pc s = Running (f # fs) \<Longrightarrow> phase_of s LoopThread = Idle \<Longrightarrow>
    el_step s (s\<lparr>pc := Running fs, ran_log := ran_log s @ [f]\<rparr>)"
| DoEnd: "pc s = Running [] \<Longrightarrow> el_step s (pending_end s)"

inductive_cases el_stepE: "el_step s s'"

definition reachable :: "'f EventLoop \<Rightarrow> bool" where
  "reachable s \<longleftrightarrow> el_step\<^sup>*\<^sup>* EventLoop_new s"

lemmas el_defs = QueueInLoop_push_def QueueInLoop_wake_def stop_set_def stop_wake_def loop_start_def
  loop_test_def pending_begin_def pending_swap_def pending_end_def EventLoop_wakeup_def
  EventLoop_handleRead_def set_phase_def isInLoopThread_def

section \<open>The invariant\<close>

fun taken :: "'f loop_pc \<Rightarrow> 'f list" where
  "taken (Running fs) = fs"
| "taken _ = []"

text \<open>A thread that will write to the event descriptor before it does anything else.\<close>

definition waking :: "thread \<Rightarrow> 'f EventLoop \<Rightarrow> bool" where
  "waking t s \<longleftrightarrow> (if t = LoopThread then phase_of s t = Pushed \<and> callingPendingFunctors s
                   else phase_of s t \<noteq> Idle)"

definition woken :: "'f EventLoop \<Rightarrow> bool" where
  "woken s \<longleftrightarrow> 0 < wakeup_count s \<or> (\<exists>t. waking t s)"

definition past_swap :: "'f loop_pc \<Rightarrow> bool" where
  "past_swap p \<longleftrightarrow> p = NotStarted \<or> p = AtTest \<or> p = Polling \<or> (\<exists>fs. p = Running fs)"

definition el_inv :: "'f EventLoop \<Rightarrow> bool" where
  "el_inv s \<longleftrightarrow>
     queued_log s = ran_log s @ taken (pc s) @ pendingFunctors s
     \<and> (callingPendingFunctors s \<longleftrightarrow> pc s = AtSwap \<or> (\<exists>fs. pc s = Running fs))
     \<and> (phase_of s LoopThread \<noteq> Idle \<longrightarrow> in_callback (pc s))
     \<and> (past_swap (pc s) \<and> pendingFunctors s \<noteq> [] \<and> \<not> early s \<longrightarrow> woken s)
     \<and> (pc s = Polling \<and> quit s \<longrightarrow> woken s)"

lemma set_phase_simps [simp]:
  "pc (set_phase t p s) = pc s" "quit (set_phase t p s) = quit s"
  "callingPendingFunctors (set_phase t p s) = callingPendingFunctors s"
  "pendingFunctors (set_phase t p s) = pendingFunctors s" "early (set_phase t p s) = early s"
  "queued_log (set_phase t p s) = queued_log s" "ran_log (set_phase t p s) = ran_log s"
  "phase_of (set_phase t p s) u = (if u = t then p else phase_of s u)"
  by (simp_all add: set_phase_def)

lemma wakeup_simps [simp]:
  "pc (EventLoop_wakeup s) = pc s" "quit (EventLoop_wakeup s) = quit s"
  "callingPendingFunctors (EventLoop_wakeup s) = callingPendingFunctors s"
  "pendingFunctors (EventLoop_wakeup s) = pendingFunctors s" "early (EventLoop_wakeup s) = early s"
  "queued_log (EventLoop_wakeup s) = queued_log s" "ran_log (EventLoop_wakeup s) = ran_log s"
  "phase_of (EventLoop_wakeup s) = phase_of s"
  by (simp_all add: EventLoop_wakeup_def)

lemma woken_wakeup: "woken (set_phase t p (EventLoop_wakeup s))"
  by (simp add: woken_def set_phase_def EventLoop_wakeup_def)

lemma el_inv_new: "el_inv EventLoop_new"
  by (simp add: el_inv_def EventLoop_new_def)

lemma in_callback_cases:
  "in_callback p \<longleftrightarrow> p = NotStarted \<or> (\<exists>b. p = Handling b) \<or> (\<exists>f fs. p = Running (f # fs))"
  by (cases p rule: in_callback.cases) auto

lemma inv_push:
  assumes "el_inv s" and "may_call t s"
  shows "el_inv (QueueInLoop_push t f s)"
proof -
  have w: "waking t (QueueInLoop_push t f s)" if "\<not> early (QueueInLoop_push t f s)" "past_swap (pc s)"
    using assms that by (auto simp: el_defs waking_def may_call_def el_inv_def in_callback_cases past_swap_def)
  have p: "woken (QueueInLoop_push t f s)" if "pc s = Polling"
    using assms(2) that by (auto simp: el_defs woken_def waking_def may_call_def)
  have simps: "pc (QueueInLoop_push t f s) = pc s" "quit (QueueInLoop_push t f s) = quit s"
    "ran_log (QueueInLoop_push t f s) = ran_log s" "queued_log (QueueInLoop_push t f s) = queued_log s @ [f]"
    "pendingFunctors (QueueInLoop_push t f s) = pendingFunctors s @ [f]"
    "callingPendingFunctors (QueueInLoop_push t f s) = callingPendingFunctors s"
    "phase_of (QueueInLoop_push t f s) LoopThread \<noteq> Idle \<Longrightarrow> phase_of s LoopThread \<noteq> Idle \<or> t = LoopThread"
    by (auto simp: el_defs split: if_splits)
  note i = assms(1) [unfolded el_inv_def] and m = assms(2) [unfolded may_call_def]
  show ?thesis
    unfolding el_inv_def simps(1-6)
  proof (intro conjI)
    show "queued_log s @ [f] = ran_log s @ taken (pc s) @ pendingFunctors s @ [f]" using i by simp
    show "phase_of (QueueInLoop_push t f s) LoopThread \<noteq> Idle \<longrightarrow> in_callback (pc s)"
      using i m simps(7) by blast
    show "past_swap (pc s) \<and> pendingFunctors s @ [f] \<noteq> [] \<and> \<not> early (QueueInLoop_push t f s)
      \<longrightarrow> woken (QueueInLoop_push t f s)"
      using w by (auto simp: woken_def)
    show "pc s = Polling \<and> quit s \<longrightarrow> woken (QueueInLoop_push t f s)" using p by blast
  qed (use i in blast)
qed

lemma inv_wake:
  assumes "el_inv s" and "phase_of s t = Pushed"
  shows "el_inv (QueueInLoop_wake t s)"
proof (cases "\<not> isInLoopThread t \<or> callingPendingFunctors s")
  case True
  then have e: "QueueInLoop_wake t s = set_phase t Idle (EventLoop_wakeup s)"
    by (simp add: QueueInLoop_wake_def)
  show ?thesis using assms unfolding e el_inv_def
    by (simp add: woken_wakeup)
next
  case False
  then have e: "QueueInLoop_wake t s = set_phase LoopThread Idle s" and t: "t = LoopThread"
    by (simp_all add: QueueInLoop_wake_def isInLoopThread_def)
  have "woken (set_phase LoopThread Idle s) \<longleftrightarrow> woken s"
    using False by (auto simp: woken_def waking_def el_defs)
  with assms show ?thesis unfolding e el_inv_def by simp
qed

lemma inv_stop_set:
  assumes "el_inv s" and "may_call t s"
  shows "el_inv (stop_set t s)"
proof -
  have p: "waking t (stop_set t s)" if "pc s = Polling"
    using assms that by (auto simp: el_defs waking_def may_call_def)
  have c: "wakeup_count (stop_set t s) = wakeup_count s" by (simp add: el_defs)
  have "waking u s \<Longrightarrow> waking u (stop_set t s)" for u
    using assms(2) by (auto simp: stop_set_def waking_def may_call_def split: if_splits)
  then have k: "woken (stop_set t s)" if "woken s"
    using that unfolding woken_def c by blast
  have simps: "pc (stop_set t s) = pc s" "ran_log (stop_set t s) = ran_log s" "queued_log (stop_set t s) = queued_log s"
    "pendingFunctors (stop_set t s) = pendingFunctors s" "early (stop_set t s) = early s"
    "callingPendingFunctors (stop_set t s) = callingPendingFunctors s"
    "phase_of (stop_set t s) LoopThread \<noteq> Idle \<Longrightarrow> phase_of s LoopThread \<noteq> Idle \<or> t = LoopThread"
    by (auto simp: el_defs split: if_splits)
  note i = assms(1) [unfolded el_inv_def] and m = assms(2) [unfolded may_call_def]
  show ?thesis
    unfolding el_inv_def simps(1-6)
  proof (intro conjI)
    show "phase_of (stop_set t s) LoopThread \<noteq> Idle \<longrightarrow> in_callback (pc s)"
      using i m simps(7) by blast
    show "past_swap (pc s) \<and> pendingFunctors s \<noteq> [] \<and> \<not> early s \<longrightarrow> woken (stop_set t s)"
      using i k by blast
    show "pc s = Polling \<and> quit (stop_set t s) \<longrightarrow> woken (stop_set t s)"
      using p by (auto simp: woken_def)
  qed (use i in blast)+
qed

lemma inv_stop_wake:
  assumes "el_inv s" and "phase_of s t = QuitSet"
  shows "el_inv (stop_wake t s)"
proof (cases "isInLoopThread t")
  case False
  then have e: "stop_wake t s = set_phase t Idle (EventLoop_wakeup s)"
    by (simp add: stop_wake_def)
  show ?thesis using assms unfolding e el_inv_def
    by (simp add: woken_wakeup)
next
  case True
  then have e: "stop_wake t s = set_phase LoopThread Idle s" and t: "t = LoopThread"
    by (simp_all add: stop_wake_def isInLoopThread_def)
  have "woken (set_phase LoopThread Idle s) \<longleftrightarrow> woken s"
    using assms(2) t by (auto simp: woken_def waking_def el_defs)
  with assms show ?thesis unfolding e el_inv_def by simp
qed

lemma woken_pc [simp]: "woken (s\<lparr>pc := p\<rparr>) = woken s"
  "woken (s\<lparr>pc := p, ran_log := l\<rparr>) = woken s"
  "woken (s\<lparr>pc := p, pendingFunctors := q, early := b\<rparr>) = woken s"
  by (simp_all add: woken_def waking_def)

lemma woken_flag: "phase_of s LoopThread = Idle \<Longrightarrow> woken (s\<lparr>callingPendingFunctors := b\<rparr>) = woken s"
  by (auto simp: woken_def waking_def)

lemma el_inv_step:
  assumes "el_inv s" and "el_step s s'"
  shows "el_inv s'"
  using assms(2)
proof (cases rule: el_step.cases)
  case (Push t f)
  with inv_push [OF assms(1)] show ?thesis by simp
next
  case (Wake t)
  with inv_wake [OF assms(1)] show ?thesis by simp
next
  case (StopSet t)
  with inv_stop_set [OF assms(1)] show ?thesis by simp
next
  case (StopWake t)
  with inv_stop_wake [OF assms(1)] show ?thesis by simp
next
  case Start
  with assms(1) show ?thesis by (auto simp: loop_start_def el_inv_def past_swap_def)
next
  case Test
  with assms(1) show ?thesis by (auto simp: loop_test_def el_inv_def past_swap_def)
next
  case (Poll b)
  with assms(1) show ?thesis by (auto simp: el_inv_def past_swap_def)
next
  case HandleWakeup
  with assms(1) show ?thesis by (auto simp: EventLoop_handleRead_def el_inv_def past_swap_def)
next
  case Handled
  with assms(1) show ?thesis by (auto simp: el_inv_def past_swap_def)
next
  case DoBegin
  with assms(1) show ?thesis by (auto simp: pending_begin_def el_inv_def past_swap_def)
next
  case Swap
  with assms(1) show ?thesis by (auto simp: pending_swap_def el_inv_def past_swap_def)
next
  case (Ran f fs)
  with assms(1) show ?thesis by (auto simp: el_inv_def past_swap_def)
next
  case DoEnd
  with assms(1) have "phase_of s LoopThread = Idle" by (auto simp: el_inv_def)
  then have "woken (s\<lparr>callingPendingFunctors := False, pc := AtTest\<rparr>) = woken s"
    using woken_flag woken_pc(1) by metis
  with DoEnd assms(1) show ?thesis by (auto simp: pending_end_def el_inv_def past_swap_def simp del: woken_pc)
qed

lemma reachable_inv: "reachable s \<Longrightarrow> el_inv s"
  unfolding reachable_def by (induction rule: rtranclp_induct) (auto intro: el_inv_new el_inv_step)

section \<open>The loop thread on its own\<close>

text \<open>From \<open>AtDo\<close>, with nobody in a call: the functors queued so far are run, in order.\<close>

lemma run_all:
  assumes "pc s = Running fs" and "phase_of s LoopThread = Idle"
  shows "el_step\<^sup>*\<^sup>* s (s\<lparr>pc := Running [], ran_log := ran_log s @ fs\<rparr>)"
  using assms
proof (induction fs arbitrary: s)
  case Nil
  then have "s\<lparr>pc := Running [], ran_log := ran_log s @ []\<rparr> = s" by simp
  then show ?case by simp
next
  case (Cons f fs)
  let ?s = "s\<lparr>pc := Running fs, ran_log := ran_log s @ [f]\<rparr>"
  have "el_step s ?s" using Ran [OF Cons.prems] .
  moreover have "el_step\<^sup>*\<^sup>* ?s (?s\<lparr>pc := Running [], ran_log := ran_log ?s @ fs\<rparr>)"
    using Cons.IH [of ?s] Cons.prems(2) by simp
  ultimately show ?case by (simp add: converse_rtranclp_into_rtranclp)
qed

lemma do_pending:
  assumes "pc s = AtDo" and "phase_of s LoopThread = Idle"
  obtains s' where "el_step\<^sup>*\<^sup>* s s'" "pc s' = AtTest" "ran_log s' = ran_log s @ pendingFunctors s"
    "pendingFunctors s' = []" "quit s' = quit s"
proof -
  let ?a = "pending_begin s" and ?b = "pending_swap (pending_begin s)"
  let ?c = "?b\<lparr>pc := Running [], ran_log := ran_log ?b @ pendingFunctors s\<rparr>"
  have "el_step s ?a" using DoBegin [OF assms(1)] .
  moreover have "el_step ?a ?b" by (rule Swap) (simp add: pending_begin_def)
  moreover have "el_step\<^sup>*\<^sup>* ?b ?c"
    by (rule run_all) (simp_all add: pending_begin_def pending_swap_def assms(2))
  moreover have "el_step ?c (pending_end ?c)" by (rule DoEnd) simp
  ultimately have "el_step\<^sup>*\<^sup>* s (pending_end ?c)"
    by (meson converse_rtranclp_into_rtranclp rtranclp.rtrancl_into_rtrancl)
  then show thesis
    by (rule that) (simp_all add: pending_begin_def pending_swap_def pending_end_def)
qed

lemma poll_handle:
  assumes "pc s = Polling" and "phase_of s LoopThread = Idle" and "0 < wakeup_count s"
  obtains s' where "el_step\<^sup>*\<^sup>* s s'" "pc s' = AtDo" "ran_log s' = ran_log s" "phase_of s' = phase_of s"
    "pendingFunctors s' = pendingFunctors s" "quit s' = quit s"
proof -
  let ?a = "s\<lparr>pc := Handling True\<rparr>"
  let ?b = "(EventLoop_handleRead ?a)\<lparr>pc := Handling False\<rparr>"
  have "el_step s ?a" by (rule Poll) (simp_all add: assms)
  moreover have "el_step ?a ?b" by (rule HandleWakeup) (simp_all add: assms)
  moreover have "el_step ?b (?b\<lparr>pc := AtDo\<rparr>)"
    by (rule Handled) (simp_all add: assms EventLoop_handleRead_def)
  ultimately have "el_step\<^sup>*\<^sup>* s (?b\<lparr>pc := AtDo\<rparr>)"
    by (meson converse_rtranclp_into_rtranclp rtranclp.rtrancl_refl)
  then show thesis
    by (rule that) (simp_all add: EventLoop_handleRead_def)
qed

lemma woken_idle: "woken s \<Longrightarrow> \<forall>t. phase_of s t = Idle \<Longrightarrow> 0 < wakeup_count s"
  by (auto simp: woken_def waking_def split: if_splits)

section \<open>A loop that nothing else wakes\<close>

text \<open>
  The loop thread while no other descriptor is ready and no other thread moves: it finishes a call it is
  in, and it stays in \<open>epoll_wait\<close> (\<open>None\<close>) as long as the event descriptor is not readable. What it does is a
  function of the state.
\<close>

definition loop_next :: "'f EventLoop \<Rightarrow> 'f EventLoop option" where
  "loop_next s =
     (case phase_of s LoopThread of
        Pushed \<Rightarrow> Some (QueueInLoop_wake LoopThread s)
      | QuitSet \<Rightarrow> Some (stop_wake LoopThread s)
      | Idle \<Rightarrow>
          (case pc s of
             NotStarted \<Rightarrow> Some (loop_start s)
           | AtTest \<Rightarrow> Some (loop_test s)
           | Polling \<Rightarrow> if 0 < wakeup_count s then Some (s\<lparr>pc := Handling True\<rparr>) else None
           | Handling True \<Rightarrow> Some ((EventLoop_handleRead s)\<lparr>pc := Handling False\<rparr>)
           | Handling False \<Rightarrow> Some (s\<lparr>pc := AtDo\<rparr>)
           | AtDo \<Rightarrow> Some (pending_begin s)
           | AtSwap \<Rightarrow> Some (pending_swap s)
           | Running [] \<Rightarrow> Some (pending_end s)
           | Running (f # fs) \<Rightarrow> Some (s\<lparr>pc := Running fs, ran_log := ran_log s @ [f]\<rparr>)
           | Exited \<Rightarrow> None
           | Aborted \<Rightarrow> None))"

fun loop_run :: "nat \<Rightarrow> 'f EventLoop \<Rightarrow> 'f EventLoop" where
  "loop_run 0 s = s"
| "loop_run (Suc k) s = (case loop_next s of None \<Rightarrow> s | Some t \<Rightarrow> loop_run k t)"

lemma loop_next_step: "loop_next s = Some t \<Longrightarrow> el_step s t"
  by (auto simp: loop_next_def intro: el_step.intros
      split: phase.splits loop_pc.splits bool.splits list.splits if_splits)

lemma loop_run_steps: "el_step\<^sup>*\<^sup>* s (loop_run k s)"
proof (induction k arbitrary: s)
  case (Suc k)
  show ?case
  proof (cases "loop_next s")
    case (Some t)
    with Suc [of t] loop_next_step [OF Some] show ?thesis by (simp add: converse_rtranclp_into_rtranclp)
  qed simp
qed simp

lemma quit_stays: "el_step\<^sup>*\<^sup>* s t \<Longrightarrow> quit s \<Longrightarrow> quit t"
proof (induction rule: rtranclp_induct)
  case (step t u)
  from step.hyps(2) step.IH [OF step.prems] show ?case by (cases rule: el_step.cases) (auto simp: el_defs)
qed

text \<open>What the loop still runs once \<open>quit_\<close> is set, and how far it is from the end.\<close>

fun runs_before_exit :: "'f EventLoop \<Rightarrow> 'f list" where
  "runs_before_exit s = (case pc s of AtTest \<Rightarrow> [] | Exited \<Rightarrow> [] | Running fs \<Rightarrow> fs | _ \<Rightarrow> pendingFunctors s)"

fun exit_rank :: "'f EventLoop \<Rightarrow> nat" where
  "exit_rank s = (case pc s of Exited \<Rightarrow> 0 | AtTest \<Rightarrow> 1 | Running fs \<Rightarrow> 2 + length fs
     | AtSwap \<Rightarrow> 3 + length (pendingFunctors s) | AtDo \<Rightarrow> 4 + length (pendingFunctors s)
     | Handling False \<Rightarrow> 5 + length (pendingFunctors s) | Handling True \<Rightarrow> 6 + length (pendingFunctors s)
     | _ \<Rightarrow> 7 + length (pendingFunctors s))"

definition ready_to_exit :: "'f EventLoop \<Rightarrow> bool" where
  "ready_to_exit s \<longleftrightarrow> quit s \<and> phase_of s LoopThread = Idle \<and> pc s \<noteq> NotStarted \<and> pc s \<noteq> Aborted
     \<and> (pc s = Polling \<longrightarrow> 0 < wakeup_count s)"

lemma exit_progress:
  assumes "ready_to_exit s" and "pc s \<noteq> Exited"
  shows "\<exists>t. loop_next s = Some t \<and> ready_to_exit t \<and> exit_rank t < exit_rank s
    \<and> ran_log t @ runs_before_exit t = ran_log s @ runs_before_exit s"
proof (cases "pc s")
  case (Handling b)
  with assms show ?thesis by (cases b) (simp_all add: ready_to_exit_def loop_next_def el_defs)
next
  case (Running fs)
  with assms show ?thesis by (cases fs) (simp_all add: ready_to_exit_def loop_next_def el_defs)
qed (use assms in \<open>simp_all add: ready_to_exit_def loop_next_def el_defs\<close>)

lemma loop_exits:
  assumes "ready_to_exit s" and "exit_rank s \<le> k"
  shows "pc (loop_run k s) = Exited \<and> ran_log (loop_run k s) = ran_log s @ runs_before_exit s"
  using assms
proof (induction k arbitrary: s)
  case 0
  then have "pc s = Exited" by (auto simp: ready_to_exit_def split: loop_pc.splits bool.splits)
  then show ?case by simp
next
  case (Suc k)
  show ?case
  proof (cases "pc s = Exited")
    case True
    with Suc.prems(1) show ?thesis by (simp add: ready_to_exit_def loop_next_def)
  next
    case False
    obtain t where "loop_next s = Some t" "ready_to_exit t" "exit_rank t < exit_rank s"
      "ran_log t @ runs_before_exit t = ran_log s @ runs_before_exit s"
      using exit_progress [OF Suc.prems(1) False] by blast
    with Suc.IH [of t] Suc.prems(2) show ?thesis by simp
  qed
qed

section \<open>Properties\<close>

text \<open>
  C10. No wakeup is lost: whenever the loop thread sits in \<open>epoll_wait\<close> although functors are
  pending or \<open>quit_\<close> is set, the event descriptor is readable, or a thread is about to write to
  it. The exception is a functor the loop thread itself queued before it entered \<open>loop()\<close>.
\<close>

theorem EventLoop_no_lost_wakeup:
  assumes "reachable s" and "pc s = Polling"
    and "pendingFunctors s \<noteq> [] \<and> \<not> early s \<or> quit s"
  shows "0 < wakeup_count s \<or> (\<exists>t. t \<noteq> LoopThread \<and> phase_of s t \<noteq> Idle)"
proof -
  have i: "el_inv s" using assms(1) by (rule reachable_inv)
  then have "\<not> callingPendingFunctors s" using assms(2) by (simp add: el_inv_def)
  moreover from i have "woken s" using assms(2,3) by (auto simp: el_inv_def past_swap_def)
  ultimately show ?thesis by (auto simp: woken_def waking_def split: if_splits)
qed

text \<open>Another thread has pushed a functor while the loop sits in \<open>epoll_wait\<close>.\<close>

definition pushed_state :: "'f \<Rightarrow> 'f EventLoop" where
  "pushed_state f = QueueInLoop_push (Other 1) f (loop_test (loop_start EventLoop_new))"

lemma polling_reachable: "el_step\<^sup>*\<^sup>* EventLoop_new (loop_test (loop_start EventLoop_new))"
proof -
  have "el_step EventLoop_new (loop_start EventLoop_new)"
    by (rule Start) (simp_all add: EventLoop_new_def)
  moreover have "el_step (loop_start EventLoop_new) (loop_test (loop_start EventLoop_new))"
    by (rule Test) (simp add: loop_start_def EventLoop_new_def)
  ultimately show ?thesis by (meson converse_rtranclp_into_rtranclp rtranclp.rtrancl_refl)
qed

lemma pushed_reachable: "reachable (pushed_state f)"
proof -
  have "may_call (Other 1) (loop_test (loop_start EventLoop_new))"
    by (simp add: may_call_def loop_test_def loop_start_def EventLoop_new_def)
  then have "el_step (loop_test (loop_start EventLoop_new)) (pushed_state f)"
    unfolding pushed_state_def by (rule Push)
  with polling_reachable show ?thesis
    unfolding reachable_def by (rule rtranclp.rtrancl_into_rtrancl)
qed

lemma pushed_simps:
  "pc (pushed_state f) = Polling" "pendingFunctors (pushed_state f) = [f]" "\<not> early (pushed_state f)"
  "wakeup_count (pushed_state f) = 0" "ran_log (pushed_state f) = []" "queued_log (pushed_state f) = [f]"
  "phase_of (pushed_state f) = (\<lambda>_. Idle)(Other 1 := Pushed)" "callingPendingFunctors (pushed_state f) = False"
  by (simp_all add: pushed_state_def QueueInLoop_push_def set_phase_def loop_test_def loop_start_def EventLoop_new_def)

theorem EventLoop_no_lost_wakeup_witness:
  "\<exists>t. t \<noteq> LoopThread \<and> phase_of (pushed_state ''task'') t \<noteq> Idle"
  using EventLoop_no_lost_wakeup [OF pushed_reachable, of "''task''"] by (simp add: pushed_simps)

text \<open>
  C19. Every functor is run exactly once and in the order in which the functors were queued: in
  every reachable state the functors queued so far are those that have run, then those the loop
  has taken, then those still pending.
\<close>

theorem EventLoop_functors_once_in_order:
  assumes "reachable s"
  shows "queued_log s = ran_log s @ taken (pc s) @ pendingFunctors s"
  using reachable_inv [OF assms] by (simp add: el_inv_def)

theorem EventLoop_functors_once_in_order_witness:
  "queued_log (pushed_state ''task'') = ran_log (pushed_state ''task'') @ taken (pc (pushed_state ''task''))
     @ pendingFunctors (pushed_state ''task'')"
  using EventLoop_functors_once_in_order [OF pushed_reachable] .

text \<open>The other thread has come to the end of \<open>QueueInLoop\<close>.\<close>

definition queued_state :: "'f \<Rightarrow> 'f EventLoop" where
  "queued_state f = QueueInLoop_wake (Other 1) (pushed_state f)"

lemma queued_reachable: "reachable (queued_state f)"
proof -
  have "el_step (pushed_state f) (queued_state f)"
    unfolding queued_state_def by (rule Wake) (simp add: pushed_simps)
  with pushed_reachable [of f] show ?thesis
    unfolding reachable_def by (meson rtranclp.rtrancl_into_rtrancl)
qed

lemma queued_simps:
  "pc (queued_state f) = Polling" "pendingFunctors (queued_state f) = [f]" "\<not> early (queued_state f)"
  "ran_log (queued_state f) = []" "\<forall>t. phase_of (queued_state f) t = Idle"
  by (simp_all add: queued_state_def QueueInLoop_wake_def pushed_simps isInLoopThread_def)

text \<open>
  A sleeping loop runs what is queued for it: when the loop thread sits in \<open>epoll_wait\<close>,
  functors are pending and no thread is inside a call, then \<open>epoll_wait\<close> returns with the wakeup
  channel, and the loop thread alone comes to run all pending functors, in order.
\<close>

theorem EventLoop_pending_functors_run:
  assumes "reachable s" and "pc s = Polling" and "pendingFunctors s \<noteq> []" and "\<not> early s"
    and "\<forall>t. phase_of s t = Idle"
  shows "0 < wakeup_count s \<and> (\<exists>s'. el_step\<^sup>*\<^sup>* s s' \<and> ran_log s' = ran_log s @ pendingFunctors s
    \<and> pendingFunctors s' = [] \<and> pc s' = AtTest)"
proof -
  have "woken s"
    using reachable_inv [OF assms(1)] assms(2-4) by (simp add: el_inv_def past_swap_def)
  then have w: "0 < wakeup_count s" using assms(5) by (rule woken_idle)
  obtain s1 where s1: "el_step\<^sup>*\<^sup>* s s1" "pc s1 = AtDo" "ran_log s1 = ran_log s" "phase_of s1 = phase_of s"
    "pendingFunctors s1 = pendingFunctors s"
    using poll_handle [OF assms(2) _ w] assms(5) by metis
  obtain s' where s': "el_step\<^sup>*\<^sup>* s1 s'" "pc s' = AtTest" "ran_log s' = ran_log s1 @ pendingFunctors s1"
    "pendingFunctors s' = []"
    using do_pending [OF s1(2)] s1(4) assms(5) by metis
  from s1(1) s'(1) have "el_step\<^sup>*\<^sup>* s s'" by (rule rtranclp_trans)
  with s' s1 w show ?thesis by auto
qed

theorem EventLoop_pending_functors_run_witness:
  "\<exists>s'. el_step\<^sup>*\<^sup>* (queued_state ''task'') s' \<and> ran_log s' = [''task''] \<and> pendingFunctors s' = []"
  using EventLoop_pending_functors_run [OF queued_reachable, of "''task''"] queued_simps [of "''task''"] by auto

text \<open>
  C22. \<open>stop\<close> ends the loop. When any thread calls \<open>stop\<close>, whatever the threads do from its first step on and
  wherever the loop thread is by then inside \<open>loop()\<close>: once no thread is inside a call any more, the loop thread
  leaves \<open>loop()\<close> on its own, in at most as many steps as there are functors pending or taken and seven more. No
  other descriptor need become ready; if the loop sleeps in \<open>epoll_wait\<close>, it is the write of \<open>stop\<close> to the event
  descriptor, or another such write, that wakes it. On the way it runs exactly the functors it has taken, or, when it
  sleeps or has not swapped yet, those pending.
\<close>

theorem EventLoop_stop_ends_loop:
  assumes "reachable s" and "may_call t s" and "el_step\<^sup>*\<^sup>* (stop_set t s) u"
    and "\<forall>v. phase_of u v = Idle" and "pc u \<noteq> NotStarted" and "pc u \<noteq> Aborted"
  shows "el_step\<^sup>*\<^sup>* u (loop_run (7 + length (taken (pc u) @ pendingFunctors u)) u)
    \<and> pc (loop_run (7 + length (taken (pc u) @ pendingFunctors u)) u) = Exited
    \<and> ran_log (loop_run (7 + length (taken (pc u) @ pendingFunctors u)) u) = ran_log u @ runs_before_exit u"
proof -
  have "el_step s (stop_set t s)" using assms(2) by (rule StopSet)
  then have "reachable u"
    using assms(1,3) unfolding reachable_def by (meson rtranclp.rtrancl_into_rtrancl rtranclp_trans)
  then have i: "el_inv u" by (rule reachable_inv)
  have q: "quit u" by (rule quit_stays [OF assms(3)]) (simp add: el_defs)
  have "0 < wakeup_count u" if "pc u = Polling"
    using woken_idle [OF _ assms(4)] i q that by (simp add: el_inv_def)
  then have r: "ready_to_exit u" using q assms(4-6) by (simp add: ready_to_exit_def)
  have "exit_rank u \<le> 7 + length (taken (pc u) @ pendingFunctors u)"
    by (auto split: loop_pc.splits bool.splits)
  from loop_exits [OF r this] loop_run_steps show ?thesis by blast
qed

definition stopped_state :: "'f \<Rightarrow> 'f EventLoop" where
  "stopped_state f = stop_wake (Other 2) (stop_set (Other 2) (queued_state f))"

theorem EventLoop_stop_ends_loop_witness:
  "pc (stopped_state ''task'') = Polling
    \<and> pc (loop_run 8 (stopped_state ''task'')) = Exited \<and> ran_log (loop_run 8 (stopped_state ''task'')) = [''task'']"
proof -
  let ?u = "stopped_state ''task''"
  have "may_call (Other 2) (queued_state ''task'')" by (simp add: may_call_def queued_simps)
  moreover have "el_step (stop_set (Other 2) (queued_state ''task'')) ?u"
    unfolding stopped_state_def by (rule StopWake) (simp add: stop_set_def)
  moreover have u: "\<forall>v. phase_of ?u v = Idle" "pc ?u = Polling" "pendingFunctors ?u = [''task'']" "ran_log ?u = []"
    by (simp_all add: stopped_state_def stop_wake_def stop_set_def queued_simps isInLoopThread_def)
  ultimately show ?thesis
    using EventLoop_stop_ends_loop [OF queued_reachable, of "Other 2" "''task''" ?u]
    by (simp add: r_into_rtranclp del: loop_run.simps)
qed

text \<open>
  \<open>stop\<close> before \<open>loop()\<close> aborts: if \<open>quit_\<close> is set while the loop thread has not entered
  \<open>loop()\<close> yet, the step that enters it fails the assertion there. Another thread can bring this
  about: \<open>EventLoopThread::stopLoop\<close> calls \<open>stop\<close> as soon as the loop object exists.
\<close>

theorem EventLoop_stop_before_loop_aborts:
  assumes "reachable s" and "pc s = NotStarted" and "quit s" and "el_step s s'" and "pc s' \<noteq> NotStarted"
  shows "pc s' = Aborted"
  using assms(4)
proof (cases rule: el_step.cases)
  case Start
  with assms(3) show ?thesis by (simp add: loop_start_def)
qed (use assms(2,5) in \<open>auto simp: QueueInLoop_push_def QueueInLoop_wake_def stop_set_def stop_wake_def split: if_splits\<close>)

theorem EventLoop_stop_before_loop_aborts_witness:
  "\<exists>s s'. reachable (s :: string EventLoop) \<and> el_step s s' \<and> pc s' = Aborted"
proof -
  let ?s = "stop_set (Other 2) (EventLoop_new :: string EventLoop)"
  have "el_step (EventLoop_new :: string EventLoop) ?s"
    by (rule StopSet) (simp add: may_call_def EventLoop_new_def)
  then have r: "reachable ?s" by (simp add: reachable_def)
  have p: "pc ?s = NotStarted" "quit ?s" by (simp_all add: stop_set_def set_phase_def EventLoop_new_def)
  have s: "el_step ?s (loop_start ?s)"
    by (rule Start) (simp_all add: stop_set_def EventLoop_new_def)
  have "pc (loop_start ?s) \<noteq> NotStarted" by (simp add: loop_start_def)
  with EventLoop_stop_before_loop_aborts [OF r p s] r s show ?thesis by blast
qed

end
