(* ===== verification/Thread_Pool.thy ===== *)
theory Thread_Pool
  imports Event_Loop
begin

text \<open>
  \<open>net/EventLoopThreadPool.h\<close> and \<open>net/EventLoopThreadPool.cpp\<close>: the loops among which a server
  distributes its connections. A loop is known by its address, a number; \<open>cur\<close> is the loop of
  the calling thread. What \<open>EventLoopThread::startLoop\<close> returns for the \<open>i\<close>-th thread is an
  argument.
\<close>

section \<open>The pool\<close>

record EventLoopThreadPool =
  baseLoop :: nat
  pool_name :: string
  started :: bool
  numThreads :: int
  next_index :: int
  thread_names :: "string list"
  loops :: "nat list"

definition EventLoopThreadPool_new :: "nat \<Rightarrow> string \<Rightarrow> EventLoopThreadPool" where
  "EventLoopThreadPool_new base nameArg = \<lparr>baseLoop = base, pool_name = nameArg, started = False,
     numThreads = 0, next_index = 0, thread_names = [], loops = []\<rparr>"

definition setThreadNum :: "int \<Rightarrow> EventLoopThreadPool \<Rightarrow> EventLoopThreadPool" where
  "setThreadNum n p = p\<lparr>numThreads := n\<rparr>"

definition thread_name :: "EventLoopThreadPool \<Rightarrow> nat \<Rightarrow> string" where
  "thread_name p i = snprintf (length (pool_name p) + 32) (pool_name p @ show_nat i)"

fun start_threads :: "(nat \<Rightarrow> nat) \<Rightarrow> nat list \<Rightarrow> EventLoopThreadPool \<Rightarrow> EventLoopThreadPool" where
  "start_threads startLoop [] p = p"
| "start_threads startLoop (i # is) p =
     start_threads startLoop is
       (p\<lparr>thread_names := thread_names p @ [thread_name p i], loops := loops p @ [startLoop i]\<rparr>)"

definition ThreadPool_start :: "(nat \<Rightarrow> nat) \<Rightarrow> nat \<Rightarrow> EventLoopThreadPool \<Rightarrow> EventLoopThreadPool res" where
  "ThreadPool_start startLoop cur p =
     assert_that (\<not> started p) (assertInLoopThread cur (baseLoop p)
       (Inr (start_threads startLoop [0..<nat (numThreads p)] (p\<lparr>started := True\<rparr>))))"

definition ThreadPool_getNextLoop :: "nat \<Rightarrow> EventLoopThreadPool \<Rightarrow> (nat \<times> EventLoopThreadPool) res" where
  "ThreadPool_getNextLoop cur p =
     assertInLoopThread cur (baseLoop p) (assert_that (started p)
       (if loops p \<noteq> [] then
          if 0 \<le> next_index p \<and> nat (next_index p) < length (loops p) then
            let loop = loops p ! nat (next_index p);
                next = next_index p + 1;
                next = (if nat next \<ge> length (loops p) then 0 else next)
            in Inr (loop, p\<lparr>next_index := next\<rparr>)
          else Inl OutOfBounds
        else Inr (baseLoop p, p)))"

definition ThreadPool_getLoopForHash :: "nat \<Rightarrow> nat \<Rightarrow> EventLoopThreadPool \<Rightarrow> nat res" where
  "ThreadPool_getLoopForHash cur hashCode p =
     assertInLoopThread cur (baseLoop p)
       (if loops p \<noteq> [] then Inr (loops p ! (hashCode mod length (loops p))) else Inr (baseLoop p))"

definition ThreadPool_getAllLoops :: "nat \<Rightarrow> EventLoopThreadPool \<Rightarrow> nat list res" where
  "ThreadPool_getAllLoops cur p =
     assertInLoopThread cur (baseLoop p) (assert_that (started p)
       (if loops p = [] then Inr [baseLoop p] else Inr (loops p)))"

text \<open>A number of calls of \<open>getNextLoop\<close> in a row.\<close>

fun next_loops :: "nat \<Rightarrow> nat \<Rightarrow> EventLoopThreadPool \<Rightarrow> (nat list \<times> EventLoopThreadPool) res" where
  "next_loops 0 cur p = Inr ([], p)"
| "next_loops (Suc k) cur p =
     andThen (ThreadPool_getNextLoop cur p) (\<lambda>(l, p).
     andThen (next_loops k cur p) (\<lambda>(ls, p). Inr (l # ls, p)))"

section \<open>What the operations do\<close>

lemma start_threads_simps:
  "loops (start_threads startLoop is p) = loops p @ map startLoop is"
  "thread_names (start_threads startLoop is p) = thread_names p @ map (thread_name p) is"
  "baseLoop (start_threads startLoop is p) = baseLoop p"
  "started (start_threads startLoop is p) = started p"
  "next_index (start_threads startLoop is p) = next_index p"
proof (induction "is" arbitrary: p)
  case (Cons i "is")
  case 2
  have "thread_name (p\<lparr>thread_names := ns, loops := ls\<rparr>) = thread_name p" for ns ls
    by (simp add: thread_name_def fun_eq_iff)
  with Cons show ?case by simp
qed simp_all

lemma getNextLoop_step:
  assumes "started p" and "loops p \<noteq> []" and "next_index p = int (k mod length (loops p))"
  shows "ThreadPool_getNextLoop (baseLoop p) p =
     Inr (loops p ! (k mod length (loops p)), p\<lparr>next_index := int (Suc k mod length (loops p))\<rparr>)"
proof -
  let ?n = "length (loops p)"
  have l: "k mod ?n < ?n" using assms(2) by simp
  show ?thesis
  proof (cases "Suc (k mod ?n) = ?n")
    case True
    then have "Suc k mod ?n = 0" by (metis mod_Suc)
    with True l show ?thesis
      by (simp add: ThreadPool_getNextLoop_def assertInLoopThread_def assms nat_add_distrib)
  next
    case False
    then have "Suc k mod ?n = Suc (k mod ?n)" by (simp add: mod_Suc)
    moreover have "\<not> ?n \<le> Suc (k mod ?n)" using False l by simp
    ultimately show ?thesis using l
      by (simp add: ThreadPool_getNextLoop_def assertInLoopThread_def assms nat_add_distrib)
  qed
qed

lemma next_loops_from:
  assumes "started p" and "loops p \<noteq> []" and "next_index p = int (j mod length (loops p))"
  shows "\<exists>p'. next_loops k (baseLoop p) p = Inr (map (\<lambda>i. loops p ! ((j + i) mod length (loops p))) [0..<k], p')"
  using assms
proof (induction k arbitrary: j p)
  case (Suc k)
  let ?p = "p\<lparr>next_index := int (Suc j mod length (loops p))\<rparr>"
  obtain p' where "next_loops k (baseLoop p) ?p =
      Inr (map (\<lambda>i. loops p ! ((Suc j + i) mod length (loops p))) [0..<k], p')"
    using Suc.IH [of ?p "Suc j"] Suc.prems by auto
  moreover have "map (\<lambda>i. loops p ! ((j + i) mod length (loops p))) [0..<Suc k]
      = loops p ! (j mod length (loops p)) # map (\<lambda>i. loops p ! ((Suc j + i) mod length (loops p))) [0..<k]"
    by (simp only: upt_conv_Cons [of 0 "Suc k"] map_Suc_upt [symmetric]) simp
  ultimately show ?case
    using getNextLoop_step [OF Suc.prems] by (simp del: upt_Suc)
qed simp

section \<open>Properties\<close>

text \<open>
  A pool that was started with \<open>n > 0\<close> threads hands out its loops in turn: \<open>k\<close> calls of
  \<open>getNextLoop\<close> give the loops of threads 0, 1, ..., n-1, 0, 1, and so on; none of them fails.
  With no threads every call gives the base loop.
\<close>

theorem ThreadPool_round_robin:
  assumes "ThreadPool_start startLoop base (setThreadNum n (EventLoopThreadPool_new base name)) = Inr p"
  shows "\<exists>p'. next_loops k base p =
    Inr (map (\<lambda>i. if 0 < n then startLoop (i mod nat n) else base) [0..<k], p')"
proof -
  let ?q = "setThreadNum n (EventLoopThreadPool_new base name)\<lparr>started := True\<rparr>"
  have p: "p = start_threads startLoop [0..<nat n] ?q"
    using assms by (simp add: ThreadPool_start_def assertInLoopThread_def assert_that_eq_Inr setThreadNum_def
        EventLoopThreadPool_new_def)
  have l: "loops p = map startLoop [0..<nat n]" "baseLoop p = base" "started p" "next_index p = 0"
    by (simp_all add: p start_threads_simps setThreadNum_def EventLoopThreadPool_new_def)
  show ?thesis
  proof (cases "0 < n")
    case True
    then have "loops p \<noteq> []" by (simp add: l)
    with next_loops_from [of p 0 k] l True show ?thesis by (simp add: nth_map_upt cong: map_cong)
  next
    case False
    then have "loops p = []" by (simp add: l)
    then have "ThreadPool_getNextLoop base p = Inr (base, p)"
      by (simp add: ThreadPool_getNextLoop_def assertInLoopThread_def l)
    then have "next_loops k base p = Inr (replicate k base, p)"
      by (induction k) simp_all
    with False show ?thesis by (simp add: map_replicate_const)
  qed
qed

theorem ThreadPool_round_robin_witness:
  "\<exists>p p'. ThreadPool_start (\<lambda>i. 100 + i) 7 (setThreadNum 3 (EventLoopThreadPool_new 7 ''Tcp'')) = Inr p
    \<and> next_loops 5 7 p = Inr ([100, 101, 102, 100, 101], p')"
proof -
  obtain p where p: "ThreadPool_start (\<lambda>i. 100 + i) 7 (setThreadNum 3 (EventLoopThreadPool_new 7 ''Tcp'')) = Inr p"
    by (simp add: ThreadPool_start_def assertInLoopThread_def setThreadNum_def EventLoopThreadPool_new_def)
  show ?thesis using ThreadPool_round_robin [OF p, of 5] p by (simp add: upt_rec)
qed

end
