(* ===== verification/Net_Addr.thy ===== *)
theory Net_Addr
  imports Rabbit_Prelude "HOL-Library.Word"
begin

text \<open>
  \<open>net/NetAddr.h\<close> and \<open>net/NetAddr.cpp\<close>: an IPv4 address and port. The fields of
  \<open>sockaddr_in\<close> are words at their width, the port in network byte order on a little-endian
  machine. \<open>inet_aton\<close> is an argument: it returns the address, or nothing for a string that is
  not one; its C result is nonzero on success. \<open>getsockname\<close> and \<open>getpeername\<close> are arguments too.
\<close>

unbundle bit_operations_syntax

record sockaddr_in =
  sin_family :: "16 word"
  sin_port :: "16 word"
  sin_addr :: "32 word"

record NetAddr =
  net_addr :: sockaddr_in
  net_ret :: int

definition AF_INET :: "16 word" where
  "AF_INET = 2"

text \<open>\<open>htons\<close> swaps the two bytes.\<close>

definition htons :: "16 word \<Rightarrow> 16 word" where
  "htons p = push_bit 8 p OR drop_bit 8 p"

definition NetAddr_new :: "(string \<Rightarrow> 32 word option) \<Rightarrow> string \<Rightarrow> 16 word \<Rightarrow> NetAddr" where
  "NetAddr_new inet_aton ip port =
     (let a = \<lparr>sin_family = AF_INET, sin_port = 0, sin_addr = 0\<rparr>;
          (ret, a) = (case inet_aton ip of None \<Rightarrow> (0, a) | Some x \<Rightarrow> (1, a\<lparr>sin_addr := x\<rparr>))
      in \<lparr>net_addr = a\<lparr>sin_port := htons port\<rparr>, net_ret = ret\<rparr>)"

definition NetAddr_of_sockaddr :: "sockaddr_in \<Rightarrow> NetAddr" where
  "NetAddr_of_sockaddr a = \<lparr>net_addr = a, net_ret = 0\<rparr>"

definition NetAddr_getPort :: "NetAddr \<Rightarrow> 16 word" where
  "NetAddr_getPort n = sin_port (net_addr n)"

definition NetAddr_getInAddr :: "NetAddr \<Rightarrow> 32 word" where
  "NetAddr_getInAddr n = sin_addr (net_addr n)"

definition NetAddr_getAddr :: "NetAddr \<Rightarrow> sockaddr_in" where
  "NetAddr_getAddr n = net_addr n"

definition NetAddr_isValid :: "NetAddr \<Rightarrow> bool" where
  "NetAddr_isValid n = (if net_ret n = 0 then True else False)"

text \<open>The result of \<open>getsockname\<close> or \<open>getpeername\<close>: nothing on failure.\<close>

definition NetAddr_getLocalAddr ::
  "(string \<Rightarrow> 32 word option) \<Rightarrow> (int \<Rightarrow> sockaddr_in option) \<Rightarrow> int \<Rightarrow> NetAddr" where
  "NetAddr_getLocalAddr inet_aton getsockname fd =
     (case getsockname fd of None \<Rightarrow> NetAddr_new inet_aton ''0.0.0.0'' 0
      | Some local \<Rightarrow> NetAddr_of_sockaddr local)"

definition NetAddr_getPeerAddr ::
  "(string \<Rightarrow> 32 word option) \<Rightarrow> (int \<Rightarrow> sockaddr_in option) \<Rightarrow> int \<Rightarrow> NetAddr" where
  "NetAddr_getPeerAddr inet_aton getpeername fd =
     (case getpeername fd of None \<Rightarrow> NetAddr_new inet_aton ''0.0.0.0'' 0
      | Some peer \<Rightarrow> NetAddr_of_sockaddr peer)"

lemma htons_htons: "htons (htons p) = p"
  by (rule bit_word_eqI) (auto simp: htons_def bit_simps)

section \<open>Properties\<close>

text \<open>
  \<open>isValid\<close> is inverted: an address made from a string is reported valid exactly when
  \<open>inet_aton\<close> rejected the string. The port is kept in network byte order, and \<open>getPort\<close>
  returns it so: swapping its bytes gives the port back.
\<close>

theorem NetAddr_isValid_inverted:
  "(NetAddr_isValid (NetAddr_new inet_aton ip port) \<longleftrightarrow> inet_aton ip = None)
   \<and> htons (NetAddr_getPort (NetAddr_new inet_aton ip port)) = port"
  by (cases "inet_aton ip")
    (simp_all add: NetAddr_isValid_def NetAddr_new_def NetAddr_getPort_def htons_htons)

end
