(* ===== verification/Sockets.thy ===== *)
theory Sockets
  imports Channels Net_Addr
begin

text \<open>
  \<open>net/Socket.h\<close>, \<open>net/Socket.cpp\<close> and the part of \<open>net/Acceptor.cpp\<close> that sets up the listening
  socket. What the kernel keeps of a socket is a part of the record; the result of a system call
  is an argument: 0, or the error number. \<open>errno\<close> is passed along. An acceptor keeps its channel
  and the part of the interest set that belongs to its descriptor.
\<close>

unbundle bit_operations_syntax

section \<open>The socket and its system calls\<close>

record Socket =
  sock_fd :: int
  sock_flags :: "32 word"
  sock_nodelay :: bool
  sock_reuseaddr :: bool
  sock_reuseport :: bool
  sock_addr :: "sockaddr_in option"
  sock_peer :: "sockaddr_in option"
  sock_backlog :: "int option"
  sock_open :: bool

datatype sock_call = SysSetFlags | SysNodelay | SysReuse | SysBind | SysListen | SysConnect

type_synonym sock_sys = "sock_call \<Rightarrow> int"

definition O_NONBLOCK :: "32 word" where "O_NONBLOCK = 0x800"
definition EBADF :: int where "EBADF = 9"
definition BACKLOG :: int where "BACKLOG = 200"

text \<open>A call that returns 0 has its effect; one that fails returns -1 and sets \<open>errno\<close>.\<close>

definition sys_call :: "int \<Rightarrow> (Socket \<Rightarrow> Socket) \<Rightarrow> Socket \<Rightarrow> int \<Rightarrow> int \<times> Socket \<times> int" where
  "sys_call r eff s errno = (if r = 0 then (0, eff s, errno) else (-1, s, r))"

section \<open>Operations\<close>

definition Socket_setNoBlock :: "sock_sys \<Rightarrow> Socket \<Rightarrow> int \<Rightarrow> Socket \<times> int" where
  "Socket_setNoBlock sys s errno =
     (let (option, errno) = (if sock_fd s < 0 then (-1, EBADF) else (sock_flags s, errno));
          option = option OR O_NONBLOCK;
          (ret, s, errno) =
            sys_call (if sock_fd s < 0 then EBADF else sys SysSetFlags) (\<lambda>s. s\<lparr>sock_flags := option\<rparr>) s errno
      in (s, errno))"

definition Socket_of_fd :: "sock_sys \<Rightarrow> int \<Rightarrow> int \<Rightarrow> Socket \<times> int" where
  "Socket_of_fd sys fd errno =
     Socket_setNoBlock sys \<lparr>sock_fd = fd, sock_flags = 0, sock_nodelay = False, sock_reuseaddr = False,
       sock_reuseport = False, sock_addr = None, sock_peer = None, sock_backlog = None, sock_open = True\<rparr> errno"

text \<open>\<open>socket\<close> gives a descriptor, or an error number.\<close>

definition Socket_new :: "int + int \<Rightarrow> sock_sys \<Rightarrow> int \<Rightarrow> Socket \<times> int" where
  "Socket_new r sys errno =
     (case r of Inl e \<Rightarrow> Socket_of_fd sys (-1) e | Inr fd \<Rightarrow> Socket_of_fd sys fd errno)"

definition Socket_destroy :: "Socket \<Rightarrow> Socket" where
  "Socket_destroy s = s\<lparr>sock_open := False\<rparr>"

text \<open>The wrappers restore \<open>errno\<close> when the call fails.\<close>

definition restoring :: "int \<Rightarrow> int \<times> Socket \<times> int \<Rightarrow> int \<times> Socket \<times> int" where
  "restoring errno_saved r = (let (ret, s, errno) = r in (ret, s, if ret \<noteq> 0 then errno_saved else errno))"

definition Socket_bindAddr :: "sock_sys \<Rightarrow> NetAddr \<Rightarrow> Socket \<Rightarrow> int \<Rightarrow> int \<times> Socket \<times> int" where
  "Socket_bindAddr sys addr s errno =
     restoring errno (sys_call (sys SysBind) (\<lambda>s. s\<lparr>sock_addr := Some (NetAddr_getAddr addr)\<rparr>) s errno)"

definition Socket_startListen :: "sock_sys \<Rightarrow> Socket \<Rightarrow> int \<Rightarrow> int \<times> Socket \<times> int" where
  "Socket_startListen sys s errno =
     restoring errno (sys_call (sys SysListen) (\<lambda>s. s\<lparr>sock_backlog := Some BACKLOG\<rparr>) s errno)"

definition Socket_setNodelay :: "sock_sys \<Rightarrow> bool \<Rightarrow> Socket \<Rightarrow> int \<Rightarrow> int \<times> Socket \<times> int" where
  "Socket_setNodelay sys op s errno =
     restoring errno (sys_call (sys SysNodelay) (\<lambda>s. s\<lparr>sock_nodelay := op\<rparr>) s errno)"

definition Socket_setReuseAddr :: "sock_sys \<Rightarrow> bool \<Rightarrow> Socket \<Rightarrow> int \<Rightarrow> int \<times> Socket \<times> int" where
  "Socket_setReuseAddr sys op s errno =
     restoring errno (sys_call (sys SysReuse) (\<lambda>s. s\<lparr>sock_reuseaddr := op\<rparr>) s errno)"

text \<open>\<open>setReusePort\<close> passes \<open>SO_REUSEADDR\<close> to the kernel.\<close>

definition Socket_setReusePort :: "sock_sys \<Rightarrow> bool \<Rightarrow> Socket \<Rightarrow> int \<Rightarrow> int \<times> Socket \<times> int" where
  "Socket_setReusePort sys op s errno =
     restoring errno (sys_call (sys SysReuse) (\<lambda>s. s\<lparr>sock_reuseaddr := op\<rparr>) s errno)"

definition Socket_connectTo :: "sock_sys \<Rightarrow> NetAddr \<Rightarrow> Socket \<Rightarrow> int \<Rightarrow> int \<times> Socket \<times> int" where
  "Socket_connectTo sys addr s errno =
     restoring errno (sys_call (sys SysConnect) (\<lambda>s. s\<lparr>sock_peer := Some (NetAddr_getAddr addr)\<rparr>) s errno)"

text \<open>
  \<open>accept\<close> gives a descriptor and the address of the peer, or an error number. On failure the
  peer stays what the caller initialised it with, and the descriptor is -1.
\<close>

definition Socket_acceptConnection :: "int + int \<times> sockaddr_in \<Rightarrow> NetAddr \<Rightarrow> int \<Rightarrow> int \<times> NetAddr \<times> int" where
  "Socket_acceptConnection r peer errno =
     (let errno_saved = errno
      in case r of Inl e \<Rightarrow> (-1, peer, errno_saved)
         | Inr (fd, temp) \<Rightarrow> if fd = -1 then (-1, peer, errno_saved) else (fd, NetAddr_of_sockaddr temp, errno))"

text \<open>\<open>getsockopt\<close> for \<open>SO_ERROR\<close>: the pending error, or the error number of the call.\<close>

definition Socket_getSockError :: "int + int \<Rightarrow> int" where
  "Socket_getSockError r = (case r of Inl errno \<Rightarrow> errno | Inr optval \<Rightarrow> optval)"

section \<open>The acceptor's socket\<close>

record Acceptor =
  acc_loop :: nat
  acc_addr :: NetAddr
  acc_sock :: Socket
  acc_channel :: "unit Channel"
  acc_epoll :: epoll

definition Acceptor_new :: "int + int \<Rightarrow> sock_sys \<Rightarrow> nat \<Rightarrow> nat \<Rightarrow> NetAddr \<Rightarrow> int \<Rightarrow> Acceptor \<times> int" where
  "Acceptor_new r sys ptr loop addr errno =
     (let (s, errno) = Socket_new r sys errno;
          ch = Channel_new ptr (sock_fd s);
          (_, s, errno) = Socket_setNodelay sys True s errno;
          (_, s, errno) = Socket_setReusePort sys True s errno;
          (_, s, errno) = Socket_bindAddr sys addr s errno
      in (\<lparr>acc_loop = loop, acc_addr = addr, acc_sock = s, acc_channel = ch, acc_epoll = Map.empty\<rparr>, errno))"

definition Acceptor_registAcceptor :: "sock_sys \<Rightarrow> Acceptor \<Rightarrow> int \<Rightarrow> Acceptor \<times> int" where
  "Acceptor_registAcceptor sys a errno =
     (let ch = Channel_setReadCallBack () (acc_channel a);
          (_, s, errno) = Socket_startListen sys (acc_sock a) errno;
          (ch, ep) = Channel_enableReading ch (acc_epoll a)
      in (a\<lparr>acc_sock := s, acc_channel := ch, acc_epoll := ep\<rparr>, errno))"

lemmas socket_ops = Socket_bindAddr_def Socket_startListen_def Socket_setNodelay_def Socket_setReuseAddr_def
  Socket_setReusePort_def Socket_connectTo_def

lemma restoring_sys_call:
  "restoring errno (sys_call r eff s errno) = (if r = 0 then (0, eff s, errno) else (-1, s, errno))"
  by (simp add: restoring_def sys_call_def)

lemma setNoBlock_simps:
  "sock_fd (fst (Socket_setNoBlock sys s errno)) = sock_fd s"
  "sock_addr (fst (Socket_setNoBlock sys s errno)) = sock_addr s"
  "sock_backlog (fst (Socket_setNoBlock sys s errno)) = sock_backlog s"
  "sock_reuseaddr (fst (Socket_setNoBlock sys s errno)) = sock_reuseaddr s"
  "sock_reuseport (fst (Socket_setNoBlock sys s errno)) = sock_reuseport s"
  "sock_nodelay (fst (Socket_setNoBlock sys s errno)) = sock_nodelay s"
  by (simp_all add: Socket_setNoBlock_def sys_call_def Let_def)

lemma setNoBlock_flags:
  "0 \<le> sock_fd s \<Longrightarrow> sys SysSetFlags = 0 \<Longrightarrow>
     sock_flags (fst (Socket_setNoBlock sys s errno)) AND O_NONBLOCK = O_NONBLOCK"
  by (simp add: Socket_setNoBlock_def sys_call_def Let_def bit.conj_disj_distrib2)

section \<open>Properties\<close>

text \<open>
  C38. The listening socket, on every outcome of the system calls. Once an acceptor is
  constructed and registered, its channel waits for connections on the descriptor of
  \<open>socket\<close> whether or not binding and listening worked: a failed \<open>bind\<close> leaves the socket
  without the address, and nobody is told. \<open>SO_REUSEADDR\<close> is set, although the constructor asks
  for \<open>SO_REUSEPORT\<close>, which never is. The socket does not block, and \<open>errno\<close> is what it was
  after the construction of the socket.
\<close>

theorem Acceptor_set_up:
  assumes "0 \<le> fd" and "Acceptor_new (Inr fd) sys ptr loop addr errno = (a, errno1)"
    and "Acceptor_registAcceptor sys a errno1 = (b, errno2)"
  shows "sock_addr (acc_sock b) = (if sys SysBind = 0 then Some (NetAddr_getAddr addr) else None)
    \<and> sock_backlog (acc_sock b) = (if sys SysListen = 0 then Some 200 else None)
    \<and> (sock_nodelay (acc_sock b) \<longleftrightarrow> sys SysNodelay = 0) \<and> (sock_reuseaddr (acc_sock b) \<longleftrightarrow> sys SysReuse = 0)
    \<and> \<not> sock_reuseport (acc_sock b)
    \<and> (sys SysSetFlags = 0 \<longrightarrow> sock_flags (acc_sock b) AND O_NONBLOCK = O_NONBLOCK)
    \<and> acc_epoll b fd = Some (ptr, ReadEvent) \<and> errno2 = snd (Socket_new (Inr fd) sys errno)"
proof -
  obtain s e where s: "Socket_new (Inr fd) sys errno = (s, e)" by fastforce
  then have sn: "s = fst (Socket_setNoBlock sys \<lparr>sock_fd = fd, sock_flags = 0, sock_nodelay = False,
      sock_reuseaddr = False, sock_reuseport = False, sock_addr = None, sock_peer = None,
      sock_backlog = None, sock_open = True\<rparr> errno)"
    by (simp add: Socket_new_def Socket_of_fd_def)
  then have f: "sock_fd s = fd" "sock_addr s = None" "sock_backlog s = None" "\<not> sock_reuseaddr s"
    "\<not> sock_reuseport s" "\<not> sock_nodelay s"
    by (simp_all add: setNoBlock_simps)
  have fl: "sys SysSetFlags = 0 \<longrightarrow> sock_flags s AND O_NONBLOCK = O_NONBLOCK"
    using assms(1) unfolding sn by (simp add: setNoBlock_flags)
  define s1 where "s1 = (if sys SysNodelay = 0 then s\<lparr>sock_nodelay := True\<rparr> else s)"
  define s2 where "s2 = (if sys SysReuse = 0 then s1\<lparr>sock_reuseaddr := True\<rparr> else s1)"
  define s3 where "s3 = (if sys SysBind = 0 then s2\<lparr>sock_addr := Some (NetAddr_getAddr addr)\<rparr> else s2)"
  define s4 where "s4 = (if sys SysListen = 0 then s3\<lparr>sock_backlog := Some BACKLOG\<rparr> else s3)"
  have sets: "Socket_setNodelay sys True s e = (if sys SysNodelay = 0 then 0 else -1, s1, e)"
    "Socket_setReusePort sys True s1 e = (if sys SysReuse = 0 then 0 else -1, s2, e)"
    "Socket_bindAddr sys addr s2 e = (if sys SysBind = 0 then 0 else -1, s3, e)"
    "Socket_startListen sys s3 e = (if sys SysListen = 0 then 0 else -1, s4, e)"
    by (simp_all add: socket_ops restoring_sys_call s1_def s2_def s3_def s4_def)
  have a: "a = \<lparr>acc_loop = loop, acc_addr = addr, acc_sock = s3, acc_channel = Channel_new ptr fd,
      acc_epoll = Map.empty\<rparr>" "errno1 = e"
    using assms(2) by (simp_all add: Acceptor_new_def s sets f(1))
  have b: "acc_sock b = s4" "errno2 = e" "acc_epoll b fd = Some (ptr, ReadEvent)"
    using assms(1,3)
    by (auto simp: a Acceptor_registAcceptor_def sets Channel_enableReading_def Channel_update_def
        EventLoop_upDateChannel_def Poller_upDateChannel_def Channel_new_def epoll_add_def)
  show ?thesis using f fl b s by (simp add: s1_def s2_def s3_def s4_def BACKLOG_def)
qed

text \<open>An acceptor on an address that is in use (error 98): nothing is bound, and it listens.\<close>

definition busy_port :: sock_sys where
  "busy_port c = (if c = SysBind then 98 else 0)"

theorem Acceptor_set_up_witness:
  "\<exists>b. fst (Acceptor_registAcceptor busy_port
      (fst (Acceptor_new (Inr 3) busy_port 1 7 (NetAddr_of_sockaddr \<lparr>sin_family = AF_INET, sin_port = 80, sin_addr = 0\<rparr>) 0)) 0) = b
    \<and> sock_addr (acc_sock b) = None \<and> sock_backlog (acc_sock b) = Some 200 \<and> acc_epoll b 3 = Some (1, ReadEvent)"
proof -
  let ?addr = "NetAddr_of_sockaddr \<lparr>sin_family = AF_INET, sin_port = 80, sin_addr = 0\<rparr>"
  obtain a e where a: "Acceptor_new (Inr 3) busy_port 1 7 ?addr 0 = (a, e)" by fastforce
  have e: "e = 0"
    using a by (simp add: Acceptor_new_def Socket_new_def Socket_of_fd_def Socket_setNoBlock_def socket_ops
        restoring_def sys_call_def busy_port_def)
  obtain b e' where b: "Acceptor_registAcceptor busy_port a e = (b, e')" by fastforce
  show ?thesis
    using Acceptor_set_up [OF _ a b] a b e by (simp add: busy_port_def)
qed

end
