(* ===== verification/Tcp_Connection.thy ===== *)
theory Tcp_Connection
  imports Byte_Buffer Channels Event_Loop Net_Addr Timestamps
begin

text \<open>
  \<open>net/TcpConnection.h\<close> and \<open>net/TcpConnection.cpp\<close>: one connection, with its channel, its two
  buffers and the kernel's end of its socket. In every handler the call of a callback is the
  last thing it does, so a handler is a function of the connection that returns the connection
  and what remains to be done: the callback to call, or the functor queued for the connection's
  loop. What \<open>readv\<close> returns is an argument; what the coming calls of \<open>write\<close> return is a part of
  the state. The interest set of \<open>epoll\<close> is the part that belongs to the connection's descriptor.
\<close>

section \<open>The connection\<close>

datatype State = kConnecting | kConnected | kDisconnected | kDisconnecting

datatype handler = HandleRead | HandleClose | HandleError | HandleWrite | HandleHup

datatype conn_callback =
    ConnectionCallback
  | MessageCallback Timestamp
  | CloseCallback
  | RemoveConnectionFromMap

text \<open>
  \<open>send\<close> from another thread binds the pointer to the caller's bytes into the functor; the model
  has the bytes, which presumes that the caller keeps them until the functor has run.
\<close>

datatype conn_functor =
    CloseConnectionInLoop
  | SendInLoop string
  | ConnectionDestroyed

datatype effect = Call conn_callback | Queue conn_functor

datatype write_result = WriteErr int | Wrote nat

text \<open>
  \<open>sock_writes\<close> is what the kernel will answer to the coming calls of \<open>write\<close>, \<open>sock_wire\<close> the
  bytes it has accepted. The last two fields record the history: the bytes handed to
  \<open>sendInLoop\<close>, and the largest number of bytes that ever waited in the output buffer.
\<close>

record 'x TcpConnection =
  conn_loop :: nat
  conn_name :: string
  conn_state :: State
  conn_channel :: "handler Channel"
  conn_epoll :: epoll
  localAddr :: NetAddr
  peerAddr :: NetAddr
  inBuffer :: Buffer
  outBuffer :: Buffer
  conn_context :: "'x option"
  sock_writes :: "write_result list"
  sock_wire :: string
  sent_log :: string
  out_peak :: nat

definition TcpConnection_new ::
  "nat \<Rightarrow> nat \<Rightarrow> string \<Rightarrow> int \<Rightarrow> NetAddr \<Rightarrow> NetAddr \<Rightarrow> write_result list \<Rightarrow> 'x TcpConnection" where
  "TcpConnection_new ptr loop name sockfd local peer writes =
     \<lparr>conn_loop = loop, conn_name = name, conn_state = kConnecting, conn_channel = Channel_new ptr sockfd,
      conn_epoll = Map.empty, localAddr = local, peerAddr = peer, inBuffer = Buffer_new DEFAULTINITSIZE,
      outBuffer = Buffer_new DEFAULTINITSIZE, conn_context = None, sock_writes = writes, sock_wire = [],
      sent_log = [], out_peak = 0\<rparr>"

definition establlished :: "'x TcpConnection \<Rightarrow> bool" where
  "establlished C \<longleftrightarrow> conn_state C = kConnected"

definition setContext :: "'x \<Rightarrow> 'x TcpConnection \<Rightarrow> 'x TcpConnection" where
  "setContext x C = C\<lparr>conn_context := Some x\<rparr>"

definition with_channel ::
  "(handler Channel \<Rightarrow> epoll \<Rightarrow> handler Channel \<times> epoll) \<Rightarrow> 'x TcpConnection \<Rightarrow> 'x TcpConnection" where
  "with_channel op C =
     (let (ch, ep) = op (conn_channel C) (conn_epoll C) in C\<lparr>conn_channel := ch, conn_epoll := ep\<rparr>)"

definition isWriting :: "'x TcpConnection \<Rightarrow> bool" where
  "isWriting C \<longleftrightarrow> chan_writing (conn_channel C)"

text \<open>One call of \<open>write\<close>; without an answer the socket is not ready.\<close>

definition sys_write :: "string \<Rightarrow> 'x TcpConnection \<Rightarrow> int \<times> 'x TcpConnection" where
  "sys_write data C =
     (case sock_writes C of
        [] \<Rightarrow> (-1, C)
      | WriteErr e # rs \<Rightarrow> (-1, C\<lparr>sock_writes := rs\<rparr>)
      | Wrote k # rs \<Rightarrow> (int (min k (length data)),
                      C\<lparr>sock_writes := rs, sock_wire := sock_wire C @ take k data\<rparr>))"

section \<open>Sending\<close>

definition TcpConnection_sendInLoop :: "nat \<Rightarrow> string \<Rightarrow> 'x TcpConnection \<Rightarrow> 'x TcpConnection res" where
  "TcpConnection_sendInLoop cur data C =
     assertInLoopThread cur (conn_loop C)
       (let C = C\<lparr>sent_log := sent_log C @ data\<rparr>;
            (wroted, C) =
              (if \<not> isWriting C \<and> Buffer_readbleBytes (outBuffer C) = 0 then
                 let (n, C) = sys_write data C in (if n < 0 then 0 else n, C)
               else (0, C))
        in assert_that (wroted \<ge> 0)
             (if wroted < int (length data) then
                let rest = drop (nat wroted) data;
                    C = C\<lparr>out_peak := max (out_peak C) (length (contents (outBuffer C)) + length rest),
                          outBuffer := Buffer_append rest (outBuffer C)\<rparr>
                in Inr (if \<not> isWriting C then with_channel Channel_enableWriting C else C)
              else Inr C))"

definition TcpConnection_send ::
  "nat \<Rightarrow> string \<Rightarrow> 'x TcpConnection \<Rightarrow> ('x TcpConnection \<times> effect list) res" where
  "TcpConnection_send cur data C =
     (if conn_state C = kConnected then
        if cur = conn_loop C then andThen (TcpConnection_sendInLoop cur data C) (\<lambda>C. Inr (C, []))
        else Inr (C, [Queue (SendInLoop data)])
      else Inr (C, []))"

section \<open>Closing\<close>

definition TcpConnection_handleClose :: "nat \<Rightarrow> 'x TcpConnection \<Rightarrow> ('x TcpConnection \<times> effect list) res" where
  "TcpConnection_handleClose cur C =
     (if conn_state C = kDisconnecting \<or> conn_state C = kConnected then
        let C = C\<lparr>conn_state := kDisconnected\<rparr>
        in assertInLoopThread cur (conn_loop C)
             (Inr (with_channel Channel_disableAll C, [Call CloseCallback]))
      else Inr (C, []))"

definition TcpConnection_connectionDestroyed :: "'x TcpConnection \<Rightarrow> 'x TcpConnection" where
  "TcpConnection_connectionDestroyed C =
     (let C = (if conn_state C = kConnected \<or> conn_state C = kDisconnecting then
                 with_channel Channel_disableAll (C\<lparr>conn_state := kDisconnected\<rparr>)
               else C)
      in with_channel Channel_remove C)"

definition TcpConnection_closeConnection :: "'x TcpConnection \<Rightarrow> 'x TcpConnection \<times> effect list" where
  "TcpConnection_closeConnection C =
     (if conn_state C = kConnected \<or> conn_state C = kConnecting then (C, [Queue CloseConnectionInLoop])
      else (C, []))"

definition TcpConnection_closeConnectionInLoop ::
  "nat \<Rightarrow> 'x TcpConnection \<Rightarrow> ('x TcpConnection \<times> effect list) res" where
  "TcpConnection_closeConnectionInLoop cur C =
     assertInLoopThread cur (conn_loop C)
       (if conn_state C = kConnected \<or> conn_state C = kConnecting then
          if \<not> isWriting C then TcpConnection_handleClose cur C
          else Inr (C\<lparr>conn_state := kDisconnecting\<rparr>, [])
        else Inr (C, []))"

section \<open>Handlers of the channel\<close>

text \<open>
  \<open>connectionEstablish\<close> runs in the base loop. Its first part ends with the registration of the
  channel, from where on the loop of the connection may run the handlers.
\<close>

definition TcpConnection_establishChannel :: "'x TcpConnection \<Rightarrow> 'x TcpConnection" where
  "TcpConnection_establishChannel C =
     (let ch = Channel_tie (conn_channel C);
          ch = Channel_setReadCallBack HandleRead ch;
          ch = Channel_setCloseCallBack HandleClose ch;
          ch = Channel_setErrorCallBack HandleError ch;
          ch = Channel_setWriteCallBack HandleWrite ch;
          ch = Channel_setHupCallback HandleHup ch
      in with_channel Channel_enableReading (C\<lparr>conn_channel := ch\<rparr>))"

definition TcpConnection_connectionEstablish :: "'x TcpConnection \<Rightarrow> 'x TcpConnection \<times> effect list" where
  "TcpConnection_connectionEstablish C =
     (let C = TcpConnection_establishChannel C
      in (C\<lparr>conn_state := kConnected\<rparr>, [Call ConnectionCallback]))"

definition TcpConnection_handleRead ::
  "nat \<Rightarrow> read_result \<Rightarrow> Timestamp \<Rightarrow> 'x TcpConnection \<Rightarrow> ('x TcpConnection \<times> effect list) res" where
  "TcpConnection_handleRead cur r now C =
     (let (n, savedErrno, buf) = Buffer_readFd r (inBuffer C);
          C = C\<lparr>inBuffer := buf\<rparr>
      in if n > 0 then Inr (C, [Call (MessageCallback now)])
         else if n = 0 then TcpConnection_handleClose cur C
         else Inr (C, []))"

definition TcpConnection_handleWrite :: "nat \<Rightarrow> 'x TcpConnection \<Rightarrow> ('x TcpConnection \<times> effect list) res" where
  "TcpConnection_handleWrite cur C =
     assertInLoopThread cur (conn_loop C)
       (if isWriting C then
          if Buffer_readbleBytes (outBuffer C) < 0 then Inl OutOfBounds
          else
            let out = outBuffer C;
                (wroted, C) =
                  sys_write (Buffer_range out (Buffer_peek out) (Buffer_peek out + Buffer_readbleBytes out)) C
            in if wroted > 0 then
                 let C = C\<lparr>outBuffer := snd (Buffer_retrieve wroted (outBuffer C))\<rparr>
                 in if Buffer_readbleBytes (outBuffer C) = 0 then
                      let C = with_channel Channel_disableWriting C
                      in if conn_state C = kDisconnecting then TcpConnection_handleClose cur C
                         else Inr (C, [])
                    else Inr (C, [])
               else Inr (C, [])
        else Inr (C, []))"

definition TcpConnection_handleHup :: "'x TcpConnection \<Rightarrow> 'x TcpConnection \<times> effect list" where
  "TcpConnection_handleHup C = (TcpConnection_connectionDestroyed C, [Call RemoveConnectionFromMap])"

text \<open>\<open>handleError\<close> fetches the pending error of the socket and prints it.\<close>

definition TcpConnection_handleError :: "'x TcpConnection \<Rightarrow> 'x TcpConnection" where
  "TcpConnection_handleError C = C"

fun run_handler ::
  "nat \<Rightarrow> read_result \<Rightarrow> Timestamp \<Rightarrow> handler \<Rightarrow> 'x TcpConnection \<Rightarrow> ('x TcpConnection \<times> effect list) res" where
  "run_handler cur r now HandleRead C = TcpConnection_handleRead cur r now C"
| "run_handler cur r now HandleClose C = TcpConnection_handleClose cur C"
| "run_handler cur r now HandleError C = Inr (TcpConnection_handleError C, [])"
| "run_handler cur r now HandleWrite C = TcpConnection_handleWrite cur C"
| "run_handler cur r now HandleHup C = Inr (TcpConnection_handleHup C)"

fun run_conn_functor ::
  "nat \<Rightarrow> conn_functor \<Rightarrow> 'x TcpConnection \<Rightarrow> ('x TcpConnection \<times> effect list) res" where
  "run_conn_functor cur CloseConnectionInLoop C = TcpConnection_closeConnectionInLoop cur C"
| "run_conn_functor cur (SendInLoop data) C = andThen (TcpConnection_sendInLoop cur data C) (\<lambda>C. Inr (C, []))"
| "run_conn_functor cur ConnectionDestroyed C = Inr (TcpConnection_connectionDestroyed C, [])"

section \<open>What can happen to a connection\<close>

text \<open>
  A handler runs in the connection's loop, as do the functors; \<open>send\<close> can be called from any
  thread. The message callback may do what it likes with the input buffer and the context
  (\<open>Consume\<close>), and its calls of \<open>send\<close> and \<open>closeConnection\<close> are steps of their own. So every run
  of the program, seen from an established connection, is a sequence of these steps.
\<close>

datatype 'x conn_op =
    Handle handler read_result Timestamp
  | Send nat string
  | Close
  | Functor conn_functor
  | Consume Buffer "'x option"

fun conn_step :: "'x conn_op \<Rightarrow> 'x TcpConnection \<Rightarrow> ('x TcpConnection \<times> effect list) res" where
  "conn_step (Handle h r now) C = run_handler (conn_loop C) r now h C"
| "conn_step (Send cur data) C = TcpConnection_send cur data C"
| "conn_step Close C = Inr (TcpConnection_closeConnection C)"
| "conn_step (Functor f) C = run_conn_functor (conn_loop C) f C"
| "conn_step (Consume buf ctx) C = Inr (C\<lparr>inBuffer := buf, conn_context := ctx\<rparr>, [])"

fun conn_run :: "'x conn_op list \<Rightarrow> 'x TcpConnection \<Rightarrow> ('x TcpConnection \<times> effect list) res" where
  "conn_run [] C = Inr (C, [])"
| "conn_run (op # ops) C =
     andThen (conn_step op C) (\<lambda>(C, es).
     andThen (conn_run ops C) (\<lambda>(C, es'). Inr (C, es @ es')))"

section \<open>The invariant of an established connection\<close>

text \<open>
  The output buffer is well formed and, as long as fewer than 1024 bytes have waited in it,
  has never grown and holds exactly the bytes sent and not yet accepted by the kernel; the
  channel is in step with the kernel; until the connection is disconnected, the channel waits
  for the socket to become writable exactly when bytes are waiting; and a connection that is
  disconnecting has bytes waiting.
\<close>

definition stream_inv :: "'x TcpConnection \<Rightarrow> bool" where
  "stream_inv C \<longleftrightarrow> Buffer_inv (outBuffer C)
     \<and> length (contents (outBuffer C)) \<le> out_peak C
     \<and> (out_peak C < 1024 \<longrightarrow> capacity (buffer (outBuffer C)) = 1024
          \<and> sock_wire C @ contents (outBuffer C) = sent_log C)"

definition chan_inv :: "'x TcpConnection \<Rightarrow> bool" where
  "chan_inv C \<longleftrightarrow> 0 \<le> chan_fd (conn_channel C) \<and> in_step (conn_channel C) (conn_epoll C)"

definition listening :: "'x TcpConnection \<Rightarrow> bool" where
  "listening C \<longleftrightarrow> chan_index (conn_channel C) = kAdded
     \<and> chan_events (conn_channel C) AND ReadEvent = ReadEvent"

definition conn_inv :: "'x TcpConnection \<Rightarrow> bool" where
  "conn_inv C \<longleftrightarrow> stream_inv C \<and> chan_inv C \<and> conn_state C \<noteq> kConnecting
     \<and> (conn_state C \<noteq> kDisconnected \<longrightarrow> (isWriting C \<longleftrightarrow> contents (outBuffer C) \<noteq> []) \<and> listening C)
     \<and> (conn_state C = kDisconnecting \<longrightarrow> contents (outBuffer C) \<noteq> [])"

text \<open>The identity of the connection and of its channel, which nothing changes.\<close>

definition conn_key :: "'x TcpConnection \<Rightarrow> string \<times> nat \<times> int" where
  "conn_key C = (conn_name C, chan_ptr (conn_channel C), chan_fd (conn_channel C))"

text \<open>What the operations of the channel change of the connection.\<close>

lemma with_channel_simps [simp]:
  "conn_loop (with_channel op C) = conn_loop C" "conn_name (with_channel op C) = conn_name C"
  "conn_state (with_channel op C) = conn_state C" "inBuffer (with_channel op C) = inBuffer C"
  "outBuffer (with_channel op C) = outBuffer C" "conn_context (with_channel op C) = conn_context C"
  "sock_writes (with_channel op C) = sock_writes C" "sock_wire (with_channel op C) = sock_wire C"
  "sent_log (with_channel op C) = sent_log C" "out_peak (with_channel op C) = out_peak C"
  by (simp_all add: with_channel_def split: prod.splits)

lemma with_channel_inv:
  assumes "chan_inv C"
  shows "chan_inv (with_channel Channel_enableWriting C)" "isWriting (with_channel Channel_enableWriting C)"
    "chan_inv (with_channel Channel_disableWriting C)" "\<not> isWriting (with_channel Channel_disableWriting C)"
    "chan_inv (with_channel Channel_disableAll C)" "\<not> isWriting (with_channel Channel_disableAll C)"
    "chan_inv (with_channel Channel_remove C)" "\<not> isWriting (with_channel Channel_remove C)"
    "chan_inv (with_channel Channel_enableReading C)"
    "isWriting (with_channel Channel_enableReading C) = isWriting C"
    "listening (with_channel Channel_enableReading C)"
    "listening C \<Longrightarrow> listening (with_channel Channel_enableWriting C)"
    "listening C \<Longrightarrow> listening (with_channel Channel_disableWriting C)"
    "conn_key (with_channel Channel_enableReading C) = conn_key C"
    "conn_key (with_channel Channel_enableWriting C) = conn_key C"
    "conn_key (with_channel Channel_disableWriting C) = conn_key C"
    "conn_key (with_channel Channel_disableAll C) = conn_key C"
    "conn_key (with_channel Channel_remove C) = conn_key C"
  using assms op_in_step [of "conn_channel C" "conn_epoll C"]
  by (simp_all add: chan_inv_def with_channel_def isWriting_def in_step_def WriteEvent_bits listening_def
      ReadEvent_bits conn_key_def)

lemma stream_inv_channel [simp]: "stream_inv (with_channel op C) = stream_inv C"
  by (simp add: stream_inv_def)

lemma inv_update_simps [simp]:
  "listening (C\<lparr>conn_state := st\<rparr>) = listening C" "conn_key (C\<lparr>conn_state := st\<rparr>) = conn_key C"
  "listening (C\<lparr>inBuffer := b\<rparr>) = listening C" "conn_key (C\<lparr>inBuffer := b\<rparr>) = conn_key C"
  "listening (C\<lparr>conn_context := x\<rparr>) = listening C" "conn_key (C\<lparr>conn_context := x\<rparr>) = conn_key C"
  "listening (C\<lparr>sock_writes := rs\<rparr>) = listening C" "conn_key (C\<lparr>sock_writes := rs\<rparr>) = conn_key C"
  "isWriting (C\<lparr>sock_writes := rs\<rparr>) = isWriting C"
  "listening (C\<lparr>sent_log := l\<rparr>) = listening C" "conn_key (C\<lparr>sent_log := l\<rparr>) = conn_key C"
  "isWriting (C\<lparr>sent_log := l\<rparr>) = isWriting C"
  "listening (C\<lparr>sock_wire := l\<rparr>) = listening C" "conn_key (C\<lparr>sock_wire := l\<rparr>) = conn_key C"
  "isWriting (C\<lparr>sock_wire := l\<rparr>) = isWriting C"
  "listening (C\<lparr>out_peak := n\<rparr>) = listening C" "conn_key (C\<lparr>out_peak := n\<rparr>) = conn_key C"
  "isWriting (C\<lparr>out_peak := n\<rparr>) = isWriting C"
  "listening (C\<lparr>outBuffer := b\<rparr>) = listening C" "conn_key (C\<lparr>outBuffer := b\<rparr>) = conn_key C"
  "isWriting (C\<lparr>outBuffer := b\<rparr>) = isWriting C"
  "stream_inv (C\<lparr>conn_state := st\<rparr>) = stream_inv C" "chan_inv (C\<lparr>conn_state := st\<rparr>) = chan_inv C"
  "isWriting (C\<lparr>conn_state := st\<rparr>) = isWriting C"
  "stream_inv (C\<lparr>inBuffer := b\<rparr>) = stream_inv C" "chan_inv (C\<lparr>inBuffer := b\<rparr>) = chan_inv C"
  "isWriting (C\<lparr>inBuffer := b\<rparr>) = isWriting C"
  "stream_inv (C\<lparr>conn_context := x\<rparr>) = stream_inv C" "chan_inv (C\<lparr>conn_context := x\<rparr>) = chan_inv C"
  "isWriting (C\<lparr>conn_context := x\<rparr>) = isWriting C"
  by (simp_all add: stream_inv_def chan_inv_def isWriting_def listening_def conn_key_def)

lemma conn_inv_consume: "conn_inv C \<Longrightarrow> conn_inv (C\<lparr>inBuffer := b, conn_context := x\<rparr>)"
  by (simp add: conn_inv_def)

lemma conn_inv_inBuffer: "conn_inv C \<Longrightarrow> conn_inv (C\<lparr>inBuffer := b\<rparr>)"
  by (simp add: conn_inv_def)

text \<open>What is left in the output buffer when the kernel takes some of it.\<close>

lemma contents_eq_range:
  "contents b = Buffer_range b (Buffer_peek b) (Buffer_peek b + Buffer_readbleBytes b)"
  by (simp add: contents_def Buffer_peek_def Buffer_readbleBytes_def)

lemma sys_write_cases:
  obtains rs where "sys_write data C = (-1, C\<lparr>sock_writes := rs\<rparr>)"
  | n rs where "n \<le> length data"
    "sys_write data C = (int n, C\<lparr>sock_writes := rs, sock_wire := sock_wire C @ take n data\<rparr>)"
proof (cases "sock_writes C")
  case Nil
  have "C\<lparr>sock_writes := sock_writes C\<rparr> = C" by simp
  with Nil show thesis using that(1) [of "[]"] by (simp add: sys_write_def)
next
  case (Cons r rs)
  show thesis
  proof (cases r)
    case (WriteErr e)
    with Cons show thesis using that(1) [of rs] by (simp add: sys_write_def)
  next
    case (Wrote k)
    have "take k data = take (min k (length data)) data" by (simp add: min_def)
    with Wrote Cons show thesis using that(2) [of "min k (length data)" rs] by (simp add: sys_write_def)
  qed
qed

section \<open>Every step keeps the invariant\<close>

lemma append_stream:
  assumes "Buffer_inv b" and "p \<ge> length (contents b) + length s"
    and "p < 1024 \<Longrightarrow> capacity (buffer b) = 1024"
  shows "Buffer_inv (Buffer_append s b)" "length (contents (Buffer_append s b)) \<le> p"
    "p < 1024 \<Longrightarrow> capacity (buffer (Buffer_append s b)) = 1024 \<and> contents (Buffer_append s b) = contents b @ s"
proof -
  show "Buffer_inv (Buffer_append s b)" using assms(1) by simp
  show "length (contents (Buffer_append s b)) \<le> p"
    using assms(1,2) by (auto simp: append_contents grown_contents_def survivors_def)
  show "p < 1024 \<Longrightarrow> capacity (buffer (Buffer_append s b)) = 1024 \<and> contents (Buffer_append s b) = contents b @ s"
    using append_in_place [OF assms(1), of s] assms(2,3) by simp
qed

text \<open>The part of \<open>sendInLoop\<close> behind the system call: the rest goes to the output buffer.\<close>

definition keep_rest :: "string \<Rightarrow> 'x TcpConnection \<Rightarrow> 'x TcpConnection" where
  "keep_rest rest C =
     (if rest \<noteq> [] then
        let C = C\<lparr>out_peak := max (out_peak C) (length (contents (outBuffer C)) + length rest),
                  outBuffer := Buffer_append rest (outBuffer C)\<rparr>
        in if \<not> isWriting C then with_channel Channel_enableWriting C else C
      else C)"

lemma sendInLoop_idle:
  assumes "\<not> isWriting C" and "contents (outBuffer C) = []" and "Buffer_inv (outBuffer C)"
  obtains rs n where "n \<le> length data"
    "TcpConnection_sendInLoop (conn_loop C) data C =
      Inr (keep_rest (drop n data) (C\<lparr>sent_log := sent_log C @ data, sock_writes := rs,
        sock_wire := sock_wire C @ take n data\<rparr>))"
proof -
  let ?C = "C\<lparr>sent_log := sent_log C @ data\<rparr>"
  have r: "Buffer_readbleBytes (outBuffer C) = 0" using assms(2,3) by (simp add: contents_readble)
  have w: "isWriting ?C = isWriting C" by simp
  consider rs where "sys_write data ?C = (-1, ?C\<lparr>sock_writes := rs\<rparr>)"
    | n rs where "n \<le> length data"
      "sys_write data ?C = (int n, ?C\<lparr>sock_writes := rs, sock_wire := sock_wire ?C @ take n data\<rparr>)"
    by (rule sys_write_cases)
  then show thesis
  proof cases
    case 1
    have "C\<lparr>sent_log := sent_log C @ data, sock_writes := rs, sock_wire := sock_wire C\<rparr>
        = ?C\<lparr>sock_writes := rs\<rparr>" by simp
    with 1 show thesis
      using assms(1) r by (intro that [of 0 rs])
        (auto simp: TcpConnection_sendInLoop_def w keep_rest_def Let_def)
  next
    case 2
    then show thesis
      using assms(1) r by (intro that [of n rs])
        (auto simp: TcpConnection_sendInLoop_def w keep_rest_def Let_def)
  qed
qed

lemma sendInLoop_busy:
  assumes "isWriting C \<or> contents (outBuffer C) \<noteq> []" and "Buffer_inv (outBuffer C)"
  shows "TcpConnection_sendInLoop (conn_loop C) data C =
      Inr (keep_rest data (C\<lparr>sent_log := sent_log C @ data\<rparr>))"
proof -
  have w: "isWriting (C\<lparr>sent_log := sent_log C @ data\<rparr>) = isWriting C" by (simp add: isWriting_def)
  have "isWriting C \<or> Buffer_readbleBytes (outBuffer C) \<noteq> 0"
    using assms by (auto simp: contents_readble)
  then show ?thesis by (auto simp: TcpConnection_sendInLoop_def w keep_rest_def Let_def)
qed

lemma keep_rest_simps [simp]:
  "conn_loop (keep_rest s C) = conn_loop C" "conn_state (keep_rest s C) = conn_state C"
  "inBuffer (keep_rest s C) = inBuffer C" "conn_context (keep_rest s C) = conn_context C"
  "conn_name (keep_rest s C) = conn_name C" "sent_log (keep_rest s C) = sent_log C"
  "sock_wire (keep_rest s C) = sock_wire C" "sock_writes (keep_rest s C) = sock_writes C"
  by (simp_all add: keep_rest_def Let_def)

lemma keep_rest_key: "chan_inv C \<Longrightarrow> conn_key (keep_rest s C) = conn_key C"
  using with_channel_inv(15) [of "C\<lparr>out_peak := max (out_peak C) (length (contents (outBuffer C)) + length s),
      outBuffer := Buffer_append s (outBuffer C)\<rparr>"]
  by (simp add: keep_rest_def Let_def chan_inv_def)

lemma keep_rest_inv:
  assumes "conn_state C \<noteq> kConnecting" and "Buffer_inv (outBuffer C)" "length (contents (outBuffer C)) \<le> out_peak C" "chan_inv C"
    and "out_peak C < 1024 \<longrightarrow> capacity (buffer (outBuffer C)) = 1024
      \<and> sock_wire C @ contents (outBuffer C) @ rest = sent_log C"
    and "conn_state C \<noteq> kDisconnected \<longrightarrow> (isWriting C \<longleftrightarrow> contents (outBuffer C) \<noteq> []) \<and> listening C"
    and "conn_state C = kDisconnecting \<longrightarrow> contents (outBuffer C) \<noteq> []"
  shows "conn_inv (keep_rest rest C)"
proof (cases "rest = []")
  case True
  with assms show ?thesis by (simp add: keep_rest_def conn_inv_def stream_inv_def)
next
  case False
  let ?p = "max (out_peak C) (length (contents (outBuffer C)) + length rest)"
  let ?C = "C\<lparr>out_peak := ?p, outBuffer := Buffer_append rest (outBuffer C)\<rparr>"
  note a = append_stream [OF assms(2), of rest ?p]
  have c: "chan_inv ?C" "isWriting ?C = isWriting C" "listening ?C = listening C"
    using assms(4) by (simp_all add: chan_inv_def)
  have s: "stream_inv ?C"
    using a assms(5) by (auto simp: stream_inv_def)
  have n: "contents (Buffer_append rest (outBuffer C)) \<noteq> []"
    using False by (simp add: append_contents [OF assms(2)])
  have k: "keep_rest rest C = (if \<not> isWriting C then with_channel Channel_enableWriting ?C else ?C)"
    using False c(2) by (simp add: keep_rest_def Let_def)
  show ?thesis
    using s n c with_channel_inv(1,2,12) [OF c(1)] assms(1,6) unfolding k conn_inv_def by simp
qed

lemma sendInLoop_inv:
  assumes "conn_inv C"
  obtains C' where "TcpConnection_sendInLoop (conn_loop C) data C = Inr C'" "conn_inv C'"
    "conn_state C' = conn_state C" "conn_loop C' = conn_loop C" "inBuffer C' = inBuffer C"
    "conn_context C' = conn_context C" "sent_log C' = sent_log C @ data" "conn_key C' = conn_key C"
proof -
  have i: "Buffer_inv (outBuffer C)" "length (contents (outBuffer C)) \<le> out_peak C" "chan_inv C"
    using assms by (simp_all add: conn_inv_def stream_inv_def)
  show thesis
  proof (cases "\<not> isWriting C \<and> contents (outBuffer C) = []")
    case True
    then obtain rs n where n: "n \<le> length data" "TcpConnection_sendInLoop (conn_loop C) data C =
        Inr (keep_rest (drop n data) (C\<lparr>sent_log := sent_log C @ data, sock_writes := rs,
          sock_wire := sock_wire C @ take n data\<rparr>))" (is "_ = Inr (keep_rest _ ?C)")
      using sendInLoop_idle [of C data] i(1) by metis
    have "conn_inv (keep_rest (drop n data) ?C)"
      using assms i True
      by (intro keep_rest_inv) (simp_all add: conn_inv_def stream_inv_def chan_inv_def)
    moreover have "conn_key (keep_rest (drop n data) ?C) = conn_key C"
      using keep_rest_key [of ?C] i(3) by (simp add: chan_inv_def)
    ultimately show thesis using n that by simp
  next
    case False
    then have e: "TcpConnection_sendInLoop (conn_loop C) data C =
        Inr (keep_rest data (C\<lparr>sent_log := sent_log C @ data\<rparr>))" (is "_ = Inr (keep_rest _ ?C)")
      using sendInLoop_busy [of C data] i(1) by metis
    have "conn_inv (keep_rest data ?C)"
      using assms i
      by (intro keep_rest_inv) (simp_all add: conn_inv_def stream_inv_def chan_inv_def)
    moreover have "conn_key (keep_rest data ?C) = conn_key C"
      using keep_rest_key [of ?C] i(3) by (simp add: chan_inv_def)
    ultimately show thesis using e that by simp
  qed
qed

text \<open>What a step tells: the close callback is called at most once, on the way to \<open>kDisconnected\<close>.\<close>

definition closes :: "effect list \<Rightarrow> nat" where
  "closes es = length (filter (\<lambda>e. e = Call CloseCallback) es)"

lemma closes_simps [simp]: "closes [] = 0" "closes (e # es) = (if e = Call CloseCallback then Suc (closes es) else closes es)"
  "closes (es @ es') = closes es + closes es'"
  by (simp_all add: closes_def)

definition step_ok :: "'x TcpConnection \<Rightarrow> 'x TcpConnection \<times> effect list \<Rightarrow> bool" where
  "step_ok C r \<longleftrightarrow> conn_inv (fst r) \<and> conn_loop (fst r) = conn_loop C \<and> conn_key (fst r) = conn_key C
     \<and> (conn_state C = kDisconnected \<longrightarrow> conn_state (fst r) = kDisconnected)
     \<and> closes (snd r) \<le> (if conn_state C = kDisconnected then 0 else 1)
     \<and> (closes (snd r) \<noteq> 0 \<longrightarrow> conn_state (fst r) = kDisconnected)"

lemma step_ok_same: "conn_inv C \<Longrightarrow> closes es = 0 \<Longrightarrow> step_ok C (C, es)"
  by (simp add: step_ok_def)

lemma conn_inv_closed: "conn_inv C \<Longrightarrow> conn_inv (C\<lparr>conn_state := kDisconnected\<rparr>)"
  by (simp add: conn_inv_def)

lemma handleClose_closing:
  assumes "conn_inv (C\<lparr>conn_state := kDisconnected\<rparr>)"
  shows "TcpConnection_handleClose (conn_loop C) C =
      (if conn_state C = kDisconnecting \<or> conn_state C = kConnected then
         Inr (with_channel Channel_disableAll (C\<lparr>conn_state := kDisconnected\<rparr>), [Call CloseCallback])
       else Inr (C, []))"
    and "conn_inv (with_channel Channel_disableAll (C\<lparr>conn_state := kDisconnected\<rparr>))"
    and "conn_inv (with_channel Channel_remove (C\<lparr>conn_state := kDisconnected\<rparr>))"
    and "conn_key (with_channel Channel_disableAll (C\<lparr>conn_state := kDisconnected\<rparr>)) = conn_key C"
proof -
  show "TcpConnection_handleClose (conn_loop C) C =
      (if conn_state C = kDisconnecting \<or> conn_state C = kConnected then
         Inr (with_channel Channel_disableAll (C\<lparr>conn_state := kDisconnected\<rparr>), [Call CloseCallback])
       else Inr (C, []))"
    by (simp add: TcpConnection_handleClose_def Let_def)
  show "conn_inv (with_channel Channel_disableAll (C\<lparr>conn_state := kDisconnected\<rparr>))"
    "conn_inv (with_channel Channel_remove (C\<lparr>conn_state := kDisconnected\<rparr>))"
    "conn_key (with_channel Channel_disableAll (C\<lparr>conn_state := kDisconnected\<rparr>)) = conn_key C"
    using assms with_channel_inv(5,7,17) [of "C\<lparr>conn_state := kDisconnected\<rparr>"] by (simp_all add: conn_inv_def)
qed

lemmas handleClose_eq = handleClose_closing [OF conn_inv_closed]

lemma handleClose_ok:
  assumes "conn_inv C"
  obtains r where "TcpConnection_handleClose (conn_loop C) C = Inr r" "step_ok C r"
proof (cases "conn_state C = kDisconnecting \<or> conn_state C = kConnected")
  case True
  with handleClose_eq [OF assms] that [of "(with_channel Channel_disableAll (C\<lparr>conn_state := kDisconnected\<rparr>),
      [Call CloseCallback])"] show thesis by (auto simp: step_ok_def)
next
  case False
  with handleClose_eq(1) [OF assms] that [of "(C, [])"] step_ok_same [OF assms] show thesis by simp
qed

lemma destroyed_inv:
  assumes "conn_inv C"
  shows "conn_inv (TcpConnection_connectionDestroyed C)"
    "\<not> isWriting (TcpConnection_connectionDestroyed C)"
    "conn_state (TcpConnection_connectionDestroyed C) = kDisconnected"
    "conn_loop (TcpConnection_connectionDestroyed C) = conn_loop C"
    "conn_key (TcpConnection_connectionDestroyed C) = conn_key C"
    "conn_epoll (TcpConnection_connectionDestroyed C) (chan_fd (conn_channel C)) = None"
proof -
  define D where "D = (if conn_state C = kDisconnected then C
    else with_channel Channel_disableAll (C\<lparr>conn_state := kDisconnected\<rparr>))"
  have e: "TcpConnection_connectionDestroyed C = with_channel Channel_remove D"
    using assms by (cases "conn_state C") (simp_all add: D_def TcpConnection_connectionDestroyed_def conn_inv_def)
  have d: "conn_inv D" "conn_state D = kDisconnected" "conn_loop D = conn_loop C"
    "chan_fd (conn_channel D) = chan_fd (conn_channel C)" "conn_key D = conn_key C"
    using assms handleClose_eq(2,4) [OF assms] op_in_step [of "conn_channel C" "conn_epoll C"]
    by (simp_all add: D_def conn_inv_def chan_inv_def with_channel_def)
  have u: "D\<lparr>conn_state := kDisconnected\<rparr> = D"
    unfolding d(2) [symmetric] by simp
  show "conn_inv (TcpConnection_connectionDestroyed C)"
    "\<not> isWriting (TcpConnection_connectionDestroyed C)"
    "conn_state (TcpConnection_connectionDestroyed C) = kDisconnected"
    "conn_loop (TcpConnection_connectionDestroyed C) = conn_loop C"
    "conn_key (TcpConnection_connectionDestroyed C) = conn_key C"
    using handleClose_eq(3) [OF d(1)] u with_channel_inv(8,18) [of D] d unfolding e
    by (simp_all add: conn_inv_def)
  show "conn_epoll (TcpConnection_connectionDestroyed C) (chan_fd (conn_channel C)) = None"
    using d op_in_step(6) [of "conn_channel D" "conn_epoll D"] unfolding e
    by (simp add: conn_inv_def chan_inv_def with_channel_def)
qed

lemma destroyed_ok:
  "conn_inv C \<Longrightarrow> closes es = 0 \<Longrightarrow> step_ok C (TcpConnection_connectionDestroyed C, es)"
  by (simp add: step_ok_def destroyed_inv)

lemma sendInLoop_ok:
  assumes "conn_inv C"
  obtains C' where "TcpConnection_sendInLoop (conn_loop C) data C = Inr C'" "step_ok C (C', [])"
proof -
  obtain C' where "TcpConnection_sendInLoop (conn_loop C) data C = Inr C'" "conn_inv C'"
    "conn_state C' = conn_state C" "conn_loop C' = conn_loop C" "conn_key C' = conn_key C"
    using sendInLoop_inv [OF assms] by metis
  with that show thesis by (simp add: step_ok_def)
qed

lemma handleRead_ok:
  assumes "conn_inv C"
  obtains p where "TcpConnection_handleRead (conn_loop C) r now C = Inr p" "step_ok C p"
proof -
  obtain n e b where f: "Buffer_readFd r (inBuffer C) = (n, e, b)" by (cases "Buffer_readFd r (inBuffer C)")
  let ?C = "C\<lparr>inBuffer := b\<rparr>"
  have i: "conn_inv ?C" using assms by (rule conn_inv_inBuffer)
  obtain p where p: "TcpConnection_handleClose (conn_loop ?C) ?C = Inr p" "step_ok ?C p"
    using handleClose_ok [OF i] by metis
  have s: "step_ok C q" if "step_ok ?C q" for q using that by (simp add: step_ok_def)
  have "step_ok ?C (?C, [Call (MessageCallback now)])" "step_ok ?C (?C, [])"
    by (rule step_ok_same [OF i], simp)+
  with p s that f show thesis
    by (cases "n > 0"; cases "n = 0") (simp_all add: TcpConnection_handleRead_def)
qed

text \<open>
  \<open>handleWrite\<close> on a connection that is writing: nothing is written, or the \<open>n\<close> first bytes of
  the output buffer; when that empties it, writing is disabled, and a connection that is
  disconnecting is closed.
\<close>

definition drained :: "nat \<Rightarrow> write_result list \<Rightarrow> 'x TcpConnection \<Rightarrow> 'x TcpConnection" where
  "drained n rs C = C\<lparr>sock_writes := rs, sock_wire := sock_wire C @ take n (contents (outBuffer C)),
     outBuffer := snd (Buffer_retrieve (int n) (outBuffer C))\<rparr>"

lemma handleWrite_cases:
  assumes "isWriting C" and "Buffer_inv (outBuffer C)"
  obtains rs where "TcpConnection_handleWrite (conn_loop C) C = Inr (C\<lparr>sock_writes := rs\<rparr>, [])"
      "\<forall>k. hd (sock_writes C) = Wrote k \<and> sock_writes C \<noteq> [] \<longrightarrow> k = 0 \<or> contents (outBuffer C) = []"
  | n rs where "0 < n" "n \<le> length (contents (outBuffer C))"
      "\<forall>k. sock_writes C = Wrote k # rs \<longrightarrow> n = min k (length (contents (outBuffer C)))" "rs = tl (sock_writes C)"
      "TcpConnection_handleWrite (conn_loop C) C =
        (let C' = drained n rs C
         in if contents (outBuffer C') = [] then
              let C' = with_channel Channel_disableWriting C'
              in if conn_state C = kDisconnecting then TcpConnection_handleClose (conn_loop C) C'
                 else Inr (C', [])
            else Inr (C', []))"
proof -
  let ?out = "outBuffer C" and ?data = "contents (outBuffer C)"
  have r: "\<not> Buffer_readbleBytes ?out < 0"
    using assms(2) by (simp add: contents_readble)
  have range: "Buffer_range ?out (Buffer_peek ?out) (Buffer_peek ?out + Buffer_readbleBytes ?out) = ?data"
    by (rule contents_eq_range [symmetric])
  show thesis
  proof (cases "\<exists>k rs. sock_writes C = Wrote k # rs \<and> 0 < k \<and> ?data \<noteq> []")
    case False
    obtain n rs where w: "sys_write ?data C = (n, C\<lparr>sock_writes := rs\<rparr>)" "\<not> n > 0"
    proof (cases "sock_writes C")
      case Nil
      have "C\<lparr>sock_writes := []\<rparr> = C" unfolding Nil [symmetric] by simp
      with Nil that [of "-1" "[]"] show thesis by (simp add: sys_write_def)
    next
      case (Cons x xs)
      show thesis
      proof (cases x)
        case (WriteErr e)
        with Cons that [of "-1" xs] show thesis by (simp add: sys_write_def)
      next
        case (Wrote k)
        with False Cons have "k = 0 \<or> ?data = []" by auto
        then have "take k ?data = []" "min k (length ?data) = 0" by auto
        moreover have "C\<lparr>sock_writes := xs, sock_wire := sock_wire C\<rparr> = C\<lparr>sock_writes := xs\<rparr>" by simp
        ultimately show thesis using Wrote Cons that [of 0 xs] by (simp add: sys_write_def)
      qed
    qed
    have "TcpConnection_handleWrite (conn_loop C) C = Inr (C\<lparr>sock_writes := rs\<rparr>, [])"
      using assms(1) r w by (simp add: TcpConnection_handleWrite_def range Let_def)
    moreover have "\<forall>k. hd (sock_writes C) = Wrote k \<and> sock_writes C \<noteq> [] \<longrightarrow> k = 0 \<or> ?data = []"
      using False by (cases "sock_writes C") auto
    ultimately show thesis by (rule that(1))
  next
    case True
    then obtain k rs where k: "sock_writes C = Wrote k # rs" "0 < k" "?data \<noteq> []" by blast
    let ?n = "min k (length ?data)"
    let ?D = "drained ?n rs C"
    have t: "take k ?data = take ?n ?data" by (simp add: min_def)
    have w: "sys_write ?data C = (int ?n, C\<lparr>sock_writes := rs, sock_wire := sock_wire C @ take k ?data\<rparr>)"
      by (simp add: sys_write_def k(1))
    have n: "0 < ?n" using k by simp
    let ?b = "snd (Buffer_retrieve (int ?n) ?out)"
    have z: "(Buffer_readbleBytes ?b = 0) = (contents ?b = [])"
      using assms(2) by (simp add: contents_Nil_iff)
    have "TcpConnection_handleWrite (conn_loop C) C =
        (let C' = C\<lparr>sock_writes := rs, sock_wire := sock_wire C @ take k ?data, outBuffer := ?b\<rparr>
         in if Buffer_readbleBytes ?b = 0 then
              let C' = with_channel Channel_disableWriting C'
              in if conn_state C = kDisconnecting then TcpConnection_handleClose (conn_loop C) C'
                 else Inr (C', [])
            else Inr (C', []))"
      using assms(1) r n by (simp add: TcpConnection_handleWrite_def range w Let_def del: min_less_iff_conj)
    then have "TcpConnection_handleWrite (conn_loop C) C =
        (let C' = ?D
         in if contents (outBuffer C') = [] then
              let C' = with_channel Channel_disableWriting C'
              in if conn_state C = kDisconnecting then TcpConnection_handleClose (conn_loop C) C'
                 else Inr (C', [])
            else Inr (C', []))"
      unfolding z t drained_def by simp
    with n k(1) show thesis by (intro that(2)) auto
  qed
qed

lemma drained_inv:
  assumes "conn_inv C" and "n \<le> length (contents (outBuffer C))"
  shows "stream_inv (drained n rs C)" "chan_inv (drained n rs C)"
    "contents (outBuffer (drained n rs C)) = drop n (contents (outBuffer C))"
    "conn_state (drained n rs C) = conn_state C" "conn_loop (drained n rs C) = conn_loop C"
    "isWriting (drained n rs C) = isWriting C" "sent_log (drained n rs C) = sent_log C"
    "out_peak (drained n rs C) = out_peak C" "sock_writes (drained n rs C) = rs"
    "sock_wire (drained n rs C) = sock_wire C @ take n (contents (outBuffer C))"
    "listening (drained n rs C) = listening C" "conn_key (drained n rs C) = conn_key C"
proof -
  have b: "Buffer_inv (outBuffer C)" using assms(1) by (simp add: conn_inv_def stream_inv_def)
  show d: "contents (outBuffer (drained n rs C)) = drop n (contents (outBuffer C))"
    using b by (simp add: drained_def retrieve_contents)
  show "stream_inv (drained n rs C)"
    using assms b unfolding stream_inv_def d
    by (auto simp: drained_def conn_inv_def stream_inv_def retrieve_inv)
qed (use assms in \<open>simp_all add: drained_def conn_inv_def chan_inv_def\<close>)

lemma handleWrite_ok:
  assumes "conn_inv C"
  obtains C' es where "TcpConnection_handleWrite (conn_loop C) C = Inr (C', es)" "step_ok C (C', es)"
    "sent_log C' = sent_log C" "out_peak C' = out_peak C"
    "conn_state C' = conn_state C \<or> conn_state C' = kDisconnected"
    "conn_state C = kConnected \<Longrightarrow> es = []"
    "es \<noteq> [] \<Longrightarrow> contents (outBuffer C') = [] \<and> conn_state C = kDisconnecting \<and> es = [Call CloseCallback]"
    "contents (outBuffer C) = [] \<Longrightarrow> contents (outBuffer C') = []"
proof (cases "isWriting C")
  case False
  then have "TcpConnection_handleWrite (conn_loop C) C = Inr (C, [])"
    by (simp add: TcpConnection_handleWrite_def)
  with that [of C "[]"] step_ok_same [OF assms] show thesis by simp
next
  case True
  have b: "Buffer_inv (outBuffer C)" using assms by (simp add: conn_inv_def stream_inv_def)
  consider (none) rs where "TcpConnection_handleWrite (conn_loop C) C = Inr (C\<lparr>sock_writes := rs\<rparr>, [])"
    | (some) n rs where "0 < n" "n \<le> length (contents (outBuffer C))"
      "TcpConnection_handleWrite (conn_loop C) C =
        (let C' = drained n rs C
         in if contents (outBuffer C') = [] then
              let C' = with_channel Channel_disableWriting C'
              in if conn_state C = kDisconnecting then TcpConnection_handleClose (conn_loop C) C'
                 else Inr (C', [])
            else Inr (C', []))"
    using handleWrite_cases [OF True b] by metis
  then show thesis
  proof cases
    case none
    have "conn_inv (C\<lparr>sock_writes := rs\<rparr>)"
      using assms by (simp add: conn_inv_def stream_inv_def chan_inv_def isWriting_def)
    with none that [of "C\<lparr>sock_writes := rs\<rparr>" "[]"] show thesis by (simp add: step_ok_def)
  next
    case some
    note d = drained_inv [OF assms some(2), of rs]
    let ?D = "drained n rs C" and ?E = "with_channel Channel_disableWriting (drained n rs C)"
    show thesis
    proof (cases "drop n (contents (outBuffer C)) = []")
      case False
      then have "TcpConnection_handleWrite (conn_loop C) C = Inr (?D, [])"
        using some(3) by (simp only: Let_def d(3) if_False)
      moreover have "conn_inv ?D"
        using d assms True False by (auto simp: conn_inv_def)
      ultimately show thesis using that [of ?D "[]"] d some(1,2) by (simp add: step_ok_def)
    next
      case empty: True
      have e: "conn_state C \<noteq> kDisconnecting \<Longrightarrow> conn_inv ?E" "conn_inv (?E\<lparr>conn_state := kDisconnected\<rparr>)"
        using d assms empty with_channel_inv(3,4,13) [OF d(2)] by (simp_all add: conn_inv_def)
      have l: "conn_loop ?E = conn_loop C" "conn_state ?E = conn_state C" "conn_key ?E = conn_key C"
        using d with_channel_inv(16) [OF d(2)] by simp_all
      have w: "TcpConnection_handleWrite (conn_loop C) C =
          (if conn_state C = kDisconnecting then TcpConnection_handleClose (conn_loop C) ?E else Inr (?E, []))"
        using some(3) by (simp only: Let_def d(3) empty refl if_True)
      show thesis
      proof (cases "conn_state C = kDisconnecting")
        case False
        with w e d l empty that [of ?E "[]"] show thesis by (simp add: step_ok_def)
      next
        case dis: True
        let ?F = "with_channel Channel_disableAll (?E\<lparr>conn_state := kDisconnected\<rparr>)"
        have "TcpConnection_handleClose (conn_loop C) ?E = Inr (?F, [Call CloseCallback])"
          using handleClose_closing(1) [OF e(2)] dis l by simp
        with w dis have "TcpConnection_handleWrite (conn_loop C) C = Inr (?F, [Call CloseCallback])" by simp
        with handleClose_closing(2,4) [OF e(2)] d l dis empty that [of ?F "[Call CloseCallback]"] show thesis
          by (simp add: step_ok_def)
      qed
    qed
  qed
qed

lemma closeInLoop_ok:
  assumes "conn_inv C"
  obtains C' es where "TcpConnection_closeConnectionInLoop (conn_loop C) C = Inr (C', es)" "step_ok C (C', es)"
    "sent_log C' = sent_log C" "out_peak C' = out_peak C"
    "es \<noteq> [] \<Longrightarrow> contents (outBuffer C') = []"
    "conn_state C = kConnected \<Longrightarrow> conn_state C' = (if isWriting C then kDisconnecting else kDisconnected)"
    "isWriting C \<Longrightarrow> es = [] \<and> sock_wire C' = sock_wire C \<and> contents (outBuffer C') = contents (outBuffer C)
       \<and> isWriting C' \<and> sock_writes C' = sock_writes C"
proof (cases "conn_state C = kConnected")
  case False
  then have "TcpConnection_closeConnectionInLoop (conn_loop C) C = Inr (C, [])"
    using assms by (simp add: TcpConnection_closeConnectionInLoop_def conn_inv_def)
  with that [of C "[]"] step_ok_same [OF assms] False show thesis by simp
next
  case con: True
  show thesis
  proof (cases "isWriting C")
    case True
    let ?C = "C\<lparr>conn_state := kDisconnecting\<rparr>"
    have "TcpConnection_closeConnectionInLoop (conn_loop C) C = Inr (?C, [])"
      using con True by (simp add: TcpConnection_closeConnectionInLoop_def)
    moreover have "conn_inv ?C" using assms con True by (simp add: conn_inv_def)
    ultimately show thesis using that [of ?C "[]"] con True by (simp add: step_ok_def)
  next
    case False
    let ?F = "with_channel Channel_disableAll (C\<lparr>conn_state := kDisconnected\<rparr>)"
    have "TcpConnection_closeConnectionInLoop (conn_loop C) C = Inr (?F, [Call CloseCallback])"
      using con False handleClose_eq(1) [OF assms] by (simp add: TcpConnection_closeConnectionInLoop_def)
    moreover have "contents (outBuffer C) = []" using assms con False by (simp add: conn_inv_def)
    ultimately show thesis
      using that [of ?F "[Call CloseCallback]"] handleClose_eq(2,4) [OF assms] con False by (simp add: step_ok_def)
  qed
qed

lemma conn_step_ok:
  assumes "conn_inv C"
  obtains r where "conn_step op C = Inr r" "step_ok C r"
proof (cases op)
  case (Handle h r now)
  show thesis
  proof (cases h)
    case HandleRead
    with Handle handleRead_ok [OF assms] that show thesis by (metis conn_step.simps(1) run_handler.simps(1))
  next
    case HandleClose
    with Handle handleClose_ok [OF assms] that show thesis by (metis conn_step.simps(1) run_handler.simps(2))
  next
    case HandleError
    with Handle that step_ok_same [OF assms] show thesis by (simp add: TcpConnection_handleError_def)
  next
    case HandleWrite
    with Handle handleWrite_ok [OF assms] that show thesis by (metis conn_step.simps(1) run_handler.simps(4))
  next
    case HandleHup
    with Handle that destroyed_ok [OF assms, of "[Call RemoveConnectionFromMap]"] show thesis
      by (simp add: TcpConnection_handleHup_def)
  qed
next
  case (Send cur data)
  obtain C' where s: "TcpConnection_sendInLoop (conn_loop C) data C = Inr C'" "step_ok C (C', [])"
    using sendInLoop_ok [OF assms] by metis
  show thesis
    using Send that s step_ok_same [OF assms]
    by (cases "conn_state C = kConnected"; cases "cur = conn_loop C") (auto simp: TcpConnection_send_def)
next
  case Close
  with that step_ok_same [OF assms] show thesis
    by (auto simp: TcpConnection_closeConnection_def split: if_splits)
next
  case (Functor f)
  show thesis
  proof (cases f)
    case CloseConnectionInLoop
    with Functor closeInLoop_ok [OF assms] that show thesis
      by (metis conn_step.simps(4) run_conn_functor.simps(1))
  next
    case (SendInLoop data)
    with Functor sendInLoop_ok [OF assms] that show thesis
      by (metis andThen_Inr conn_step.simps(4) run_conn_functor.simps(2))
  next
    case ConnectionDestroyed
    with Functor destroyed_ok [OF assms] that show thesis by simp
  qed
next
  case (Consume buf ctx)
  with that conn_inv_consume [OF assms] show thesis by (simp add: step_ok_def)
qed

lemma conn_run_ok:
  assumes "conn_inv C"
  obtains r where "conn_run ops C = Inr r" "step_ok C r"
proof -
  from assms have "\<exists>r. conn_run ops C = Inr r \<and> step_ok C r"
  proof (induction ops arbitrary: C)
    case Nil
    then show ?case by (simp add: step_ok_same)
  next
    case (Cons op ops)
    obtain C1 es1 where 1: "conn_step op C = Inr (C1, es1)" "step_ok C (C1, es1)"
      using conn_step_ok [OF Cons.prems] by (metis surj_pair)
    then have "conn_inv C1" by (simp add: step_ok_def)
    then obtain C2 es2 where 2: "conn_run ops C1 = Inr (C2, es2)" "step_ok C1 (C2, es2)"
      using Cons.IH by (metis surj_pair)
    have "step_ok C (C2, es1 @ es2)"
      using 1(2) 2(2) by (cases "closes es1 = 0") (auto simp: step_ok_def split: if_splits)
    with 1 2 show ?case by simp
  qed
  with that show thesis by blast
qed

text \<open>A connection right after \<open>connectionEstablish\<close>.\<close>

definition established ::
  "nat \<Rightarrow> nat \<Rightarrow> string \<Rightarrow> int \<Rightarrow> NetAddr \<Rightarrow> NetAddr \<Rightarrow> write_result list \<Rightarrow> 'x TcpConnection" where
  "established ptr loop name fd local peer writes =
     fst (TcpConnection_connectionEstablish (TcpConnection_new ptr loop name fd local peer writes))"

lemma established_inv: "0 \<le> fd \<Longrightarrow> conn_inv (established ptr loop name fd local peer writes :: 'x TcpConnection)"
proof -
  assume fd: "0 \<le> fd"
  let ?ch = "(Channel_tie (Channel_new ptr fd))
            \<lparr>readCallback := Some HandleRead, closeCallback := Some HandleClose,
             errorCallback := Some HandleError, writeCallback := Some HandleWrite,
             hupCallback := Some HandleHup\<rparr>"
  let ?C = "(TcpConnection_new ptr loop name fd local peer writes :: 'x TcpConnection)\<lparr>conn_channel := ?ch\<rparr>"
  have c: "chan_inv ?C" "\<not> isWriting ?C"
    using fd by (simp_all add: chan_inv_def isWriting_def TcpConnection_new_def Channel_new_def Channel_tie_def
        in_step_def)
  have "stream_inv ?C"
    by (simp add: stream_inv_def TcpConnection_new_def DEFAULTINITSIZE_def)
  moreover have e: "established ptr loop name fd local peer writes
      = (with_channel Channel_enableReading ?C)\<lparr>conn_state := kConnected\<rparr>"
    by (simp add: established_def TcpConnection_connectionEstablish_def TcpConnection_establishChannel_def TcpConnection_new_def)
  moreover have "contents (outBuffer ?C) = []" by (simp add: TcpConnection_new_def)
  ultimately show ?thesis
    using with_channel_inv(9,10,11) [OF c(1)] c(2) unfolding e conn_inv_def by simp
qed

lemma established_simps:
  "conn_state (established ptr loop name fd local peer writes) = kConnected"
  "conn_loop (established ptr loop name fd local peer writes) = loop"
  "sock_writes (established ptr loop name fd local peer writes) = writes"
  "sock_wire (established ptr loop name fd local peer writes) = []"
  "sent_log (established ptr loop name fd local peer writes) = []"
  "out_peak (established ptr loop name fd local peer writes) = 0"
  "outBuffer (established ptr loop name fd local peer writes) = Buffer_new DEFAULTINITSIZE"
  "inBuffer (established ptr loop name fd local peer writes) = Buffer_new DEFAULTINITSIZE"
  "conn_key (established ptr loop name fd local peer writes) = (name, ptr, fd)"
  by (simp_all add: established_def TcpConnection_connectionEstablish_def TcpConnection_establishChannel_def TcpConnection_new_def conn_key_def
      with_channel_def Channel_enableReading_def Channel_update_def EventLoop_upDateChannel_def
      Poller_upDateChannel_def Channel_tie_def Channel_new_def)

text \<open>Only write events, and the end of a connection that has nothing left to write.\<close>

definition write_event :: "'x conn_op" where
  "write_event = Handle HandleWrite (ReadErr 0) (Timestamp 0)"

lemma write_events_ok:
  assumes "conn_inv C"
  obtains C' es where "conn_run (replicate n write_event) C = Inr (C', es)" "step_ok C (C', es)"
    "sent_log C' = sent_log C" "out_peak C' = out_peak C"
    "es \<noteq> [] \<or> contents (outBuffer C) = [] \<Longrightarrow> contents (outBuffer C') = []"
proof -
  from assms have "\<exists>C' es. conn_run (replicate n write_event) C = Inr (C', es) \<and> step_ok C (C', es)
    \<and> sent_log C' = sent_log C \<and> out_peak C' = out_peak C
    \<and> (es \<noteq> [] \<or> contents (outBuffer C) = [] \<longrightarrow> contents (outBuffer C') = [])"
  proof (induction n arbitrary: C)
    case 0
    then show ?case by (simp add: step_ok_same)
  next
    case (Suc n)
    obtain C1 es1 where 1: "TcpConnection_handleWrite (conn_loop C) C = Inr (C1, es1)" "step_ok C (C1, es1)"
      "sent_log C1 = sent_log C" "out_peak C1 = out_peak C"
      "es1 \<noteq> [] \<longrightarrow> contents (outBuffer C1) = [] \<and> es1 = [Call CloseCallback]"
      "contents (outBuffer C) = [] \<longrightarrow> contents (outBuffer C1) = []"
      using handleWrite_ok [OF Suc.prems] by metis
    have i: "conn_inv C1" using 1(2) by (simp add: step_ok_def)
    obtain C2 es2 where 2: "conn_run (replicate n write_event) C1 = Inr (C2, es2)" "step_ok C1 (C2, es2)"
      "sent_log C2 = sent_log C1" "out_peak C2 = out_peak C1"
      "es2 \<noteq> [] \<or> contents (outBuffer C1) = [] \<longrightarrow> contents (outBuffer C2) = []"
      using Suc.IH [OF i] by metis
    have "step_ok C (C2, es1 @ es2)"
      using 1(2) 2(2) by (cases "closes es1 = 0") (auto simp: step_ok_def split: if_splits)
    moreover have "es1 @ es2 \<noteq> [] \<or> contents (outBuffer C) = [] \<longrightarrow> contents (outBuffer C2) = []"
      using 1(5,6) 2(5) by auto
    ultimately show ?case
      using 1 2 by (simp add: write_event_def)
  qed
  then show thesis using that by blast
qed

lemma conn_run_Cons_write:
  assumes "conn_inv C" "TcpConnection_handleWrite (conn_loop C) C = Inr (C1, es1)" "conn_inv C1"
  obtains C' es where "conn_run (replicate (Suc n) write_event) C = Inr (C', es1 @ es)"
    "conn_run (replicate n write_event) C1 = Inr (C', es)"
proof -
  obtain C' es where "conn_run (replicate n write_event) C1 = Inr (C', es)"
    using write_events_ok [OF assms(3)] by metis
  with that assms(2) show thesis by (simp add: write_event_def)
qed

lemma drain_closes:
  assumes "conn_inv C" "conn_state C = kDisconnecting" "contents (outBuffer C) \<noteq> []"
    and "sock_writes C = replicate m (Wrote k)" "1 \<le> k" "length (contents (outBuffer C)) \<le> m * k"
  shows "\<exists>C' es. conn_run (replicate m write_event) C = Inr (C', es) \<and> Call CloseCallback \<in> set es"
  using assms(1-4,6)
proof (induction m arbitrary: C)
  case (Suc m)
  have w: "isWriting C" and b: "Buffer_inv (outBuffer C)"
    using Suc.prems by (simp_all add: conn_inv_def stream_inv_def)
  let ?n = "min k (length (contents (outBuffer C)))" and ?rs = "replicate m (Wrote k)"
  have e: "TcpConnection_handleWrite (conn_loop C) C =
        (let C' = drained ?n ?rs C
         in if contents (outBuffer C') = [] then
              let C' = with_channel Channel_disableWriting C'
              in if conn_state C = kDisconnecting then TcpConnection_handleClose (conn_loop C) C'
                 else Inr (C', [])
            else Inr (C', []))"
  proof (cases rule: handleWrite_cases [OF w b])
    case (1 rs)
    with Suc.prems(3,4) assms(5) show ?thesis by auto
  next
    case (2 n rs)
    from 2(4) Suc.prems(4) have rs: "rs = ?rs" by simp
    with 2(3) Suc.prems(4) have n: "n = ?n" by simp
    from 2(5) show ?thesis unfolding n rs .
  qed
  obtain C1 es1 where 1: "TcpConnection_handleWrite (conn_loop C) C = Inr (C1, es1)" "step_ok C (C1, es1)"
    using handleWrite_ok [OF Suc.prems(1)] by metis
  have i: "conn_inv C1" using 1(2) by (simp add: step_ok_def)
  note d = drained_inv [OF Suc.prems(1), of ?n ?rs]
  show ?case
  proof (cases "drop ?n (contents (outBuffer C)) = []")
    case True
    let ?E = "with_channel Channel_disableWriting (drained ?n ?rs C)"
    have "TcpConnection_handleWrite (conn_loop C) C = TcpConnection_handleClose (conn_loop C) ?E"
      unfolding e Let_def using d(3) True Suc.prems(2) by simp
    then have "es1 = [Call CloseCallback]"
      using 1(1) Suc.prems(2) d by (simp add: TcpConnection_handleClose_def Let_def)
    with conn_run_Cons_write [OF Suc.prems(1) 1(1) i, of m] show ?thesis by fastforce
  next
    case False
    then have c: "C1 = drained ?n ?rs C" "es1 = []"
      using 1(1) unfolding e Let_def using d(3) by simp_all
    have "length (contents (outBuffer C)) - ?n \<le> m * k"
      using Suc.prems(5) by (simp add: min_def le_diff_conv add.commute)
    then obtain C' es where "conn_run (replicate m write_event) C1 = Inr (C', es)" "Call CloseCallback \<in> set es"
      using Suc.IH [OF i] d Suc.prems(2) False unfolding c by auto
    with 1(1) c show ?thesis by (simp add: write_event_def)
  qed
qed simp

section \<open>Properties\<close>

text \<open>
  C4. Nothing that can happen to an established connection, in any order, makes it fail an
  assertion or fault; and as long as fewer than 1024 bytes ever waited in its output buffer, the
  bytes the kernel has accepted followed by those waiting in the buffer are exactly the bytes
  that were sent, in order: nothing is lost, duplicated or reordered.
\<close>

theorem TcpConnection_stream_integrity:
  assumes "0 \<le> fd"
  shows "\<exists>C es. conn_run ops (established ptr loop name fd local peer writes) = Inr (C, es)
    \<and> (out_peak C < 1024 \<longrightarrow> sock_wire C @ contents (outBuffer C) = sent_log C)"
proof -
  obtain C es where "conn_run ops (established ptr loop name fd local peer writes) = Inr (C, es)"
    "step_ok (established ptr loop name fd local peer writes) (C, es)"
    using conn_run_ok [OF established_inv [OF assms]] by (metis surj_pair)
  then show ?thesis by (auto simp: step_ok_def conn_inv_def stream_inv_def)
qed

definition no_addr :: NetAddr where
  "no_addr = NetAddr_of_sockaddr \<lparr>sin_family = AF_INET, sin_port = 0, sin_addr = 0\<rparr>"

text \<open>A connection that was asked to send five bytes, of which the kernel took three, then two.\<close>

definition sample_ops :: "unit conn_op list" where
  "sample_ops = [Send 1 ''hello'', write_event]"

definition sample_conn :: "unit TcpConnection" where
  "sample_conn = established 4 1 ''Tcp#0'' 7 no_addr no_addr [Wrote 3, Wrote 9]"

text \<open>The sample connection after \<open>send\<close>, with two bytes waiting.\<close>

lemma sample_backlog:
  obtains C where "TcpConnection_sendInLoop 1 ''hello'' sample_conn = Inr C" "conn_inv C" "conn_state C = kConnected"
    "contents (outBuffer C) = ''lo''" "out_peak C = 2" "sock_writes C = [Wrote 9]" "sent_log C = ''hello''"
proof -
  have i: "conn_inv sample_conn" by (simp add: sample_conn_def established_inv)
  have idle: "\<not> isWriting sample_conn"
    using i by (simp add: conn_inv_def sample_conn_def established_simps)
  obtain C where C: "TcpConnection_sendInLoop 1 ''hello'' sample_conn = Inr C" "conn_inv C" "conn_state C = kConnected"
    "sent_log C = ''hello''"
    using sendInLoop_inv [OF i, of "''hello''"]
    by (metis sample_conn_def established_simps(1,2,5) append_Nil)
  have "contents (outBuffer C) = ''lo'' \<and> out_peak C = 2 \<and> sock_writes C = [Wrote 9]"
    using C(1) idle by (simp add: TcpConnection_sendInLoop_def sample_conn_def established_simps sys_write_def
        contents_readble split: if_splits) auto
  with C that show thesis by blast
qed

theorem TcpConnection_stream_integrity_witness:
  "\<exists>C es. conn_run sample_ops sample_conn = Inr (C, es)
    \<and> (out_peak C < 1024 \<longrightarrow> sock_wire C @ contents (outBuffer C) = sent_log C)"
  unfolding sample_conn_def by (rule TcpConnection_stream_integrity) simp

text \<open>
  C14. The channel asks for write events exactly while bytes are waiting: until the connection is
  disconnected, its descriptor is registered with the channel's address, for read events always,
  and for write events if and only if the output buffer is not empty. So the loop neither spins
  on a writable socket nor forgets a backlog.
\<close>

theorem TcpConnection_write_events_iff_backlog:
  assumes "0 \<le> fd" and "conn_run ops (established ptr loop name fd local peer writes) = Inr (C, es)"
    and "conn_state C \<noteq> kDisconnected"
  shows "\<exists>m. conn_epoll C fd = Some (ptr, m) \<and> m AND EPOLLIN \<noteq> 0
    \<and> (m AND EPOLLOUT \<noteq> 0 \<longleftrightarrow> contents (outBuffer C) \<noteq> [])"
proof -
  obtain r where "conn_run ops (established ptr loop name fd local peer writes) = Inr r"
    "step_ok (established ptr loop name fd local peer writes) r"
    using conn_run_ok [OF established_inv [OF assms(1)]] by metis
  with assms(2) have "step_ok (established ptr loop name fd local peer writes) (C, es)" by simp
  then have i: "conn_inv C" and k: "conn_key C = (name, ptr, fd)"
    by (simp_all add: step_ok_def established_simps)
  let ?m = "chan_events (conn_channel C)"
  from i assms(3) have l: "listening C" "in_step (conn_channel C) (conn_epoll C)"
    "isWriting C \<longleftrightarrow> contents (outBuffer C) \<noteq> []"
    by (simp_all add: conn_inv_def chan_inv_def)
  then have e: "conn_epoll C fd = Some (ptr, ?m)" "isWriting C \<longleftrightarrow> ?m AND EPOLLOUT \<noteq> 0"
    using k by (simp_all add: listening_def in_step_def conn_key_def isWriting_def WriteEvent_def)
  have "?m AND EPOLLIN = (?m AND ReadEvent) AND EPOLLIN"
    by (simp add: ReadEvent_def mask_defs and.assoc)
  also have "\<dots> = EPOLLIN"
    using l(1) by (simp add: listening_def) (simp add: ReadEvent_def mask_defs)
  finally have "?m AND EPOLLIN \<noteq> 0" by (simp add: mask_defs)
  with e l(3) show ?thesis by auto
qed

theorem TcpConnection_write_events_iff_backlog_witness:
  "\<exists>C es m. conn_run [Send 1 ''hello''] sample_conn = Inr (C, es) \<and> conn_epoll C 7 = Some (4, m)
    \<and> m AND EPOLLOUT \<noteq> 0"
proof -
  obtain C where C: "TcpConnection_sendInLoop 1 ''hello'' sample_conn = Inr C" "conn_state C = kConnected"
    "contents (outBuffer C) = ''lo''"
    by (rule sample_backlog)
  then have r: "conn_run [Send 1 ''hello''] sample_conn = Inr (C, [])"
    by (simp add: TcpConnection_send_def sample_conn_def established_simps)
  from TcpConnection_write_events_iff_backlog [OF _ r [unfolded sample_conn_def]] r C(2,3) show ?thesis
    by auto
qed

text \<open>
  A connection is closed at most once: in any run from an established connection the close
  callback is called at most once, it is called only on the way to \<open>kDisconnected\<close>, and from
  there the connection never comes back.
\<close>

theorem TcpConnection_closes_once:
  assumes "0 \<le> fd" and "conn_run ops (established ptr loop name fd local peer writes) = Inr (C, es)"
    and "Call CloseCallback \<in> set es" and "conn_run ops' C = Inr (C', es')"
  shows "length (filter (\<lambda>e. e = Call CloseCallback) es) = 1
    \<and> conn_state C' = kDisconnected \<and> Call CloseCallback \<notin> set es'"
proof -
  obtain r where "conn_run ops (established ptr loop name fd local peer writes) = Inr r"
    "step_ok (established ptr loop name fd local peer writes) r"
    using conn_run_ok [OF established_inv [OF assms(1)]] by metis
  with assms(2) have s: "step_ok (established ptr loop name fd local peer writes) (C, es)" by simp
  have n: "Call CloseCallback \<in> set l \<longleftrightarrow> closes l \<noteq> 0" for l
    by (auto simp: closes_def filter_empty_conv)
  have c: "closes es = 1" "conn_state C = kDisconnected"
    using s assms(3) by (auto simp: step_ok_def n split: if_splits)
  have "conn_inv C" using s by (simp add: step_ok_def)
  then obtain r' where "conn_run ops' C = Inr r'" "step_ok C r'" using conn_run_ok by metis
  with assms(4) have "step_ok C (C', es')" by simp
  with c show ?thesis by (simp add: step_ok_def n) (simp add: closes_def)
qed

text \<open>Closing the sample connection, on which nothing is waiting.\<close>

lemma sample_close:
  "\<exists>C. conn_run [Functor CloseConnectionInLoop] sample_conn = Inr (C, [Call CloseCallback])"
proof -
  have i: "conn_inv sample_conn" by (simp add: sample_conn_def established_inv)
  then have "\<not> isWriting sample_conn" "conn_state sample_conn = kConnected"
    by (simp_all add: conn_inv_def sample_conn_def established_simps)
  with handleClose_eq(1) [OF i] show ?thesis by (simp add: TcpConnection_closeConnectionInLoop_def)
qed

theorem TcpConnection_closes_once_witness:
  "\<exists>C C' es'. conn_run [Functor CloseConnectionInLoop] sample_conn = Inr (C, [Call CloseCallback])
    \<and> conn_run [Functor CloseConnectionInLoop, Send 1 ''late''] C = Inr (C', es')
    \<and> conn_state C' = kDisconnected \<and> Call CloseCallback \<notin> set es'"
proof -
  have i: "conn_inv sample_conn" by (simp add: sample_conn_def established_inv)
  obtain C where C: "conn_run [Functor CloseConnectionInLoop] sample_conn = Inr (C, [Call CloseCallback])"
    using sample_close by blast
  obtain r where "conn_run [Functor CloseConnectionInLoop] sample_conn = Inr r" "step_ok sample_conn r"
    using conn_run_ok [OF i] by metis
  with C have "conn_inv C" by (auto simp: step_ok_def)
  then obtain C' es' where C': "conn_run [Functor CloseConnectionInLoop, Send 1 ''late''] C = Inr (C', es')"
    using conn_run_ok by (metis surj_pair)
  with TcpConnection_closes_once [OF _ C [unfolded sample_conn_def] _ C'] C show ?thesis by auto
qed

text \<open>
  The steps by which the peer closes: a read that returns 0 bytes, and \<open>handleClose\<close> itself, which the channel
  has as its close callback and never calls.
\<close>

definition peer_closes :: "'x conn_op \<Rightarrow> 'x TcpConnection \<Rightarrow> bool" where
  "peer_closes op C = (case op of
     Handle HandleRead r now \<Rightarrow> fst (Buffer_readFd r (inBuffer C)) = 0
   | Handle HandleClose r now \<Rightarrow> True
   | _ \<Rightarrow> False)"

text \<open>
  C20. Closing from our side is graceful. In any run from an established connection, when a step other than the
  peer's closing (a read of 0 bytes) hands the connection back to the server through the close callback, nothing
  waits in the output buffer; and if fewer than 1024 bytes have ever waited there, everything that was sent up to then
  has been accepted by the kernel. When it is the peer that closes, what waits in the buffer is never sent, see
  \<open>peer_close_drops\<close>.
\<close>

theorem TcpConnection_close_is_graceful:
  assumes "0 \<le> fd" and "conn_run ops (established ptr loop name fd local peer writes) = Inr (C, es)"
    and "conn_step op C = Inr (C', es')" and "Call CloseCallback \<in> set es'" and "\<not> peer_closes op C"
  shows "contents (outBuffer C') = [] \<and> conn_state C' = kDisconnected
    \<and> (out_peak C' < 1024 \<longrightarrow> sock_wire C' = sent_log C')"
proof -
  obtain r where "conn_run ops (established ptr loop name fd local peer writes) = Inr r"
    "step_ok (established ptr loop name fd local peer writes) r"
    using conn_run_ok [OF established_inv [OF assms(1)]] by metis
  with assms(2) have i: "conn_inv C" by (simp add: step_ok_def)
  have ok: "step_ok C (C', es')" using conn_step_ok [OF i, of op] assms(3) by (metis sum.inject(2))
  have ne: "es' \<noteq> []" using assms(4) by auto
  have w: "TcpConnection_handleWrite (conn_loop C) C = Inr (C', es') \<Longrightarrow> contents (outBuffer C') = []"
    by (rule handleWrite_ok [OF i]) (use ne in simp)
  have c: "TcpConnection_closeConnectionInLoop (conn_loop C) C = Inr (C', es') \<Longrightarrow> contents (outBuffer C') = []"
    by (rule closeInLoop_ok [OF i]) (use ne in simp)
  have e: "contents (outBuffer C') = []"
  proof (cases op)
    case (Handle h r now)
    with assms(3-5) w show ?thesis
      by (cases h) (auto simp: peer_closes_def TcpConnection_handleRead_def TcpConnection_handleHup_def Let_def
          split: prod.splits if_splits)
  next
    case (Functor f)
    with assms(3,4) c show ?thesis by (cases f) (auto simp: andThen_eq_Inr)
  next
    case (Send cur data)
    with assms(3,4) show ?thesis by (auto simp: TcpConnection_send_def andThen_eq_Inr split: if_splits)
  qed (use assms(3,4) in \<open>auto simp: TcpConnection_closeConnection_def split: if_splits\<close>)
  have "closes es' \<noteq> 0" using assms(4) by (auto simp: closes_def filter_empty_conv)
  with ok have "conn_state C' = kDisconnected" "stream_inv C'" by (simp_all add: step_ok_def conn_inv_def)
  with e show ?thesis by (simp add: stream_inv_def)
qed

theorem TcpConnection_close_is_graceful_witness:
  "\<exists>C'. conn_run [Functor CloseConnectionInLoop] sample_conn = Inr (C', [Call CloseCallback])
    \<and> sock_wire C' = sent_log C'"
proof -
  obtain C' where C': "conn_run [Functor CloseConnectionInLoop] sample_conn = Inr (C', [Call CloseCallback])"
    using sample_close by blast
  then have s: "conn_step (Functor CloseConnectionInLoop) sample_conn = Inr (C', [Call CloseCallback])"
    by (auto simp: andThen_eq_Inr)
  have "out_peak C' = 0"
    by (rule closeInLoop_ok [of sample_conn])
      (use s in \<open>auto simp: sample_conn_def established_inv established_simps\<close>)
  moreover have r: "conn_run [] (established 4 1 ''Tcp#0'' 7 no_addr no_addr [Wrote 3, Wrote 9]) = Inr (sample_conn, [])"
    by (simp add: sample_conn_def)
  ultimately show ?thesis
    using TcpConnection_close_is_graceful [OF _ r s] C' by (simp add: peer_closes_def)
qed

text \<open>
  A peer that closes its sending side and still reads does not get what waits for it: the backlog is dropped, also
  that of a connection that was being closed gracefully.
\<close>

lemma peer_close_drops:
  assumes "conn_inv C" and "conn_state C = kDisconnecting" and "fst (Buffer_readFd r (inBuffer C)) = 0"
  shows "\<exists>C'. conn_step (Handle HandleRead r now) C = Inr (C', [Call CloseCallback])
    \<and> conn_state C' = kDisconnected \<and> sock_wire C' = sock_wire C \<and> contents (outBuffer C') = contents (outBuffer C)
    \<and> contents (outBuffer C') \<noteq> []"
proof -
  obtain e b where "Buffer_readFd r (inBuffer C) = (0, e, b)" using assms(3) by (metis prod.collapse)
  with assms(1,2) show ?thesis
    by (simp add: TcpConnection_handleRead_def TcpConnection_handleClose_def Let_def conn_inv_def)
qed

text \<open>
  Closing comes to an end: when the kernel takes at least \<open>k > 0\<close> bytes at each write event,
  a connection with a backlog that is asked to close is closed after enough write events to
  drain the backlog, and everything sent has then been accepted by the kernel.
\<close>

theorem TcpConnection_close_completes:
  assumes "conn_inv C" and "conn_state C = kConnected" and "contents (outBuffer C) \<noteq> []"
    and "out_peak C < 1024" and "sock_writes C = replicate m (Wrote k)" and "1 \<le> k"
    and "length (contents (outBuffer C)) \<le> m * k"
  shows "\<exists>C' es. conn_run (Functor CloseConnectionInLoop # replicate m write_event) C = Inr (C', es)
    \<and> Call CloseCallback \<in> set es \<and> sock_wire C' = sent_log C"
proof -
  have w: "isWriting C" using assms(1-3) by (simp add: conn_inv_def)
  obtain C1 es1 where 1: "TcpConnection_closeConnectionInLoop (conn_loop C) C = Inr (C1, es1)" "step_ok C (C1, es1)"
    "sent_log C1 = sent_log C" "out_peak C1 = out_peak C" "conn_state C1 = kDisconnecting"
    "contents (outBuffer C1) = contents (outBuffer C)" "sock_writes C1 = sock_writes C"
    using closeInLoop_ok [OF assms(1)] assms(2) w by metis
  have i: "conn_inv C1" using 1(2) by (simp add: step_ok_def)
  obtain C' es where 2: "conn_run (replicate m write_event) C1 = Inr (C', es)" "Call CloseCallback \<in> set es"
    using drain_closes [OF i 1(5), of m k] 1(6,7) assms(3,5-7) by auto
  obtain C2 es2 where "conn_run (replicate m write_event) C1 = Inr (C2, es2)" "step_ok C1 (C2, es2)"
    "sent_log C2 = sent_log C1" "out_peak C2 = out_peak C1" "es2 \<noteq> [] \<longrightarrow> contents (outBuffer C2) = []"
    using write_events_ok [OF i] by metis
  with 2 have 3: "step_ok C1 (C', es)" "sent_log C' = sent_log C1" "out_peak C' = out_peak C1"
    "contents (outBuffer C') = []"
    by auto
  then have "stream_inv C'" by (simp add: step_ok_def conn_inv_def)
  with 1(1,3,4) 2 3 assms(4) show ?thesis by (simp add: stream_inv_def)
qed

theorem TcpConnection_close_completes_witness:
  "\<exists>C C' es. TcpConnection_sendInLoop 1 ''hello'' sample_conn = Inr C
    \<and> conn_run [Functor CloseConnectionInLoop, write_event] C = Inr (C', es)
    \<and> Call CloseCallback \<in> set es \<and> sock_wire C' = ''hello''"
proof -
  obtain C where C: "TcpConnection_sendInLoop 1 ''hello'' sample_conn = Inr C" "conn_inv C" "conn_state C = kConnected"
    "contents (outBuffer C) = ''lo''" "out_peak C = 2" "sock_writes C = [Wrote 9]" "sent_log C = ''hello''"
    by (rule sample_backlog)
  with TcpConnection_close_completes [of C 1 9] show ?thesis by auto
qed

end
