(* ===== verification/Tcp_Server.thy ===== *)
theory Tcp_Server
  imports Tcp_Connection Thread_Pool Std_Map Sockets
begin

text \<open>
  \<open>net/TcpServer.h\<close>, \<open>net/TcpServer.cpp\<close> and \<open>Acceptor::handleRead\<close>: the table of connections and what the loops of the server do to it. A
  connection object is known by its address, a number. The loops of the connections and the base
  loop run in different threads; a step is one handler, one functor or one call, and the steps
  of the loops interleave in any order. The functors a loop still has to run are a list per loop
  (the wakeup is in \<open>Event_Loop\<close>).
\<close>

section \<open>The server\<close>

datatype loop_functor =
    ConnFunctor nat conn_functor
  | RemoveConnectionInLoop nat
  | RemoveConnectionFromMapInLoop nat

record net_env =
  inet_aton :: "string \<Rightarrow> 32 word option"
  getsockname :: "int \<Rightarrow> sockaddr_in option"
  sys_socket :: "int + int"
  sys_sock :: sock_sys

record 'x TcpServer =
  server_loop :: nat
  server_name :: string
  acceptor :: Acceptor
  loopsThreadPool :: EventLoopThreadPool
  connections :: "(string, nat) std_map"
  nextConnectionId :: int
  conns :: "nat \<Rightarrow> 'x TcpConnection option"
  next_conn :: nat
  pendings :: "nat \<Rightarrow> loop_functor list"

text \<open>
  The callbacks of the user, \<open>connectionCallback_\<close> and \<open>messageCallback_\<close>: they act on the
  connection, and may queue functors by \<open>send\<close> and \<open>closeConnection\<close>.
\<close>

type_synonym 'x callbacks = "conn_callback \<Rightarrow> 'x TcpConnection \<Rightarrow> ('x TcpConnection \<times> conn_functor list) res"

definition default_callbacks :: "'x callbacks" where
  "default_callbacks k C = Inr (C, [])"

definition TcpServer_new :: "net_env \<Rightarrow> nat \<Rightarrow> nat \<Rightarrow> NetAddr \<Rightarrow> string \<Rightarrow> 'x TcpServer" where
  "TcpServer_new env ptr loop addr name = \<lparr>server_loop = loop, server_name = name,
     acceptor = fst (Acceptor_new (sys_socket env) (sys_sock env) ptr loop addr 0),
     loopsThreadPool = EventLoopThreadPool_new loop name, connections = [], nextConnectionId = 0,
     conns = Map.empty, next_conn = 0, pendings = (\<lambda>_. [])\<rparr>"

definition TcpServer_setThreadNum :: "int \<Rightarrow> 'x TcpServer \<Rightarrow> 'x TcpServer" where
  "TcpServer_setThreadNum n s = s\<lparr>loopsThreadPool := setThreadNum n (loopsThreadPool s)\<rparr>"

definition TcpServer_getLoop :: "'x TcpServer \<Rightarrow> nat" where
  "TcpServer_getLoop s = server_loop s"

definition TcpServer_start :: "net_env \<Rightarrow> (nat \<Rightarrow> nat) \<Rightarrow> nat \<Rightarrow> 'x TcpServer \<Rightarrow> 'x TcpServer res" where
  "TcpServer_start env startLoop cur s =
     (let s = s\<lparr>acceptor := fst (Acceptor_registAcceptor (sys_sock env) (acceptor s) 0)\<rparr>
      in andThen (ThreadPool_start startLoop cur (loopsThreadPool s)) (\<lambda>p. Inr (s\<lparr>loopsThreadPool := p\<rparr>)))"

definition put_conn :: "nat \<Rightarrow> 'x TcpConnection \<Rightarrow> 'x TcpServer \<Rightarrow> 'x TcpServer" where
  "put_conn c C s = s\<lparr>conns := (conns s)(c \<mapsto> C)\<rparr>"

definition EventLoop_QueueInLoop :: "nat \<Rightarrow> loop_functor \<Rightarrow> 'x TcpServer \<Rightarrow> 'x TcpServer" where
  "EventLoop_QueueInLoop l f s = s\<lparr>pendings := (pendings s)(l := pendings s l @ [f])\<rparr>"

definition EventLoop_RunInLoop ::
  "nat \<Rightarrow> nat \<Rightarrow> loop_functor \<Rightarrow> ('x TcpServer \<Rightarrow> 'x TcpServer res) \<Rightarrow> 'x TcpServer \<Rightarrow> 'x TcpServer res" where
  "EventLoop_RunInLoop cur l f func s = (if cur = l then func s else Inr (EventLoop_QueueInLoop l f s))"

section \<open>Removing a connection\<close>

definition TcpServer_removeConnectionInLoop :: "nat \<Rightarrow> nat \<Rightarrow> 'x TcpServer \<Rightarrow> 'x TcpServer res" where
  "TcpServer_removeConnectionInLoop cur c s =
     assertInLoopThread cur (server_loop s)
       (case conns s c of
          None \<Rightarrow> Inl NullPointer
        | Some C \<Rightarrow>
            assert_that (map_find (connections s) (conn_name C) \<noteq> None)
              (let s = s\<lparr>connections := map_erase (conn_name C) (connections s)\<rparr>
               in Inr (EventLoop_QueueInLoop (conn_loop C) (ConnFunctor c ConnectionDestroyed) s)))"

definition TcpServer_removeConnection :: "nat \<Rightarrow> nat \<Rightarrow> 'x TcpServer \<Rightarrow> 'x TcpServer res" where
  "TcpServer_removeConnection cur c s =
     EventLoop_RunInLoop cur (server_loop s) (RemoveConnectionInLoop c)
       (TcpServer_removeConnectionInLoop cur c) s"

definition TcpServer_removeConnectionFromMapInLoop :: "nat \<Rightarrow> nat \<Rightarrow> 'x TcpServer \<Rightarrow> 'x TcpServer res" where
  "TcpServer_removeConnectionFromMapInLoop cur c s =
     assertInLoopThread cur (server_loop s)
       (case conns s c of
          None \<Rightarrow> Inl NullPointer
        | Some C \<Rightarrow>
            assert_that (map_find (connections s) (conn_name C) \<noteq> None)
              (Inr (s\<lparr>connections := map_erase (conn_name C) (connections s)\<rparr>)))"

definition TcpServer_removeConnectionFromMap :: "nat \<Rightarrow> nat \<Rightarrow> 'x TcpServer \<Rightarrow> 'x TcpServer res" where
  "TcpServer_removeConnectionFromMap cur c s =
     EventLoop_RunInLoop cur (server_loop s) (RemoveConnectionFromMapInLoop c)
       (TcpServer_removeConnectionFromMapInLoop cur c) s"

section \<open>What the handlers of a connection leave to be done\<close>

definition queue_all :: "nat \<Rightarrow> nat \<Rightarrow> conn_functor list \<Rightarrow> 'x TcpServer \<Rightarrow> 'x TcpServer" where
  "queue_all l c fs s = fold (\<lambda>f. EventLoop_QueueInLoop l (ConnFunctor c f)) fs s"

fun do_effect :: "'x callbacks \<Rightarrow> nat \<Rightarrow> nat \<Rightarrow> effect \<Rightarrow> 'x TcpServer \<Rightarrow> 'x TcpServer res" where
  "do_effect cb cur c (Queue f) s =
     (case conns s c of None \<Rightarrow> Inl NullPointer
      | Some C \<Rightarrow> Inr (EventLoop_QueueInLoop (conn_loop C) (ConnFunctor c f) s))"
| "do_effect cb cur c (Call CloseCallback) s = TcpServer_removeConnection cur c s"
| "do_effect cb cur c (Call RemoveConnectionFromMap) s = TcpServer_removeConnectionFromMap cur c s"
| "do_effect cb cur c (Call k) s =
     (case conns s c of None \<Rightarrow> Inl NullPointer
      | Some C \<Rightarrow> andThen (cb k C) (\<lambda>(C, fs). Inr (queue_all (conn_loop C) c fs (put_conn c C s))))"

fun do_effects :: "'x callbacks \<Rightarrow> nat \<Rightarrow> nat \<Rightarrow> effect list \<Rightarrow> 'x TcpServer \<Rightarrow> 'x TcpServer res" where
  "do_effects cb cur c [] s = Inr s"
| "do_effects cb cur c (e # es) s = andThen (do_effect cb cur c e s) (do_effects cb cur c es)"

text \<open>A connection, found at its address, does something.\<close>

definition on_conn ::
  "'x callbacks \<Rightarrow> nat \<Rightarrow> nat \<Rightarrow> ('x TcpConnection \<Rightarrow> ('x TcpConnection \<times> effect list) res)
     \<Rightarrow> 'x TcpServer \<Rightarrow> 'x TcpServer res" where
  "on_conn cb cur c f s =
     (case conns s c of None \<Rightarrow> Inl NullPointer
      | Some C \<Rightarrow> andThen (f C) (\<lambda>(C', es). do_effects cb cur c es (put_conn c C' s)))"

section \<open>Accepting\<close>

definition connection_name :: "string \<Rightarrow> int \<Rightarrow> string" where
  "connection_name name i = name @ snprintf 32 (''#'' @ show_int i)"

definition TcpServer_newConnetion ::
  "net_env \<Rightarrow> 'x callbacks \<Rightarrow> nat \<Rightarrow> int \<Rightarrow> NetAddr \<Rightarrow> write_result list \<Rightarrow> 'x TcpServer \<Rightarrow> 'x TcpServer res" where
  "TcpServer_newConnetion env cb cur fd peer writes s =
     assertInLoopThread cur (server_loop s)
       (if nextConnectionId s \<ge> 2 ^ 31 - 1 then Inl IntegerOverflow
        else
          let conName = connection_name (server_name s) (nextConnectionId s);
              s = s\<lparr>nextConnectionId := nextConnectionId s + 1\<rparr>;
              local = NetAddr_getLocalAddr (inet_aton env) (getsockname env) fd
          in andThen (ThreadPool_getNextLoop cur (loopsThreadPool s)) (\<lambda>(ioLoop, p).
             let c = next_conn s;
                 conn = TcpConnection_new c ioLoop conName fd local peer writes;
                 s = s\<lparr>loopsThreadPool := p, next_conn := c + 1,
                       connections := map_put conName c (connections s)\<rparr>
             in on_conn cb cur c (\<lambda>C. Inr (TcpConnection_connectionEstablish C)) (put_conn c conn s)))"

definition Acceptor_handleRead ::
  "net_env \<Rightarrow> 'x callbacks \<Rightarrow> nat \<Rightarrow> int + int \<times> sockaddr_in \<Rightarrow> write_result list \<Rightarrow> 'x TcpServer \<Rightarrow> 'x TcpServer res" where
  "Acceptor_handleRead env cb cur r writes s =
     assertInLoopThread cur (server_loop s)
       (let peer = NetAddr_new (inet_aton env) ''0.0.0.0'' 0;
            (newFd, peer, errno) = Socket_acceptConnection r peer 0
        in TcpServer_newConnetion env cb cur newFd peer writes s)"

section \<open>The steps of the program\<close>

text \<open>
  The base loop accepts; the loop of a connection runs a handler of its channel, which it can as
  long as the descriptor is registered; a loop runs its first functor; a thread calls \<open>send\<close> or
  \<open>closeConnection\<close> on a connection.
\<close>

datatype server_op =
    Accept "int + int \<times> sockaddr_in" "write_result list"
  | Event nat handler read_result Timestamp
  | RunFunctor nat
  | CallSend nat nat string
  | CallClose nat nat

definition registered :: "'x TcpConnection \<Rightarrow> bool" where
  "registered C \<longleftrightarrow> conn_epoll C (chan_fd (conn_channel C)) \<noteq> None"

fun run_functor :: "'x callbacks \<Rightarrow> nat \<Rightarrow> loop_functor \<Rightarrow> 'x TcpServer \<Rightarrow> 'x TcpServer res" where
  "run_functor cb cur (ConnFunctor c f) s = on_conn cb cur c (run_conn_functor cur f) s"
| "run_functor cb cur (RemoveConnectionInLoop c) s = TcpServer_removeConnectionInLoop cur c s"
| "run_functor cb cur (RemoveConnectionFromMapInLoop c) s = TcpServer_removeConnectionFromMapInLoop cur c s"

fun server_step :: "net_env \<Rightarrow> 'x callbacks \<Rightarrow> server_op \<Rightarrow> 'x TcpServer \<Rightarrow> 'x TcpServer res" where
  "server_step env cb (Accept r writes) s = Acceptor_handleRead env cb (server_loop s) r writes s"
| "server_step env cb (Event c h r now) s =
     (case conns s c of None \<Rightarrow> Inr s
      | Some C \<Rightarrow> if registered C then on_conn cb (conn_loop C) c (run_handler (conn_loop C) r now h) s
                  else Inr s)"
| "server_step env cb (RunFunctor l) s =
     (case pendings s l of [] \<Rightarrow> Inr s
      | f # fs \<Rightarrow> run_functor cb l f (s\<lparr>pendings := (pendings s)(l := fs)\<rparr>))"
| "server_step env cb (CallSend cur c data) s =
     (if conns s c = None then Inr s else on_conn cb cur c (TcpConnection_send cur data) s)"
| "server_step env cb (CallClose cur c) s =
     (if conns s c = None then Inr s else on_conn cb cur c (\<lambda>C. Inr (TcpConnection_closeConnection C)) s)"

fun server_run :: "net_env \<Rightarrow> 'x callbacks \<Rightarrow> server_op list \<Rightarrow> 'x TcpServer \<Rightarrow> 'x TcpServer res" where
  "server_run env cb [] s = Inr s"
| "server_run env cb (op # ops) s = andThen (server_step env cb op s) (server_run env cb ops)"

lemma server_run_append:
  "server_run env cb (ops @ ops') s = andThen (server_run env cb ops s) (server_run env cb ops')"
proof (induction ops arbitrary: s)
  case (Cons op ops)
  then show ?case by (cases "server_step env cb op s") simp_all
qed simp

lemma server_run_fault:
  assumes "server_run env cb ops s = Inl e"
  shows "\<exists>ops1 op ops2 t. ops = ops1 @ op # ops2 \<and> server_run env cb ops1 s = Inr t \<and> server_step env cb op t = Inl e"
  using assms
proof (induction ops arbitrary: s)
  case (Cons op ops)
  show ?case
  proof (cases "server_step env cb op s")
    case (Inl e')
    with Cons.prems show ?thesis by (intro exI [of _ "[]"] exI [of _ op] exI [of _ ops] exI [of _ s]) simp
  next
    case (Inr u)
    with Cons.prems obtain ops1 op' ops2 t where "ops = ops1 @ op' # ops2" "server_run env cb ops1 u = Inr t"
      "server_step env cb op' t = Inl e"
      using Cons.IH [of u] by auto
    with Inr show ?thesis by (intro exI [of _ "op # ops1"] exI [of _ op'] exI [of _ ops2] exI [of _ t]) simp
  qed
qed simp

section \<open>The effects of a connection's steps\<close>

text \<open>
  Either a step leaves the question whether the connection is disconnected as it was, and calls
  the user or queues a functor at most, or it disconnects the connection and tells the server.
\<close>

definition quiet :: "'x TcpConnection \<Rightarrow> 'x TcpConnection \<times> effect list \<Rightarrow> bool" where
  "quiet C r \<longleftrightarrow> conn_context (fst r) = conn_context C \<and> (conn_state (fst r) = kDisconnected \<longleftrightarrow> conn_state C = kDisconnected)
     \<and> (snd r = [] \<or> (\<exists>now. snd r = [Call (MessageCallback now)])
        \<or> (\<exists>g. snd r = [Queue g] \<and> g \<noteq> ConnectionDestroyed))"

definition closing :: "'x TcpConnection \<Rightarrow> 'x TcpConnection \<times> effect list \<Rightarrow> bool" where
  "closing C r \<longleftrightarrow> conn_context (fst r) = conn_context C \<and> conn_state C \<noteq> kDisconnected \<and> conn_state (fst r) = kDisconnected
     \<and> (snd r = [Call CloseCallback] \<or> snd r = [Call RemoveConnectionFromMap])"

lemma handleClose_shape:
  "conn_state C \<noteq> kConnecting \<Longrightarrow> TcpConnection_handleClose cur C = Inr r \<Longrightarrow> quiet C r \<or> closing C r"
  by (cases "conn_state C")
    (auto simp: TcpConnection_handleClose_def quiet_def closing_def Let_def assertInLoopThread_def
      assert_that_def split: if_splits)

lemma sendInLoop_state:
  "TcpConnection_sendInLoop cur data C = Inr C' \<Longrightarrow> conn_state C' = conn_state C \<and> conn_context C' = conn_context C"
  by (auto simp: TcpConnection_sendInLoop_def assertInLoopThread_def assert_that_def Let_def sys_write_def
      split: if_splits prod.splits list.splits write_result.splits)

lemma sys_write_state:
  "sys_write data C = (n, C') \<Longrightarrow> conn_state C' = conn_state C \<and> conn_context C' = conn_context C"
  by (auto simp: sys_write_def split: list.splits write_result.splits)

lemma handleWrite_shape:
  assumes "conn_state C \<noteq> kConnecting" and "TcpConnection_handleWrite cur C = Inr r"
  shows "quiet C r \<or> closing C r"
proof -
  obtain n C1 where w: "sys_write (Buffer_range (outBuffer C) (Buffer_peek (outBuffer C))
      (Buffer_peek (outBuffer C) + Buffer_readbleBytes (outBuffer C))) C = (n, C1)"
    by fastforce
  let ?D = "with_channel Channel_disableWriting (C1\<lparr>outBuffer := snd (Buffer_retrieve n (outBuffer C1))\<rparr>)"
  note st = sys_write_state [OF w]
  have d: "conn_state ?D = conn_state C" "conn_context ?D = conn_context C" by (simp_all add: st)
  have q: "quiet C (C, [])" "quiet C (C1, [])" "quiet C (?D, [])"
    "quiet C (C1\<lparr>outBuffer := snd (Buffer_retrieve n (outBuffer C1))\<rparr>, [])"
    by (simp_all add: quiet_def st)
  have c: "TcpConnection_handleClose cur ?D = Inr r \<Longrightarrow> quiet C r \<or> closing C r"
    using handleClose_shape [of ?D cur r] assms(1) d by (simp add: quiet_def closing_def)
  show ?thesis
    using assms(2) q c
    by (auto simp: TcpConnection_handleWrite_def assertInLoopThread_def assert_that_def w Let_def split: if_splits)
qed

lemma handler_shape:
  assumes "conn_state C \<noteq> kConnecting" and "h = HandleHup \<longrightarrow> conn_state C \<noteq> kDisconnected"
    and "run_handler cur r now h C = Inr p"
  shows "quiet C p \<or> closing C p"
proof (cases h)
  case HandleRead
  obtain n e b where f: "Buffer_readFd r (inBuffer C) = (n, e, b)" by (cases "Buffer_readFd r (inBuffer C)")
  have "quiet C (C\<lparr>inBuffer := b\<rparr>, [Call (MessageCallback now)])" "quiet C (C\<lparr>inBuffer := b\<rparr>, [])"
    by (simp_all add: quiet_def)
  moreover have "TcpConnection_handleClose cur (C\<lparr>inBuffer := b\<rparr>) = Inr p \<Longrightarrow> quiet C p \<or> closing C p"
    using handleClose_shape [of "C\<lparr>inBuffer := b\<rparr>" cur p] assms(1) by (simp add: quiet_def closing_def)
  ultimately show ?thesis
    using assms(3) HandleRead f by (auto simp: TcpConnection_handleRead_def Let_def split: if_splits)
next
  case HandleClose
  with assms handleClose_shape show ?thesis by simp
next
  case HandleError
  with assms show ?thesis by (auto simp: TcpConnection_handleError_def quiet_def)
next
  case HandleWrite
  with assms handleWrite_shape show ?thesis by simp
next
  case HandleHup
  with assms have "p = (TcpConnection_connectionDestroyed C, [Call RemoveConnectionFromMap])"
    "conn_state C = kConnected \<or> conn_state C = kDisconnecting"
    by (cases "conn_state C"; simp add: TcpConnection_handleHup_def)+
  then show ?thesis by (auto simp: closing_def TcpConnection_connectionDestroyed_def Let_def)
qed

lemma conn_functor_shape:
  assumes "conn_state C \<noteq> kConnecting" and "f = ConnectionDestroyed \<longrightarrow> conn_state C = kDisconnected"
    and "run_conn_functor cur f C = Inr p"
  shows "quiet C p \<or> closing C p"
proof (cases f)
  case CloseConnectionInLoop
  have "quiet C (C, [])" "conn_state C = kConnected \<Longrightarrow> quiet C (C\<lparr>conn_state := kDisconnecting\<rparr>, [])"
    by (simp_all add: quiet_def)
  with CloseConnectionInLoop assms handleClose_shape [OF assms(1)] show ?thesis
    by (auto simp: TcpConnection_closeConnectionInLoop_def assertInLoopThread_def assert_that_def split: if_splits)
next
  case (SendInLoop data)
  with assms(3) show ?thesis by (auto simp: andThen_eq_Inr quiet_def dest: sendInLoop_state)
next
  case ConnectionDestroyed
  with assms show ?thesis by (auto simp: quiet_def TcpConnection_connectionDestroyed_def)
qed

lemma call_shape:
  "TcpConnection_send cur data C = Inr p \<Longrightarrow> quiet C p"
  "quiet C (TcpConnection_closeConnection C)"
  by (auto simp: TcpConnection_send_def TcpConnection_closeConnection_def quiet_def andThen_eq_Inr
      dest: sendInLoop_state split: if_splits)

section \<open>The table of connections\<close>

lemma connection_name_inject:
  assumes "connection_name name (int i) = connection_name name (int j)" and "i < 2 ^ 31" and "j < 2 ^ 31"
  shows "i = j"
proof -
  have "snprintf 32 (''#'' @ show_int (int k)) = ''#'' @ show_nat k" if "k < 2 ^ 31" for k
  proof -
    from that have "length (show_nat k) \<le> 10" by (intro length_show_nat_le) simp_all
    then show ?thesis by (simp add: snprintf_def show_int_def)
  qed
  with assms show ?thesis by (simp add: connection_name_def)
qed

definition cname :: "'x TcpServer \<Rightarrow> nat \<Rightarrow> string" where
  "cname s c = connection_name (server_name s) (int c)"

definition removal_of :: "nat \<Rightarrow> loop_functor \<Rightarrow> bool" where
  "removal_of c f \<longleftrightarrow> f = RemoveConnectionInLoop c \<or> f = RemoveConnectionFromMapInLoop c"

lemma removal_of_simps [simp]:
  "removal_of c (ConnFunctor x f) = False" "removal_of c (RemoveConnectionInLoop x) = (x = c)"
  "removal_of c (RemoveConnectionFromMapInLoop x) = (x = c)"
  by (auto simp: removal_of_def)

definition removals :: "nat \<Rightarrow> 'x TcpServer \<Rightarrow> nat" where
  "removals c s = length (filter (removal_of c) (pendings s (server_loop s)))"

definition is_open :: "nat \<Rightarrow> 'x TcpServer \<Rightarrow> bool" where
  "is_open c s = (case conns s c of None \<Rightarrow> False | Some C \<Rightarrow> conn_state C \<noteq> kDisconnected)"

lemma is_open_iff: "is_open c s \<longleftrightarrow> (\<exists>C. conns s c = Some C \<and> conn_state C \<noteq> kDisconnected)"
  by (auto simp: is_open_def split: option.splits)

definition in_map :: "nat \<Rightarrow> 'x TcpServer \<Rightarrow> bool" where
  "in_map c s \<longleftrightarrow> map_find (connections s) (cname s c) = Some c"

text \<open>The connection that a functor is about.\<close>

fun functor_conn :: "loop_functor \<Rightarrow> nat" where
  "functor_conn (ConnFunctor c f) = c"
| "functor_conn (RemoveConnectionInLoop c) = c"
| "functor_conn (RemoveConnectionFromMapInLoop c) = c"

text \<open>A functor stands in the list of the right loop, and a connection is destroyed only when closed.\<close>

fun functor_ok :: "'x TcpServer \<Rightarrow> nat \<Rightarrow> loop_functor \<Rightarrow> bool" where
  "functor_ok s l (ConnFunctor c f) =
     (case conns s c of None \<Rightarrow> False
      | Some C \<Rightarrow> conn_loop C = l \<and> (f = ConnectionDestroyed \<longrightarrow> conn_state C = kDisconnected))"
| "functor_ok s l (RemoveConnectionInLoop c) = (l = server_loop s \<and> conns s c \<noteq> None)"
| "functor_ok s l (RemoveConnectionFromMapInLoop c) = (l = server_loop s \<and> conns s c \<noteq> None)"

definition pool_ok :: "nat \<Rightarrow> EventLoopThreadPool \<Rightarrow> bool" where
  "pool_ok base p \<longleftrightarrow> baseLoop p = base \<and> started p
     \<and> (loops p \<noteq> [] \<longrightarrow> 0 \<le> next_index p \<and> nat (next_index p) < length (loops p))"

text \<open>
  The books are balanced: a connection is in the table exactly as long as it is open or its
  removal waits in the base loop. While a step is under way, removals \<open>d\<close> are owed.
\<close>

definition balanced :: "(nat \<Rightarrow> nat) \<Rightarrow> 'x TcpServer \<Rightarrow> bool" where
  "balanced d s \<longleftrightarrow> (\<forall>c<next_conn s. removals c s + of_bool (is_open c s) + d c = of_bool (in_map c s))"

definition server_inv :: "(nat \<Rightarrow> nat) \<Rightarrow> 'x TcpServer \<Rightarrow> bool" where
  "server_inv d s \<longleftrightarrow> map_sorted (connections s) \<and> pool_ok (server_loop s) (loopsThreadPool s)
     \<and> nextConnectionId s = int (next_conn s) \<and> next_conn s < 2 ^ 31
     \<and> (\<forall>c. conns s c \<noteq> None \<longleftrightarrow> c < next_conn s)
     \<and> (\<forall>c C. conns s c = Some C \<longrightarrow> conn_inv C \<and> conn_name C = cname s c)
     \<and> (\<forall>k c. map_find (connections s) k = Some c \<longrightarrow> c < next_conn s \<and> k = cname s c)
     \<and> (\<forall>l f. f \<in> set (pendings s l) \<longrightarrow> functor_ok s l f)
     \<and> balanced d s"

lemma server_invD:
  assumes "server_inv d s"
  shows "map_sorted (connections s)" "pool_ok (server_loop s) (loopsThreadPool s)"
    "nextConnectionId s = int (next_conn s)" "next_conn s < 2 ^ 31"
    "conns s c \<noteq> None \<longleftrightarrow> c < next_conn s"
    "conns s c = Some C \<Longrightarrow> conn_inv C" "conns s c = Some C \<Longrightarrow> conn_name C = cname s c"
    "map_find (connections s) k = Some c \<Longrightarrow> c < next_conn s"
    "map_find (connections s) k = Some c \<Longrightarrow> k = cname s c"
    "f \<in> set (pendings s l) \<Longrightarrow> functor_ok s l f"
    "c < next_conn s \<Longrightarrow> removals c s + of_bool (is_open c s) + d c = of_bool (in_map c s)"
  using assms by (simp_all add: server_inv_def balanced_def)

lemma server_invI:
  assumes "map_sorted (connections s)" "pool_ok (server_loop s) (loopsThreadPool s)"
    "nextConnectionId s = int (next_conn s)" "next_conn s < 2 ^ 31"
    "\<And>c. conns s c \<noteq> None \<longleftrightarrow> c < next_conn s"
    "\<And>c C. conns s c = Some C \<Longrightarrow> conn_inv C \<and> conn_name C = cname s c"
    "\<And>k c. map_find (connections s) k = Some c \<Longrightarrow> c < next_conn s \<and> k = cname s c"
    "\<And>l f. f \<in> set (pendings s l) \<Longrightarrow> functor_ok s l f"
    "\<And>c. c < next_conn s \<Longrightarrow> removals c s + of_bool (is_open c s) + d c = of_bool (in_map c s)"
  shows "server_inv d s"
  using assms unfolding server_inv_def balanced_def by blast

text \<open>What the parts of a step change of the invariant.\<close>

lemma cname_updates [simp]:
  "cname (s\<lparr>connections := m\<rparr>) = cname s" "cname (s\<lparr>pendings := q\<rparr>) = cname s"
  "cname (s\<lparr>loopsThreadPool := p\<rparr>) = cname s" "cname (s\<lparr>nextConnectionId := i\<rparr>) = cname s"
  "cname (s\<lparr>next_conn := n\<rparr>) = cname s"
  by (simp_all add: cname_def fun_eq_iff)

lemma put_conn_simps [simp]:
  "server_loop (put_conn c C s) = server_loop s" "server_name (put_conn c C s) = server_name s"
  "loopsThreadPool (put_conn c C s) = loopsThreadPool s" "connections (put_conn c C s) = connections s"
  "nextConnectionId (put_conn c C s) = nextConnectionId s" "next_conn (put_conn c C s) = next_conn s"
  "pendings (put_conn c C s) = pendings s" "conns (put_conn c C s) = (conns s)(c \<mapsto> C)"
  "cname (put_conn c C s) = cname s"
  by (simp_all add: put_conn_def cname_def fun_eq_iff)

lemma queue_simps [simp]:
  "server_loop (EventLoop_QueueInLoop l f s) = server_loop s" "server_name (EventLoop_QueueInLoop l f s) = server_name s"
  "loopsThreadPool (EventLoop_QueueInLoop l f s) = loopsThreadPool s"
  "connections (EventLoop_QueueInLoop l f s) = connections s"
  "nextConnectionId (EventLoop_QueueInLoop l f s) = nextConnectionId s"
  "next_conn (EventLoop_QueueInLoop l f s) = next_conn s" "conns (EventLoop_QueueInLoop l f s) = conns s"
  "pendings (EventLoop_QueueInLoop l f s) = (pendings s)(l := pendings s l @ [f])"
  "cname (EventLoop_QueueInLoop l f s) = cname s"
  by (simp_all add: EventLoop_QueueInLoop_def cname_def fun_eq_iff)

lemma inv_conn:
  assumes "server_inv d s" and "conns s c = Some C"
  shows "conn_inv C" "conn_name C = cname s c" "c < next_conn s" "conn_state C \<noteq> kConnecting"
proof -
  show i: "conn_inv C" and "conn_name C = cname s c" and "c < next_conn s"
    using assms by (auto simp: server_inv_def)
  from i show "conn_state C \<noteq> kConnecting" by (simp add: conn_inv_def)
qed

lemma functor_ok_put:
  assumes "conns s c = Some C" "conn_loop C' = conn_loop C"
    and "conn_state C = kDisconnected \<longrightarrow> conn_state C' = kDisconnected" and "functor_ok s l f"
  shows "functor_ok (put_conn c C' s) l f"
  using assms by (cases f) (auto split: option.splits)

definition owed :: "'x TcpConnection \<Rightarrow> 'x TcpConnection \<Rightarrow> nat" where
  "owed C C' = of_bool (conn_state C \<noteq> kDisconnected \<and> conn_state C' = kDisconnected)"

lemma inv_put:
  assumes "server_inv d s" and "conns s c = Some C" and "conn_inv C'" and "conn_key C' = conn_key C"
    and "conn_loop C' = conn_loop C" and "conn_state C = kDisconnected \<longrightarrow> conn_state C' = kDisconnected"
  shows "server_inv (d(c := d c + owed C C')) (put_conn c C' s)"
proof -
  let ?t = "put_conn c C' s"
  have n: "conn_name C' = conn_name C" using assms(4) by (simp add: conn_key_def)
  have f: "\<forall>l f. f \<in> set (pendings s l) \<longrightarrow> functor_ok ?t l f"
    using assms(1) functor_ok_put [OF assms(2,5,6)] by (simp add: server_inv_def)
  have b: "removals x ?t = removals x s" "in_map x ?t = in_map x s" for x
    by (simp_all add: removals_def in_map_def)
  have o: "is_open x ?t = (if x = c then conn_state C' \<noteq> kDisconnected else is_open x s)" for x
    by (simp add: is_open_iff)
  have "is_open c s = (conn_state C \<noteq> kDisconnected)" using assms(2) by (simp add: is_open_iff)
  then have bal: "removals x ?t + of_bool (is_open x ?t) + (d(c := d c + owed C C')) x = of_bool (in_map x ?t)"
    if "x < next_conn s" for x
    using server_invD(11) [OF assms(1) that] assms(6) unfolding b o by (auto simp: owed_def)
  note i = server_invD [OF assms(1)]
  show ?thesis
  proof (rule server_invI)
    show "conns ?t x \<noteq> None \<longleftrightarrow> x < next_conn ?t" for x
      using i(5) [of x] assms(2) by auto
    show "conns ?t x = Some D \<Longrightarrow> conn_inv D \<and> conn_name D = cname ?t x" for x D
      using i(6,7) assms(2,3) n by (auto split: if_splits)
    show "g \<in> set (pendings ?t l) \<Longrightarrow> functor_ok ?t l g" for l g
      using f by simp
    show "x < next_conn ?t \<Longrightarrow> removals x ?t + of_bool (is_open x ?t) + (d(c := d c + owed C C')) x
        = of_bool (in_map x ?t)" for x
      using bal by simp
  qed (use i(1-4,8,9) in simp_all)
qed

lemma removals_queue:
  "removals x (EventLoop_QueueInLoop l f s) = removals x s
     + of_bool (l = server_loop s \<and> removal_of x f)"
  by (simp add: removals_def)

lemma functor_ok_queue [simp]: "functor_ok (EventLoop_QueueInLoop l f s) l' g = functor_ok s l' g"
  by (cases g) (auto split: option.splits)

lemma inv_queue:
  assumes "server_inv d s" and "functor_ok s l f"
    and "\<forall>x. d x = d' x + of_bool (removal_of x f)"
  shows "server_inv d' (EventLoop_QueueInLoop l f s)"
proof -
  let ?t = "EventLoop_QueueInLoop l f s"
  have l: "removal_of x f \<Longrightarrow> l = server_loop s" for x
    using assms(2) by (cases f) auto
  have x: "is_open x ?t = is_open x s" "in_map x ?t = in_map x s" for x
    by (simp_all add: is_open_iff in_map_def)
  have r: "removals x ?t + d' x = removals x s + d x" for x
    using assms(3) [rule_format, of x] l [of x] by (cases "removal_of x f") (simp_all add: removals_queue)
  have bal: "removals x ?t + of_bool (is_open x ?t) + d' x = of_bool (in_map x ?t)"
    if "x < next_conn s" for x
    using server_invD(11) [OF assms(1) that] r [of x] unfolding x by linarith
  note i = server_invD [OF assms(1)]
  show ?thesis
  proof (rule server_invI)
    show "g \<in> set (pendings ?t k) \<Longrightarrow> functor_ok ?t k g" for k g
      using i(10) assms(2) by (auto split: if_splits)
    show "x < next_conn ?t \<Longrightarrow> removals x ?t + of_bool (is_open x ?t) + d' x = of_bool (in_map x ?t)" for x
      using bal by simp
  qed (use i(1-9) in simp_all)
qed

lemma inv_erase:
  assumes "server_inv d s" and "d c = 1" and "conns s c = Some C"
  shows "map_find (connections s) (conn_name C) \<noteq> None" "conn_state C = kDisconnected"
    "server_inv (d(c := 0)) (s\<lparr>connections := map_erase (conn_name C) (connections s)\<rparr>)"
proof -
  let ?t = "s\<lparr>connections := map_erase (conn_name C) (connections s)\<rparr>"
  note c = inv_conn [OF assms(1,3)]
  have b: "removals c s + of_bool (is_open c s) + 1 = of_bool (in_map c s)"
    using server_invD(11) [OF assms(1) c(3)] assms(2) by simp
  then have m: "in_map c s" "\<not> is_open c s" "removals c s = 0"
    by (cases "in_map c s"; cases "is_open c s"; simp)+
  then show "map_find (connections s) (conn_name C) \<noteq> None" "conn_state C = kDisconnected"
    using assms(3) c(2) by (auto simp: in_map_def is_open_iff)
  have ms: "map_sorted (connections s)" using assms(1) by (simp add: server_inv_def)
  note fe = smap.find_erase [OF ms] and ve = smap.valid_erase [OF ms]
  have sm: "server_loop ?t = server_loop s" "cname ?t = cname s" "conns ?t = conns s" "pendings ?t = pendings s"
    "next_conn ?t = next_conn s"
    by (simp_all add: cname_def fun_eq_iff)
  have x: "removals x ?t = removals x s" "is_open x ?t = is_open x s" for x
    by (simp_all add: removals_def is_open_iff)
  have im: "in_map x ?t = (if x = c then False else in_map x s)" if "x < next_conn s" for x
  proof -
    have "cname s x = cname s c \<Longrightarrow> x = c"
      using that c(3) assms(1) by (auto simp: cname_def server_inv_def intro: connection_name_inject)
    then show ?thesis using c(2) by (auto simp: in_map_def sm fe)
  qed
  note i = server_invD [OF assms(1)]
  have bal: "removals y ?t + of_bool (is_open y ?t) + (d(c := 0)) y = of_bool (in_map y ?t)"
    if "y < next_conn s" for y
    using i(11) [OF that] m im [OF that] unfolding x by auto
  have fo: "functor_ok ?t l f = functor_ok s l f" for l f by (cases f) simp_all
  show "server_inv (d(c := 0)) ?t"
  proof (rule server_invI)
    show "map_find (connections ?t) k = Some v \<Longrightarrow> v < next_conn ?t \<and> k = cname ?t v" for k v
      using i(8,9) unfolding sm by (simp add: fe split: if_splits)
    show "g \<in> set (pendings ?t k) \<Longrightarrow> functor_ok ?t k g" for k g
      unfolding fo using i(10) by simp
    show "y < next_conn ?t \<Longrightarrow> removals y ?t + of_bool (is_open y ?t) + (d(c := 0)) y = of_bool (in_map y ?t)" for y
      using bal by simp
  qed (use i(2-7) ve in \<open>simp_all add: sm\<close>)
qed

lemma inv_pop:
  assumes "server_inv d s" and "pendings s l = f # fs"
    and "\<forall>x. d' x = d x + of_bool (removal_of x f)"
  shows "functor_ok s l f" "server_inv d' (s\<lparr>pendings := (pendings s)(l := fs)\<rparr>)"
proof -
  let ?t = "s\<lparr>pendings := (pendings s)(l := fs)\<rparr>"
  show ok: "functor_ok s l f" using assms(1,2) by (simp add: server_inv_def)
  have sm: "cname ?t = cname s" by (simp add: cname_def fun_eq_iff)
  have x: "is_open x ?t = is_open x s" "in_map x ?t = in_map x s" for x
    by (simp_all add: is_open_iff in_map_def sm)
  have l: "removal_of x f \<Longrightarrow> l = server_loop s" for x
    using ok by (cases f) auto
  have r: "removals x ?t + d' x = removals x s + d x" for x
    using assms(2) assms(3) [rule_format, of x] l [of x]
    by (cases "removal_of x f"; cases "l = server_loop s") (simp_all add: removals_def)
  have bal: "removals y ?t + of_bool (is_open y ?t) + d' y = of_bool (in_map y ?t)"
    if "y < next_conn s" for y
    using server_invD(11) [OF assms(1) that] r [of y] unfolding x by linarith
  have fo: "functor_ok ?t k g = functor_ok s k g" for k g by (cases g) simp_all
  note i = server_invD [OF assms(1)]
  show "server_inv d' ?t"
  proof (rule server_invI)
    show "g \<in> set (pendings ?t k) \<Longrightarrow> functor_ok ?t k g" for k g
      unfolding fo using i(10) assms(2) by (auto split: if_splits)
    show "y < next_conn ?t \<Longrightarrow> removals y ?t + of_bool (is_open y ?t) + d' y = of_bool (in_map y ?t)" for y
      using bal by simp
  qed (use i(1-9) in \<open>simp_all add: sm\<close>)
qed

section \<open>Every step keeps the table\<close>

text \<open>A removal that is owed is carried out in the base loop, or queued for it.\<close>

lemma removeConnectionInLoop_inv:
  assumes "server_inv d s" and "d c = 1" and "conns s c = Some C"
  obtains t where "TcpServer_removeConnectionInLoop (server_loop s) c s = Inr t" "server_inv (d(c := 0)) t" "conns t = conns s"
proof -
  let ?s = "s\<lparr>connections := map_erase (conn_name C) (connections s)\<rparr>"
  let ?f = "ConnFunctor c ConnectionDestroyed"
  note e = inv_erase [OF assms]
  have "functor_ok ?s (conn_loop C) ?f" using assms(3) e(2) by simp
  then have "server_inv (d(c := 0)) (EventLoop_QueueInLoop (conn_loop C) ?f ?s)"
    by (rule inv_queue [OF e(3)]) simp
  with that show thesis
    using e(1) assms(3) by (simp add: TcpServer_removeConnectionInLoop_def Let_def)
qed

lemma removeConnectionFromMapInLoop_inv:
  assumes "server_inv d s" and "d c = 1" and "conns s c = Some C"
  obtains t where "TcpServer_removeConnectionFromMapInLoop (server_loop s) c s = Inr t" "server_inv (d(c := 0)) t" "conns t = conns s"
  using that inv_erase [OF assms] assms(3)
  by (simp add: TcpServer_removeConnectionFromMapInLoop_def)

lemma queue_removal_inv:
  assumes "server_inv d s" and "d c = 1" and "functor_ok s l f" and "\<And>x. removal_of x f = (x = c)"
  shows "server_inv (d(c := 0)) (EventLoop_QueueInLoop l f s)"
  using assms by (intro inv_queue [OF assms(1)]) simp_all

lemma removeConnection_inv:
  assumes "server_inv d s" and "d c = 1" and "conns s c = Some C"
  obtains t where "TcpServer_removeConnection cur c s = Inr t" "server_inv (d(c := 0)) t" "conns t = conns s"
proof (cases "cur = server_loop s")
  case True
  with that removeConnectionInLoop_inv [OF assms] show thesis
    by (metis TcpServer_removeConnection_def EventLoop_RunInLoop_def)
next
  case False
  with that queue_removal_inv [OF assms(1,2), of "server_loop s" "RemoveConnectionInLoop c"] assms(3) show thesis
    by (auto simp: TcpServer_removeConnection_def EventLoop_RunInLoop_def)
qed

lemma removeConnectionFromMap_inv:
  assumes "server_inv d s" and "d c = 1" and "conns s c = Some C"
  obtains t where "TcpServer_removeConnectionFromMap cur c s = Inr t" "server_inv (d(c := 0)) t" "conns t = conns s"
proof (cases "cur = server_loop s")
  case True
  with that removeConnectionFromMapInLoop_inv [OF assms] show thesis
    by (metis TcpServer_removeConnectionFromMap_def EventLoop_RunInLoop_def)
next
  case False
  with that queue_removal_inv [OF assms(1,2), of "server_loop s" "RemoveConnectionFromMapInLoop c"] assms(3) show thesis
    by (auto simp: TcpServer_removeConnectionFromMap_def EventLoop_RunInLoop_def)
qed

lemma queue_all_inv:
  assumes "server_inv d s" and "conns s c = Some C" and "ConnectionDestroyed \<notin> set fs"
  shows "server_inv d (queue_all (conn_loop C) c fs s)"
  using assms
proof (induction fs arbitrary: s)
  case (Cons f fs)
  have "server_inv d (EventLoop_QueueInLoop (conn_loop C) (ConnFunctor c f) s)"
    using Cons.prems by (intro inv_queue [OF Cons.prems(1)]) auto
  with Cons show ?case by (simp add: queue_all_def)
qed (simp add: queue_all_def)

section \<open>What the server asks of the user's callbacks\<close>

text \<open>
  A callback may read the connection's input, keep a context, send and ask to close; it may
  fault, with one of the faults \<open>F\<close>. It leaves the connection in the state it has, and leaves a
  context with the property \<open>J\<close>; the message callback may count on such a context, the
  connection callback is called when the connection is established.
\<close>

definition callback_ok ::
  "fault set \<Rightarrow> ('x option \<Rightarrow> bool) \<Rightarrow> 'x TcpConnection \<Rightarrow> ('x TcpConnection \<times> conn_functor list) res \<Rightarrow> bool" where
  "callback_ok F J C r \<longleftrightarrow> (case r of
     Inl e \<Rightarrow> e \<in> F
   | Inr (C', fs) \<Rightarrow> conn_inv C' \<and> conn_key C' = conn_key C \<and> conn_loop C' = conn_loop C
       \<and> conn_state C' = conn_state C \<and> J (conn_context C') \<and> ConnectionDestroyed \<notin> set fs)"

definition callable :: "('x option \<Rightarrow> bool) \<Rightarrow> conn_callback \<Rightarrow> 'x TcpConnection \<Rightarrow> bool" where
  "callable J k C = (case k of
     ConnectionCallback \<Rightarrow> conn_state C = kConnected
   | MessageCallback now \<Rightarrow> J (conn_context C)
   | _ \<Rightarrow> False)"

definition contexts_ok :: "('x option \<Rightarrow> bool) \<Rightarrow> nat set \<Rightarrow> 'x TcpServer \<Rightarrow> bool" where
  "contexts_ok J X s \<longleftrightarrow> (\<forall>c C. c \<notin> X \<and> conns s c = Some C \<longrightarrow> J (conn_context C))"

lemma contexts_ok_same: "conns t = conns s \<Longrightarrow> contexts_ok J X t = contexts_ok J X s"
  by (simp add: contexts_ok_def)

lemma contexts_ok_put: "contexts_ok J {c} s \<Longrightarrow> J (conn_context C) \<Longrightarrow> contexts_ok J {} (put_conn c C s)"
  by (simp add: contexts_ok_def)

lemma contexts_ok_weaken: "contexts_ok J {} s \<Longrightarrow> contexts_ok J X s"
  unfolding contexts_ok_def by blast

definition server_ok :: "fault set \<Rightarrow> ('x option \<Rightarrow> bool) \<Rightarrow> 'x TcpServer res \<Rightarrow> bool" where
  "server_ok F J r \<longleftrightarrow> (case r of Inl e \<Rightarrow> e \<in> F
     | Inr t \<Rightarrow> server_inv (\<lambda>_. 0) t \<and> contexts_ok J {} t)"

lemma server_ok_simps [simp]:
  "server_ok F J (Inr t) = (server_inv (\<lambda>_. 0) t \<and> contexts_ok J {} t)"
  "server_ok F J (Inl e) = (e \<in> F)"
  by (simp_all add: server_ok_def)

lemma server_ok_insert: "server_ok F J r \<Longrightarrow> server_ok (insert e F) J r"
  by (cases r) simp_all

lemma queue_all_conns: "conns (queue_all l c fs s) = conns s"
  unfolding queue_all_def by (induction fs arbitrary: s) simp_all

locale connection_callbacks =
  fixes cb :: "conn_callback \<Rightarrow> 'x TcpConnection \<Rightarrow> ('x TcpConnection \<times> conn_functor list) res"
    and F :: "fault set" and J :: "'x option \<Rightarrow> bool"
  assumes callback_ok: "conn_inv C \<Longrightarrow> callable J k C \<Longrightarrow> callback_ok F J C (cb k C)"
begin

lemma user_call_ok:
  assumes "server_inv (\<lambda>_. 0) s" and "conns s c = Some C" and "callable J k C" and "contexts_ok J {c} s"
  shows "server_ok F J (do_effects cb cur c [Call k] s)"
proof -
  have d: "do_effect cb cur c (Call k) s
      = andThen (cb k C) (\<lambda>(C, fs). Inr (queue_all (conn_loop C) c fs (put_conn c C s)))"
    using assms(2,3) by (cases k) (simp_all add: callable_def)
  show ?thesis
  proof (cases "cb k C")
    case (Inl e)
    then show ?thesis
      using callback_ok [OF inv_conn(1) [OF assms(1,2)] assms(3)] by (simp add: d callback_ok_def)
  next
    case (Inr r)
    obtain C' fs where r: "r = (C', fs)" by (cases r)
    have i: "conn_inv C'" "conn_key C' = conn_key C" "conn_loop C' = conn_loop C"
      "conn_state C' = conn_state C" "J (conn_context C')" "ConnectionDestroyed \<notin> set fs"
      using callback_ok [OF inv_conn(1) [OF assms(1,2)] assms(3)] by (simp_all add: Inr r callback_ok_def)
    have "owed C C' = 0" using i(4) by (simp add: owed_def)
    with inv_put [OF assms(1,2) i(1-3)] i(4) have "server_inv (\<lambda>_. 0) (put_conn c C' s)"
      by (simp add: fun_upd_idem)
    then have "server_inv (\<lambda>_. 0) (queue_all (conn_loop C') c fs (put_conn c C' s))"
      using i(6) by (intro queue_all_inv) simp_all
    moreover have "contexts_ok J {} (queue_all (conn_loop C') c fs (put_conn c C' s))"
      using contexts_ok_put [OF assms(4) i(5)] by (simp add: contexts_ok_def queue_all_conns)
    ultimately show ?thesis using Inr r by (simp add: d)
  qed
qed

end

context connection_callbacks
begin

text \<open>A step of a connection, with what it leaves to be done.\<close>

lemma on_conn_ok:
  assumes "server_inv (\<lambda>_. 0) s" and "contexts_ok J {} s" and "conns s c = Some C" and "f C = Inr p"
    and "step_ok C p" and "quiet C p \<or> closing C p"
  shows "server_ok F J (on_conn cb cur c f s)"
proof -
  obtain C' es where p: "p = (C', es)" by (cases p)
  let ?t = "put_conn c C' s"
  have o: "on_conn cb cur c f s = do_effects cb cur c es ?t"
    using assms(3,4) by (simp add: on_conn_def p)
  have i: "server_inv ((\<lambda>_. 0)(c := owed C C')) ?t"
    using inv_put [OF assms(1,3), of C'] assms(5) by (simp add: p step_ok_def)
  have c: "conns ?t c = Some C'" by simp
  have "conn_context C' = conn_context C" using assms(6) by (auto simp: quiet_def closing_def p)
  with assms(2,3) have j: "contexts_ok J {} ?t" unfolding contexts_ok_def by simp
  show ?thesis
  proof (cases "closing C p")
    case True
    then have "owed C C' = 1" by (simp add: owed_def closing_def p)
    with i have i: "server_inv ((\<lambda>_. 0)(c := 1)) ?t" by simp
    have z: "((\<lambda>_. 0)(c := 1))(c := 0) = (\<lambda>_. 0 :: nat)" by auto
    obtain t where t: "TcpServer_removeConnection cur c ?t = Inr t" "server_inv (\<lambda>_. 0) t" "conns t = conns ?t"
      using removeConnection_inv [OF i _ c] z by (metis fun_upd_same)
    obtain t' where t': "TcpServer_removeConnectionFromMap cur c ?t = Inr t'" "server_inv (\<lambda>_. 0) t'"
      "conns t' = conns ?t"
      using removeConnectionFromMap_inv [OF i _ c] z by (metis fun_upd_same)
    have jt: "contexts_ok J {} t" "contexts_ok J {} t'"
      using j contexts_ok_same [OF t(3)] contexts_ok_same [OF t'(3)] by simp_all
    from True have "es = [Call CloseCallback] \<or> es = [Call RemoveConnectionFromMap]"
      by (simp add: closing_def p)
    then show ?thesis
    proof
      assume "es = [Call CloseCallback]"
      with t(1,2) jt(1) show ?thesis by (simp add: o)
    next
      assume "es = [Call RemoveConnectionFromMap]"
      with t'(1,2) jt(2) show ?thesis by (simp add: o)
    qed
  next
    case False
    with assms(6) have q: "quiet C p" by simp
    then have "owed C C' = 0" by (simp add: quiet_def p owed_def)
    with i have i: "server_inv (\<lambda>_. 0) ?t" by (simp add: fun_upd_idem)
    consider "es = []" | now where "es = [Call (MessageCallback now)]"
      | g where "es = [Queue g]" "g \<noteq> ConnectionDestroyed"
      using q by (auto simp: quiet_def p)
    then show ?thesis
    proof cases
      case 1
      with i j show ?thesis by (simp add: o)
    next
      case 2
      have "J (conn_context C')" using j c unfolding contexts_ok_def by blast
      then have "callable J (MessageCallback now) C'" by (simp add: callable_def)
      from user_call_ok [OF i c this contexts_ok_weaken [OF j], of cur] 2 show ?thesis
        by (simp add: o del: do_effects.simps do_effect.simps)
    next
      case 3
      have "server_inv (\<lambda>_. 0) (EventLoop_QueueInLoop (conn_loop C') (ConnFunctor c g) ?t)"
        using 3(2) by (intro inv_queue [OF i]) simp_all
      with 3 j show ?thesis by (simp add: o contexts_ok_def)
    qed
  qed
qed

end

text \<open>Accepting: the next loop, and a new entry under a name that was not used before.\<close>

lemma pool_ok_next:
  assumes "pool_ok base p"
  obtains l q where "ThreadPool_getNextLoop base p = Inr (l, q)" "pool_ok base q"
proof (cases "loops p = []")
  case True
  with assms that [of base p] show thesis
    by (simp add: pool_ok_def ThreadPool_getNextLoop_def)
next
  case False
  let ?k = "nat (next_index p)" and ?n = "length (loops p)"
  have k: "next_index p = int (?k mod ?n)" "baseLoop p = base" "started p"
    using assms False by (simp_all add: pool_ok_def)
  have "Suc ?k mod ?n < ?n" using False by simp
  with getNextLoop_step [OF k(3) False k(1)] k(2,3) that show thesis
    by (simp add: pool_ok_def)
qed

lemma inv_add:
  assumes "server_inv d s" and "pool_ok (server_loop s) p" and "next_conn s < 2 ^ 31 - 1"
    and "conn_inv C" and "conn_name C = cname s (next_conn s)" and "conn_state C \<noteq> kDisconnected"
    and "d (next_conn s) = 0"
  shows "server_inv d (put_conn (next_conn s) C (s\<lparr>nextConnectionId := nextConnectionId s + 1,
    loopsThreadPool := p, next_conn := next_conn s + 1,
    connections := map_put (cname s (next_conn s)) (next_conn s) (connections s)\<rparr>))" (is "server_inv d ?t")
proof -
  let ?c = "next_conn s"
  note i = server_invD [OF assms(1)]
  have sm: "server_loop ?t = server_loop s" "cname ?t = cname s" "conns ?t = (conns s)(?c \<mapsto> C)"
    "pendings ?t = pendings s" "next_conn ?t = Suc ?c"
    "connections ?t = map_put (cname s ?c) ?c (connections s)"
    by (simp_all add: cname_def fun_eq_iff)
  note fp = smap.find_put [OF i(1)] and vp = smap.valid_put [OF i(1)]
  have none: "conns s ?c = None" using i(5) [of ?c] by simp
  have pend: "removal_of ?c f \<Longrightarrow> f \<notin> set (pendings s l)" for f l
    using i(10) [of f l] none by (cases f) auto
  have new: "cname s x = cname s ?c \<Longrightarrow> x = ?c" if "x < Suc ?c" for x
    using that i(4) by (auto simp: cname_def intro: connection_name_inject)
  have bal: "removals x ?t + of_bool (is_open x ?t) + d x = of_bool (in_map x ?t)" if "x < Suc ?c" for x
  proof (cases "x = ?c")
    case True
    have "removals x ?t = 0" using pend [of _ "server_loop s"] True unfolding removals_def sm by (simp add: filter_empty_conv) blast
    then show ?thesis using True assms(6,7) by (simp add: is_open_iff in_map_def sm fp)
  next
    case False
    then have "removals x ?t = removals x s" "is_open x ?t = is_open x s" "in_map x ?t = in_map x s"
      using new [OF that] by (auto simp: removals_def is_open_iff in_map_def sm fp)
    with i(11) [of x] that False show ?thesis by simp
  qed
  have fo: "functor_ok s l f \<Longrightarrow> functor_ok ?t l f" for l f
    using none by (cases f) (auto simp: sm split: option.splits)
  show ?thesis
  proof (rule server_invI)
    show "conns ?t x \<noteq> None \<longleftrightarrow> x < next_conn ?t" for x
      using i(5) [of x] unfolding sm by auto
    show "conns ?t x = Some D \<Longrightarrow> conn_inv D \<and> conn_name D = cname ?t x" for x D
      using i(6,7) assms(4,5) unfolding sm by (auto split: if_splits)
    show "map_find (connections ?t) k = Some v \<Longrightarrow> v < next_conn ?t \<and> k = cname ?t v" for k v
      using i(8,9) [of k v] unfolding sm by (auto simp: fp split: if_splits)
    show "g \<in> set (pendings ?t k) \<Longrightarrow> functor_ok ?t k g" for k g
      using i(10) fo unfolding sm by blast
    show "x < next_conn ?t \<Longrightarrow> removals x ?t + of_bool (is_open x ?t) + d x = of_bool (in_map x ?t)" for x
      using bal unfolding sm by simp
  qed (use assms(2,3) i(3) vp in \<open>simp_all add: sm\<close>)
qed

lemma put_conn_twice [simp]: "put_conn c C (put_conn c D s) = put_conn c C s"
  by (simp add: put_conn_def)

text \<open>
  The operations a run may consist of: \<open>accept\<close> succeeds, and the hang-up of a peer is not
  delivered to a connection that is closed already.
\<close>

definition op_allowed :: "server_op \<Rightarrow> 'x TcpServer \<Rightarrow> bool" where
  "op_allowed op s = (case op of
     Accept r writes \<Rightarrow> (case r of Inl e \<Rightarrow> False | Inr (fd, peer) \<Rightarrow> 0 \<le> fd)
   | Event c h r now \<Rightarrow> h = HandleHup \<longrightarrow> is_open c s
   | _ \<Rightarrow> True)"

fun run_allowed :: "net_env \<Rightarrow> 'x callbacks \<Rightarrow> server_op list \<Rightarrow> 'x TcpServer \<Rightarrow> bool" where
  "run_allowed env cb [] s = True"
| "run_allowed env cb (op # ops) s =
     (op_allowed op s \<and> (case server_step env cb op s of Inl e \<Rightarrow> True | Inr t \<Rightarrow> run_allowed env cb ops t))"

lemma run_allowed_append:
  "run_allowed env cb (ops @ ops') s \<longleftrightarrow> run_allowed env cb ops s
     \<and> (case server_run env cb ops s of Inl e \<Rightarrow> True | Inr t \<Rightarrow> run_allowed env cb ops' t)"
  by (induction ops arbitrary: s) (auto split: sum.splits)

context connection_callbacks
begin

lemma newConnetion_ok:
  assumes "server_inv (\<lambda>_. 0) s" and "0 \<le> fd" and "contexts_ok J {} s" and True: "next_conn s < 2 ^ 31 - 1"
  shows "server_ok F J (TcpServer_newConnetion env cb (server_loop s) fd peer writes s)"
proof -
  note i = server_invD [OF assms(1)]
  let ?c = "next_conn s" and ?local = "NetAddr_getLocalAddr (inet_aton env) (getsockname env) fd"
  obtain l q where q: "ThreadPool_getNextLoop (server_loop s) (loopsThreadPool s) = Inr (l, q)"
    "pool_ok (server_loop s) q"
    using pool_ok_next [OF i(2)] by metis
  define C :: "'x TcpConnection" where "C = established ?c l (cname s ?c) fd ?local peer writes"
  have C: "conn_inv C" "conn_name C = cname s ?c" "conn_state C \<noteq> kDisconnected"
  proof -
    have "conn_key C = (cname s ?c, ?c, fd)" by (simp add: C_def established_simps)
    then show "conn_name C = cname s ?c" by (simp add: conn_key_def)
  qed (simp_all add: C_def established_inv established_simps assms(2))
  define t where "t = put_conn ?c C (s\<lparr>nextConnectionId := nextConnectionId s + 1,
    loopsThreadPool := q, next_conn := ?c + 1, connections := map_put (cname s ?c) ?c (connections s)\<rparr>)"
  have t: "server_inv (\<lambda>_. 0) t"
    unfolding t_def by (rule inv_add [OF assms(1) q(2) True C]) simp
  have c: "conns t ?c = Some C" by (simp add: t_def)
  have e: "TcpConnection_connectionEstablish (TcpConnection_new ?c l (cname s ?c) fd ?local peer writes)
      = (C, [Call ConnectionCallback])"
    by (simp add: C_def established_def TcpConnection_connectionEstablish_def Let_def)
  have "TcpServer_newConnetion env cb (server_loop s) fd peer writes s
      = do_effects cb (server_loop s) ?c [Call ConnectionCallback] t"
    using True i(3) q(1) e
    by (simp add: TcpServer_newConnetion_def Let_def on_conn_def t_def cname_def del: do_effects.simps do_effect.simps)
  moreover have "callable J ConnectionCallback C" by (simp add: callable_def C_def established_simps)
  moreover have "contexts_ok J {?c} t" using assms(3) by (auto simp: contexts_ok_def t_def)
  ultimately show ?thesis
    using user_call_ok [OF t c, of ConnectionCallback "server_loop s"] by simp
qed

lemma accept_ok:
  assumes "server_inv (\<lambda>_. 0) s" and "op_allowed (Accept r writes) s" and "contexts_ok J {} s"
  shows "if next_conn s < 2 ^ 31 - 1 then server_ok F J (server_step env cb (Accept r writes) s)
    else server_step env cb (Accept r writes) s = Inl IntegerOverflow"
proof (cases "next_conn s < 2 ^ 31 - 1")
  case True
  with assms newConnetion_ok [OF assms(1) _ assms(3)] show ?thesis
    by (auto simp: op_allowed_def Acceptor_handleRead_def Socket_acceptConnection_def split: sum.splits)
next
  case False
  with server_invD(3) [OF assms(1)] show ?thesis
    by (simp add: TcpServer_newConnetion_def Acceptor_handleRead_def Let_def split: prod.split)
qed

lemma run_functor_ok:
  assumes "server_inv (\<lambda>_. 0) s" and "contexts_ok J {} s"
  shows "server_ok F J (server_step env cb (RunFunctor l) s)"
proof (cases "pendings s l")
  case Nil
  with assms show ?thesis by simp
next
  case (Cons f fs)
  let ?d = "\<lambda>x. of_bool (removal_of x f) :: nat"
  let ?t = "s\<lparr>pendings := (pendings s)(l := fs)\<rparr>"
  note p = inv_pop [OF assms(1) Cons, of ?d]
  have j: "contexts_ok J {} ?t" using assms(2) by (simp add: contexts_ok_def)
  have ok: "functor_ok s l f" and i: "server_inv ?d ?t" using p by simp_all
  have step: "server_step env cb (RunFunctor l) s = run_functor cb l f ?t" by (simp add: Cons)
  show ?thesis
  proof (cases f)
    case (ConnFunctor c g)
    obtain C where C: "conns s c = Some C" "conn_loop C = l" "g = ConnectionDestroyed \<longrightarrow> conn_state C = kDisconnected"
      using ok by (auto simp: ConnFunctor split: option.splits)
    have c: "conns ?t c = Some C" using C(1) by simp
    have i0: "server_inv (\<lambda>_. 0) ?t" using i by (simp add: ConnFunctor)
    note ic = inv_conn [OF i0 c]
    obtain r where r: "run_conn_functor (conn_loop C) g C = Inr r" "step_ok C r"
      using conn_step_ok [OF ic(1), of "Functor g"] by (metis conn_step.simps(4))
    have "server_ok F J (on_conn cb l c (run_conn_functor l g) ?t)"
      using on_conn_ok [OF i0 j c _ r(2) conn_functor_shape [OF ic(4) C(3) r(1)]] r(1) C(2) by simp
    then show ?thesis unfolding step by (simp add: ConnFunctor)
  next
    case (RemoveConnectionInLoop c)
    obtain C where C: "conns ?t c = Some C" "l = server_loop ?t" using ok by (auto simp: RemoveConnectionInLoop)
    have z: "?d(c := 0) = (\<lambda>_. 0)" by (auto simp: RemoveConnectionInLoop)
    obtain t where "TcpServer_removeConnectionInLoop (server_loop ?t) c ?t = Inr t" "server_inv (?d(c := 0)) t" "conns t = conns ?t"
      by (rule removeConnectionInLoop_inv [OF i _ C(1)]) (simp add: RemoveConnectionInLoop)
    then show ?thesis unfolding step z using C(2) j by (simp add: contexts_ok_def RemoveConnectionInLoop)
  next
    case (RemoveConnectionFromMapInLoop c)
    obtain C where C: "conns ?t c = Some C" "l = server_loop ?t" using ok by (auto simp: RemoveConnectionFromMapInLoop)
    have z: "?d(c := 0) = (\<lambda>_. 0)" by (auto simp: RemoveConnectionFromMapInLoop)
    obtain t where "TcpServer_removeConnectionFromMapInLoop (server_loop ?t) c ?t = Inr t" "server_inv (?d(c := 0)) t" "conns t = conns ?t"
      by (rule removeConnectionFromMapInLoop_inv [OF i _ C(1)]) (simp add: RemoveConnectionFromMapInLoop)
    then show ?thesis unfolding step z using C(2) j by (simp add: contexts_ok_def RemoveConnectionFromMapInLoop)
  qed
qed

text \<open>Only accepting a connection can overflow the counter.\<close>

lemma other_step_ok:
  assumes "server_inv (\<lambda>_. 0) s" and "op_allowed op s" and "contexts_ok J {} s"
    and "\<nexists>r writes. op = Accept r writes"
  shows "server_ok F J (server_step env cb op s)"
proof (cases op)
  case (Accept r writes)
  with assms(4) show ?thesis by blast
next
  case (RunFunctor l)
  with run_functor_ok assms show ?thesis by simp
next
  case (Event c h r now)
  show ?thesis
  proof (cases "conns s c")
    case (Some C)
    note i = inv_conn [OF assms(1) Some]
    obtain p where p: "run_handler (conn_loop C) r now h C = Inr p" "step_ok C p"
      using conn_step_ok [OF i(1), of "Handle h r now"] by (metis conn_step.simps(1))
    have "h = HandleHup \<longrightarrow> conn_state C \<noteq> kDisconnected"
      using assms(2) Some by (simp add: Event op_allowed_def is_open_iff)
    then have "server_ok F J (on_conn cb (conn_loop C) c (run_handler (conn_loop C) r now h) s)"
      by (intro on_conn_ok [OF assms(1,3) Some, where f = "run_handler (conn_loop C) r now h", OF p]
          handler_shape [OF i(4) _ p(1)])
    with assms(1,3) show ?thesis by (simp add: Event Some)
  qed (use assms(1,3) in \<open>simp add: Event\<close>)
next
  case (CallSend cur c data)
  show ?thesis
  proof (cases "conns s c")
    case (Some C)
    obtain p where p: "TcpConnection_send cur data C = Inr p" "step_ok C p"
      using conn_step_ok [OF inv_conn(1) [OF assms(1) Some], of "Send cur data"] by (metis conn_step.simps(2))
    with on_conn_ok [OF assms(1,3) Some, of "TcpConnection_send cur data", OF p] call_shape(1) [OF p(1)] show ?thesis by (simp add: CallSend Some)
  qed (use assms(1,3) in \<open>simp add: CallSend\<close>)
next
  case (CallClose cur c)
  show ?thesis
  proof (cases "conns s c")
    case (Some C)
    obtain p where p: "conn_step Close C = Inr p" "step_ok C p"
      using conn_step_ok [OF inv_conn(1) [OF assms(1) Some]] by metis
    then have e: "p = TcpConnection_closeConnection C" by simp
    with on_conn_ok [OF assms(1,3) Some _ p(2), of "\<lambda>C. Inr (TcpConnection_closeConnection C)"] call_shape(2) [of C]
    show ?thesis by (simp add: CallClose Some)
  qed (use assms(1,3) in \<open>simp add: CallClose\<close>)
qed

lemma server_step_ok:
  assumes "server_inv (\<lambda>_. 0) s" and "op_allowed op s" and "contexts_ok J {} s"
  shows "server_ok (insert IntegerOverflow F) J (server_step env cb op s)"
proof (cases "\<exists>r writes. op = Accept r writes")
  case True
  then obtain r writes where op: "op = Accept r writes" by blast
  from accept_ok [OF assms(1) assms(2) [unfolded op] assms(3), of env] show ?thesis
    unfolding op by (cases "next_conn s < 2 ^ 31 - 1") (simp_all add: server_ok_insert del: server_step.simps)
next
  case False
  with other_step_ok [OF assms] show ?thesis by (blast intro: server_ok_insert)
qed

lemma server_run_ok:
  assumes "server_inv (\<lambda>_. 0) s" and "run_allowed env cb ops s" and "contexts_ok J {} s"
  shows "server_ok (insert IntegerOverflow F) J (server_run env cb ops s)"
  using assms
proof (induction ops arbitrary: s)
  case (Cons op ops)
  have "server_ok (insert IntegerOverflow F) J (server_step env cb op s)"
    using Cons.prems by (intro server_step_ok) simp_all
  with Cons show ?case by (cases "server_step env cb op s") simp_all
qed simp

end

interpretation default_cb: connection_callbacks default_callbacks "{}" "\<lambda>_. True"
  by unfold_locales (simp add: default_callbacks_def callback_ok_def)

lemma start_inv:
  assumes "TcpServer_start env startLoop base (TcpServer_setThreadNum n (TcpServer_new env ptr base addr name)) = Inr (s :: 'x TcpServer)"
  shows "server_inv (\<lambda>_. 0) s"
proof -
  obtain p a where p: "ThreadPool_start startLoop base (setThreadNum n (EventLoopThreadPool_new base name)) = Inr p"
    "s = (TcpServer_new env ptr base addr name)\<lparr>loopsThreadPool := p, acceptor := a\<rparr>"
    using assms by (auto simp: Let_def TcpServer_start_def TcpServer_setThreadNum_def TcpServer_new_def andThen_eq_Inr)
  from p(1) have "pool_ok base p"
    by (auto simp: ThreadPool_start_def assertInLoopThread_def setThreadNum_def EventLoopThreadPool_new_def
        pool_ok_def start_threads_simps)
  then show ?thesis
    by (intro server_invI)
      (simp_all add: p(2) TcpServer_new_def smap.valid_empty removals_def is_open_iff in_map_def smap.find_empty)
qed

lemma start_contexts:
  "TcpServer_start env startLoop base (TcpServer_setThreadNum n (TcpServer_new env ptr base addr name)) = Inr s
   \<Longrightarrow> contexts_ok J X s"
  by (auto simp: Let_def TcpServer_start_def TcpServer_setThreadNum_def TcpServer_new_def andThen_eq_Inr contexts_ok_def)

lemma inv_map_name:
  assumes "server_inv d s" and "c < next_conn s" and "\<not> in_map c s"
  shows "map_find (connections s) (cname s c) = None"
proof (rule ccontr)
  assume "map_find (connections s) (cname s c) \<noteq> None"
  then obtain v where v: "map_find (connections s) (cname s c) = Some v" by auto
  note i = server_invD [OF assms(1)]
  have "v = c"
    using i(8,9) [OF v] i(4) assms(2) connection_name_inject [of "server_name s" v c] by (simp add: cname_def)
  with v assms(3) show False by (simp add: in_map_def)
qed

section \<open>Properties\<close>

text \<open>
  C5. Whatever a started server, its connections and the user's callbacks do, in any
  interleaving of the loops, as long as every \<open>accept\<close> succeeds and no hang-up is reported for a
  connection that is closed already: no assertion about threads, loops or the table fails; a run
  stops only when the counter of connections overflows or a callback faults. The table always
  holds exactly the connections that are open or whose removal waits in the base loop, each
  under its own name, and a removal is never queued twice.
\<close>

theorem TcpServer_table_exact:
  assumes "\<And>C k. conn_inv C \<Longrightarrow> callable J k C \<Longrightarrow> callback_ok F J C (cb k C)"
    and "TcpServer_start env startLoop base (TcpServer_setThreadNum n (TcpServer_new env ptr base addr name)) = Inr s"
    and "run_allowed env cb ops s"
  shows "case server_run env cb ops s of
      Inl e \<Rightarrow> e = IntegerOverflow \<or> e \<in> F
    | Inr t \<Rightarrow> (\<forall>c<next_conn t. in_map c t \<longleftrightarrow> is_open c t \<or> removals c t = 1)
        \<and> (\<forall>c<next_conn t. removals c t + of_bool (is_open c t) \<le> 1)
        \<and> (\<forall>k c. map_find (connections t) k = Some c \<longrightarrow> k = cname t c)"
proof (cases "server_run env cb ops s")
  case (Inl e)
  with connection_callbacks.server_run_ok [OF connection_callbacks.intro [OF assms(1)] start_inv [OF assms(2)] assms(3)]
      start_contexts [OF assms(2), of J "{}"]
  show ?thesis by simp
next
  case (Inr t)
  have i: "server_inv (\<lambda>_. 0) t"
    using connection_callbacks.server_run_ok [OF connection_callbacks.intro [OF assms(1)] start_inv [OF assms(2)] assms(3)]
      start_contexts [OF assms(2), of J "{}"]
    by (simp add: Inr)
  have "(in_map c t \<longleftrightarrow> is_open c t \<or> removals c t = 1) \<and> removals c t + of_bool (is_open c t) \<le> 1"
    if "c < next_conn t" for c
    using server_invD(11) [OF i that] by (cases "in_map c t"; cases "is_open c t") simp_all
  with server_invD(9) [OF i] Inr show ?thesis by simp
qed

text \<open>A server with two threads, of which one connection is being closed, and one with none.\<close>

definition sample_env :: net_env where
  "sample_env = \<lparr>inet_aton = (\<lambda>_. Some 0), getsockname = (\<lambda>_. None),
     sys_socket = Inr 3, sys_sock = (\<lambda>_. 0)\<rparr>"

definition sample_peer :: sockaddr_in where
  "sample_peer = \<lparr>sin_family = AF_INET, sin_port = 1234, sin_addr = 5\<rparr>"

definition sample_server :: "int \<Rightarrow> unit TcpServer" where
  "sample_server n = (case TcpServer_start sample_env (\<lambda>i. 100 + i) 7
       (TcpServer_setThreadNum n (TcpServer_new sample_env 1 7 no_addr ''Tcp'')) of
     Inr s \<Rightarrow> s | Inl e \<Rightarrow> TcpServer_new sample_env 1 0 no_addr [])"

lemma sample_server_start:
  "TcpServer_start sample_env (\<lambda>i. 100 + i) 7
     (TcpServer_setThreadNum n (TcpServer_new sample_env 1 7 no_addr ''Tcp'')) = Inr (sample_server n)"
  by (simp add: Let_def sample_server_def TcpServer_start_def ThreadPool_start_def TcpServer_setThreadNum_def
      TcpServer_new_def setThreadNum_def EventLoopThreadPool_new_def assertInLoopThread_def)

definition sample_trace :: "nat \<Rightarrow> server_op list" where
  "sample_trace l = [Accept (Inr (5, sample_peer)) [], CallClose 7 0, RunFunctor l]"

text \<open>The definitions a run is evaluated with.\<close>

lemmas server_eval = TcpServer_start_def ThreadPool_start_def TcpServer_setThreadNum_def TcpServer_new_def setThreadNum_def
  EventLoopThreadPool_new_def start_threads_simps sample_trace_def Let_def TcpServer_newConnetion_def Acceptor_handleRead_def Socket_acceptConnection_def
  ThreadPool_getNextLoop_def on_conn_def put_conn_def default_callbacks_def queue_all_def EventLoop_QueueInLoop_def
  TcpConnection_connectionEstablish_def TcpConnection_establishChannel_def TcpConnection_new_def with_channel_def Channel_enableReading_def Channel_update_def EventLoop_upDateChannel_def
  Poller_upDateChannel_def Channel_tie_def Channel_new_def  kNew_def kAdded_def epoll_add_def
  TcpConnection_closeConnection_def TcpConnection_closeConnectionInLoop_def TcpConnection_handleClose_def isWriting_def
  Channel_disableAll_def epoll_mod_def TcpServer_removeConnection_def EventLoop_RunInLoop_def TcpServer_removeConnectionInLoop_def registered_def
  removals_def op_allowed_def map_find_def map_erase_def

lemma sample_server_simps: "server_loop (sample_server n) = 7" "conns (sample_server n) = Map.empty" "next_conn (sample_server n) = 0" "pendings (sample_server n) = (\<lambda>_. [])"
  "nextConnectionId (sample_server n) = 0" "server_name (sample_server n) = ''Tcp''" "connections (sample_server n) = []"
  "baseLoop (loopsThreadPool (sample_server n)) = 7" "started (loopsThreadPool (sample_server n))" "next_index (loopsThreadPool (sample_server n)) = 0"
  "loops (loopsThreadPool (sample_server n)) = map (\<lambda>i. 100 + i) [0..<nat n]"
  by (simp_all add: server_eval sample_server_def)

lemma sample_two_threads:
  "run_allowed sample_env default_callbacks (sample_trace 100) (sample_server 2)"
  "case server_run sample_env default_callbacks (sample_trace 100) (sample_server 2) of
     Inl e \<Rightarrow> False | Inr t \<Rightarrow> next_conn t = 1 \<and> removals 0 t = 1"
  by (simp_all add: server_eval sample_server_simps upt_rec)

lemma default_callback_ok: "conn_inv C \<Longrightarrow> callable (\<lambda>_. True) k C \<Longrightarrow> callback_ok {} (\<lambda>_. True) C (default_callbacks k C)"
  by (rule default_cb.callback_ok)

theorem TcpServer_table_exact_witness:
  "\<exists>t. server_run sample_env default_callbacks (sample_trace 100) (sample_server 2) = Inr t
    \<and> removals 0 t = 1 \<and> in_map 0 t"
proof -
  obtain t where t: "server_run sample_env default_callbacks (sample_trace 100) (sample_server 2) = Inr t"
    "next_conn t = 1" "removals 0 t = 1"
    using sample_two_threads(2) by (auto split: sum.splits)
  show ?thesis
    using TcpServer_table_exact [OF default_callback_ok sample_server_start sample_two_threads(1)] t by simp
qed

text \<open>
  C35. A hang-up of the peer can abort the whole server: when a connection of the base loop is
  closed and out of the table but its descriptor still registered (which it is until
  \<open>connectionDestroyed\<close> has run, an iteration of the loop later), \<open>EPOLLHUP\<close> is still delivered,
  \<open>handleHup\<close> asks for the removal of the connection again, and the assertion of
  \<open>removeConnectionFromMapInLoop\<close> fails.
\<close>

theorem TcpServer_hangup_after_close_aborts:
  assumes "\<And>C k. conn_inv C \<Longrightarrow> callable J k C \<Longrightarrow> callback_ok F J C (cb k C)"
    and "TcpServer_start env startLoop base (TcpServer_setThreadNum n (TcpServer_new env ptr base addr name)) = Inr s"
    and "run_allowed env cb ops s" and "server_run env cb ops s = Inr t"
    and "conns t c = Some C" and "conn_state C = kDisconnected" and "registered C"
    and "conn_loop C = server_loop t" and "removals c t = 0"
  shows "server_step env cb (Event c HandleHup r now) t = Inl AssertionFailed"
proof -
  have i: "server_inv (\<lambda>_. 0) t"
    using connection_callbacks.server_run_ok [OF connection_callbacks.intro [OF assms(1)] start_inv [OF assms(2)] assms(3)]
      start_contexts [OF assms(2), of J "{}"]
    by (simp add: assms(4))
  note ic = inv_conn [OF i assms(5)]
  have "\<not> is_open c t" using assms(5,6) by (simp add: is_open_iff)
  with server_invD(11) [OF i ic(3)] assms(9) have "\<not> in_map c t" by simp
  then have "map_find (connections t) (conn_name C) = None" using inv_map_name [OF i ic(3)] ic(2) by simp
  moreover have "conn_name (TcpConnection_connectionDestroyed C) = conn_name C"
    using destroyed_inv(5) [OF ic(1)] by (simp add: conn_key_def)
  ultimately show ?thesis
    using assms(5-8) by (simp add: on_conn_def TcpConnection_handleHup_def TcpServer_removeConnectionFromMap_def
        EventLoop_RunInLoop_def TcpServer_removeConnectionFromMapInLoop_def)
qed

lemma sample_closed:
  "run_allowed sample_env default_callbacks (sample_trace 7) (sample_server 0)"
  "case server_run sample_env default_callbacks (sample_trace 7) (sample_server 0) of
     Inl e \<Rightarrow> False
   | Inr t \<Rightarrow> removals 0 t = 0 \<and> server_loop t = 7 \<and>
      (case conns t 0 of None \<Rightarrow> False
       | Some C \<Rightarrow> conn_state C = kDisconnected \<and> registered C \<and> conn_loop C = 7)"
  by (simp_all add: server_eval sample_server_simps upt_rec)

theorem TcpServer_hangup_after_close_aborts_witness:
  "server_run sample_env default_callbacks
     (sample_trace 7 @ [Event 0 HandleHup (ReadErr 0) (Timestamp 9)]) (sample_server 0) = Inl AssertionFailed"
proof -
  obtain t C where t: "server_run sample_env default_callbacks (sample_trace 7) (sample_server 0) = Inr t"
    "conns t 0 = Some C" "conn_state C = kDisconnected" "registered C" "conn_loop C = server_loop t" "removals 0 t = 0"
    using sample_closed(2) by (auto split: sum.splits option.splits)
  have "server_step sample_env default_callbacks (Event 0 HandleHup (ReadErr 0) (Timestamp 9)) t = Inl AssertionFailed"
    by (rule TcpServer_hangup_after_close_aborts [OF default_callback_ok sample_server_start sample_closed(1) t])
  with t(1) show ?thesis by (simp add: server_run_append)
qed

end
