(* ===== verification/Tcp_Closing.thy ===== *)
theory Tcp_Closing
  imports Tcp_Server
begin

text \<open>
  The end of a connection, from \<open>closeConnection\<close> to its last functor: a functor that a loop of the
  server has queued leads to at most two others, so the loops come to rest; and what they leave is
  a table from which the connections that were closed are gone.
\<close>

section \<open>The work that is queued\<close>








section \<open>Running a functor\<close>












section \<open>Coming to rest\<close>



section \<open>Property\<close>




section \<open>A send that comes after a hang-up\<close>

text \<open>
  \<open>sendInLoop\<close> does not look at the state of the connection. When the functor of a \<open>send\<close> from another
  thread runs after \<open>handleHup\<close> has removed the channel, what the socket does not take registers the
  descriptor again; the hang-up is delivered a second time, asks for the removal from the table a second
  time, and the second removal aborts the server.
\<close>

definition hangup_trace :: "server_op list" where
  "hangup_trace = [Accept (Inr (5, sample_peer)) [], CallSend 7 0 ''x'', Event 0 HandleHup (ReadErr 0) (Timestamp 1),
     RunFunctor 100, Event 0 HandleHup (ReadErr 0) (Timestamp 2), RunFunctor 7]"

lemma send_after_hangup_aborts:
  "\<exists>t. server_run sample_env default_callbacks hangup_trace (sample_server 2) = Inr t
    \<and> server_step sample_env default_callbacks (RunFunctor 7) t = Inl AssertionFailed"
  by (simp add: server_eval sample_server_simps upt_rec hangup_trace_def TcpConnection_send_def TcpConnection_sendInLoop_def
      TcpConnection_handleHup_def TcpConnection_connectionDestroyed_def Channel_remove_def TcpServer_removeConnectionFromMap_def
      TcpServer_removeConnectionFromMapInLoop_def sys_write_def Channel_enableWriting_def EventLoop_removeChannel_def
      Poller_removeChannel_def epoll_del_def new_simps)

end
