(* ===== verification/Tcp_Accept.thy ===== *)
theory Tcp_Accept
  imports Tcp_Server
begin

text \<open>
  The interleaving inside \<open>newConnetion\<close>. The base loop registers the channel of a new
  connection with the loop of the connection, then sets the state, then calls the connection
  callback; the other loops run in between. Here these are three steps, and the theory shows when
  the single step of \<open>Tcp_Server\<close> stands for them, and what happens when it does not.
\<close>

section \<open>The three steps of \<open>newConnetion\<close>\<close>

text \<open>Up to \<open>enableReading\<close>; the result has the address of the new connection.\<close>

definition newConnetion_registers ::
  "net_env \<Rightarrow> nat \<Rightarrow> int \<Rightarrow> NetAddr \<Rightarrow> write_result list \<Rightarrow> 'x TcpServer \<Rightarrow> (nat \<times> 'x TcpServer) res" where
  "newConnetion_registers env cur fd peer writes s =
     assertInLoopThread cur (server_loop s)
       (if nextConnectionId s \<ge> 2 ^ 31 - 1 then Inl IntegerOverflow
        else
          let conName = connection_name (server_name s) (nextConnectionId s);
              s = s\<lparr>nextConnectionId := nextConnectionId s + 1\<rparr>;
              local = NetAddr_getLocalAddr (inet_aton env) (getsockname env) fd
          in andThen (ThreadPool_getNextLoop cur (loopsThreadPool s)) (\<lambda>(ioLoop, p).
             let c = next_conn s;
                 conn = TcpConnection_new c ioLoop conName fd local peer writes;
                 s = s\<lparr>loopsThreadPool := p, next_conn := c + 1,
                       connections := map_put conName c (connections s)\<rparr>
             in Inr (c, put_conn c (TcpConnection_establishChannel conn) s)))"

definition acceptor_registers ::
  "net_env \<Rightarrow> nat \<Rightarrow> int + int \<times> sockaddr_in \<Rightarrow> write_result list \<Rightarrow> 'x TcpServer \<Rightarrow> (nat \<times> 'x TcpServer) res" where
  "acceptor_registers env cur r writes s =
     assertInLoopThread cur (server_loop s)
       (let peer = NetAddr_new (inet_aton env) ''0.0.0.0'' 0;
            (newFd, peer, errno) = Socket_acceptConnection r peer 0
        in newConnetion_registers env cur newFd peer writes s)"

text \<open>\<open>state_ = kConnected\<close>, and the call of the connection callback.\<close>

definition establish_state :: "nat \<Rightarrow> 'x TcpServer \<Rightarrow> 'x TcpServer res" where
  "establish_state c s =
     (case conns s c of None \<Rightarrow> Inl NullPointer | Some C \<Rightarrow> Inr (put_conn c (C\<lparr>conn_state := kConnected\<rparr>) s))"

definition establish_callback :: "'x callbacks \<Rightarrow> nat \<Rightarrow> 'x TcpServer \<Rightarrow> 'x TcpServer res" where
  "establish_callback cb c s = do_effect cb (server_loop s) c (Call ConnectionCallback) s"

text \<open>Run without a break they are the step of \<open>Tcp_Server\<close>.\<close>

lemma andThen_id [simp]: "andThen r Inr = r"
  by (cases r) simp_all

lemma do_effects_Nil: "do_effects cb cur c [] = Inr"
  by (rule ext) simp

lemma newConnetion_steps:
  "TcpServer_newConnetion env cb (server_loop s) fd peer writes s =
     andThen (newConnetion_registers env (server_loop s) fd peer writes s) (\<lambda>(c, t).
     andThen (establish_state c t) (establish_callback cb c))"
proof (cases "2 ^ 31 - 1 \<le> nextConnectionId s")
  case False
  show ?thesis
  proof (cases "ThreadPool_getNextLoop (server_loop s) (loopsThreadPool s)")
    case (Inr lp)
    obtain l p where "lp = (l, p)" by (cases lp)
    with False Inr show ?thesis
      by (simp add: TcpServer_newConnetion_def newConnetion_registers_def establish_state_def establish_callback_def
          on_conn_def TcpConnection_connectionEstablish_def Let_def do_effects_Nil del: do_effect.simps)
  qed (use False in \<open>simp add: TcpServer_newConnetion_def newConnetion_registers_def Let_def\<close>)
qed (simp add: TcpServer_newConnetion_def newConnetion_registers_def)

lemma accept_steps:
  "server_step env cb (Accept r writes) s =
     andThen (acceptor_registers env (server_loop s) r writes s) (\<lambda>(c, t).
     andThen (establish_state c t) (establish_callback cb c))"
  by (simp add: Acceptor_handleRead_def acceptor_registers_def newConnetion_steps Let_def split: prod.split)

section \<open>Steps elsewhere do not see the new connection\<close>

text \<open>What the first step adds to a server, and the part of the server that it reads.\<close>

definition with_new ::
  "nat \<Rightarrow> 'x TcpConnection \<Rightarrow> EventLoopThreadPool \<Rightarrow> int \<Rightarrow> (string, nat) std_map \<Rightarrow> 'x TcpServer \<Rightarrow> 'x TcpServer" where
  "with_new c E p i m s = s\<lparr>conns := (conns s)(c \<mapsto> E), next_conn := c + 1, loopsThreadPool := p,
     nextConnectionId := i, connections := m\<rparr>"

definition same_base :: "'x TcpServer \<Rightarrow> 'x TcpServer \<Rightarrow> bool" where
  "same_base s t \<longleftrightarrow> server_loop t = server_loop s \<and> server_name t = server_name s
     \<and> loopsThreadPool t = loopsThreadPool s \<and> connections t = connections s
     \<and> nextConnectionId t = nextConnectionId s \<and> next_conn t = next_conn s"

lemma same_base_refl [simp]: "same_base s s"
  by (simp add: same_base_def)

lemma same_base_trans: "same_base s t \<Longrightarrow> same_base t u \<Longrightarrow> same_base s u"
  by (simp add: same_base_def)

lemma with_new_simps [simp]:
  "server_loop (with_new c E p i m s) = server_loop s" "pendings (with_new c E p i m s) = pendings s"
  "conns (with_new c E p i m s) = (conns s)(c \<mapsto> E)"
  "EventLoop_QueueInLoop l f (with_new c E p i m s) = with_new c E p i m (EventLoop_QueueInLoop l f s)"
  "(with_new c E p i m s)\<lparr>pendings := q\<rparr> = with_new c E p i m (s\<lparr>pendings := q\<rparr>)"
  "d \<noteq> c \<Longrightarrow> put_conn d D (with_new c E p i m s) = with_new c E p i m (put_conn d D s)"
  by (simp_all add: with_new_def EventLoop_QueueInLoop_def put_conn_def fun_upd_twist)

lemma registers_frame:
  fixes s :: "'x TcpServer"
  assumes "acceptor_registers env (server_loop s) r writes s = Inr (c, t)"
  obtains E p i m where "c = next_conn s" "t = with_new c E p i m s" "conn_state E = kConnecting"
    "\<forall>u. same_base s u \<longrightarrow> acceptor_registers env (server_loop u) r writes u = Inr (c, with_new c E p i m u)"
proof -
  obtain fd peer errno where a: "Socket_acceptConnection r (NetAddr_new (inet_aton env) ''0.0.0.0'' 0) 0 = (fd, peer, errno)"
    by (cases "Socket_acceptConnection r (NetAddr_new (inet_aton env) ''0.0.0.0'' 0) 0")
  have e: "acceptor_registers env cur r writes u = newConnetion_registers env cur fd peer writes u"
    for cur and u :: "'x TcpServer"
    by (simp add: acceptor_registers_def a Let_def newConnetion_registers_def assertInLoopThread_def assert_that_def)
  have small: "\<not> 2 ^ 31 - 1 \<le> nextConnectionId s"
    using assms by (auto simp: e newConnetion_registers_def split: if_splits)
  then obtain l p where p: "ThreadPool_getNextLoop (server_loop s) (loopsThreadPool s) = Inr (l, p)"
    using assms by (auto simp: e newConnetion_registers_def Let_def andThen_eq_Inr)
  define E :: "'x TcpConnection" where "E = TcpConnection_establishChannel (TcpConnection_new (next_conn s) l
    (connection_name (server_name s) (nextConnectionId s)) fd (NetAddr_getLocalAddr (inet_aton env) (getsockname env) fd) peer writes)"
  define m where "m = map_put (connection_name (server_name s) (nextConnectionId s)) (next_conn s) (connections s)"
  have all: "acceptor_registers env (server_loop u) r writes u
      = Inr (next_conn s, with_new (next_conn s) E p (nextConnectionId s + 1) m u)" if "same_base s u" for u
    using that small p
    by (simp add: e newConnetion_registers_def Let_def same_base_def with_new_def put_conn_def E_def m_def)
  have "conn_state E = kConnecting"
    by (simp add: E_def TcpConnection_establishChannel_def TcpConnection_new_def Let_def)
  moreover have "c = next_conn s" "t = with_new c E p (nextConnectionId s + 1) m s"
    using all [of s] assms by simp_all
  ultimately show thesis using all by (intro that [of E p "nextConnectionId s + 1" m]) simp_all
qed

text \<open>
  A step elsewhere: of a loop other than the base loop, or a call from a thread other than the base
  thread, and not one that delivers an event to the new connection or calls it.
\<close>

definition op_thread :: "server_op \<Rightarrow> 'x TcpServer \<Rightarrow> nat option" where
  "op_thread op s = (case op of
     Accept r writes \<Rightarrow> Some (server_loop s)
   | Event d h r now \<Rightarrow> map_option conn_loop (conns s d)
   | RunFunctor l \<Rightarrow> Some l
   | CallSend cur d data \<Rightarrow> Some cur
   | CallClose cur d \<Rightarrow> Some cur)"

definition op_touches :: "nat \<Rightarrow> server_op \<Rightarrow> bool" where
  "op_touches c op = (case op of
     Event d h r now \<Rightarrow> d = c | CallSend cur d data \<Rightarrow> d = c | CallClose cur d \<Rightarrow> d = c | _ \<Rightarrow> False)"

definition add_new ::
  "nat \<Rightarrow> 'x TcpConnection \<Rightarrow> EventLoopThreadPool \<Rightarrow> int \<Rightarrow> (string, nat) std_map \<Rightarrow> 'x TcpServer res \<Rightarrow> 'x TcpServer res" where
  "add_new c E p i m r = andThen r (\<lambda>s. Inr (with_new c E p i m s))"

lemma add_new_simps [simp]:
  "add_new c E p i m (Inr s) = Inr (with_new c E p i m s)" "add_new c E p i m (Inl e) = Inl e"
  "add_new c E p i m (andThen r f) = andThen r (\<lambda>s. add_new c E p i m (f s))"
  by (cases r; simp add: add_new_def)+

lemma add_new_andThen: "andThen (add_new c E p i m r) f = andThen r (\<lambda>s. f (with_new c E p i m s))"
  by (cases r) simp_all

text \<open>What a step elsewhere leaves: the base loop's own data.\<close>

definition keeps_base :: "'x TcpServer \<Rightarrow> 'x TcpServer res \<Rightarrow> bool" where
  "keeps_base s r \<longleftrightarrow> (case r of Inl e \<Rightarrow> True | Inr t \<Rightarrow> same_base s t)"

lemma keeps_base_simps [simp]: "keeps_base s (Inl e)" "keeps_base s (Inr t) = same_base s t"
  by (simp_all add: keeps_base_def)

lemma same_base_simps [simp]:
  "same_base s (EventLoop_QueueInLoop l f t) = same_base s t" "same_base s (put_conn d D t) = same_base s t"
  "same_base s (t\<lparr>pendings := q\<rparr>) = same_base s t"
  by (simp_all add: same_base_def)

lemma queue_all_base: "same_base s (queue_all l d fs t) = same_base s t"
  unfolding queue_all_def by (induction fs arbitrary: t) simp_all

lemma queue_all_new: "queue_all l d fs (with_new c E p i m s) = with_new c E p i m (queue_all l d fs s)"
  unfolding queue_all_def by (induction fs arbitrary: s) simp_all

lemma effect_elsewhere:
  assumes "cur \<noteq> server_loop s" and "d \<noteq> c"
  shows "do_effect cb cur d e (with_new c E p i m s) = add_new c E p i m (do_effect cb cur d e s)"
    "keeps_base s (do_effect cb cur d e s)"
proof -
  have q: "do_effect cb cur d (Queue f) (with_new c E p i m s) = add_new c E p i m (do_effect cb cur d (Queue f) s)"
    "keeps_base s (do_effect cb cur d (Queue f) s)" for f
    using assms by (simp_all split: option.split)
  have u: "(case conns (with_new c E p i m s) d of None \<Rightarrow> Inl NullPointer
      | Some C \<Rightarrow> andThen (cb k C) (\<lambda>(C, fs). Inr (queue_all (conn_loop C) d fs (put_conn d C (with_new c E p i m s)))))
    = add_new c E p i m (case conns s d of None \<Rightarrow> Inl NullPointer
      | Some C \<Rightarrow> andThen (cb k C) (\<lambda>(C, fs). Inr (queue_all (conn_loop C) d fs (put_conn d C s))))"
    "keeps_base s (case conns s d of None \<Rightarrow> Inl NullPointer
      | Some C \<Rightarrow> andThen (cb k C) (\<lambda>(C, fs). Inr (queue_all (conn_loop C) d fs (put_conn d C s))))" for k
    using assms
    by (auto simp: queue_all_new andThen_def queue_all_base add_new_def split: option.splits sum.splits prod.splits)
  have r: "TcpServer_removeConnection cur d (with_new c E p i m s) = add_new c E p i m (TcpServer_removeConnection cur d s)"
    "TcpServer_removeConnectionFromMap cur d (with_new c E p i m s) = add_new c E p i m (TcpServer_removeConnectionFromMap cur d s)"
    "keeps_base s (TcpServer_removeConnection cur d s)" "keeps_base s (TcpServer_removeConnectionFromMap cur d s)"
    using assms(1)
    by (simp_all add: TcpServer_removeConnection_def TcpServer_removeConnectionFromMap_def EventLoop_RunInLoop_def)
  have "do_effect cb cur d e (with_new c E p i m s) = add_new c E p i m (do_effect cb cur d e s)
    \<and> keeps_base s (do_effect cb cur d e s)"
  proof (cases e)
    case (Call k)
    with r u show ?thesis by (cases k) (simp_all only: do_effect.simps)
  next
    case (Queue f)
    with q show ?thesis by (simp only:)
  qed
  then show "do_effect cb cur d e (with_new c E p i m s) = add_new c E p i m (do_effect cb cur d e s)"
    "keeps_base s (do_effect cb cur d e s)" by simp_all
qed

lemma keeps_baseD: "keeps_base s r \<Longrightarrow> r = Inr t \<Longrightarrow> same_base s t"
  by simp

lemma effects_elsewhere:
  assumes "cur \<noteq> server_loop s" and "d \<noteq> c"
  shows "do_effects cb cur d es (with_new c E p i m s) = add_new c E p i m (do_effects cb cur d es s)
    \<and> keeps_base s (do_effects cb cur d es s)"
  using assms(1)
proof (induction es arbitrary: s)
  case (Cons e es)
  note e = effect_elsewhere [OF Cons.prems assms(2)]
  show ?case
  proof (cases "do_effect cb cur d e s")
    case (Inr t)
    then have t: "same_base s t" using e(2) [of cb e] by simp
    then have "cur \<noteq> server_loop t" using Cons.prems by (simp add: same_base_def)
    from Cons.IH [OF this] have "do_effects cb cur d es (with_new c E p i m t) = add_new c E p i m (do_effects cb cur d es t)"
      "keeps_base t (do_effects cb cur d es t)" by simp_all
    with t show ?thesis
      by (cases "do_effects cb cur d es t") (auto simp: e(1) Inr intro: same_base_trans simp del: do_effect.simps)
  qed (simp add: e(1) del: do_effect.simps)
qed simp

lemma on_conn_elsewhere:
  assumes "cur \<noteq> server_loop s" and "d \<noteq> c"
  shows "on_conn cb cur d f (with_new c E p i m s) = add_new c E p i m (on_conn cb cur d f s)"
    "keeps_base s (on_conn cb cur d f s)"
proof -
  have "on_conn cb cur d f (with_new c E p i m s) = add_new c E p i m (on_conn cb cur d f s)
    \<and> keeps_base s (on_conn cb cur d f s)"
  proof (cases "conns s d")
    case None
    with assms(2) show ?thesis by (simp add: on_conn_def)
  next
    case (Some C)
    show ?thesis
    proof (cases "f C")
      case (Inr q)
      obtain C' es where q: "q = (C', es)" by (cases q)
      have "cur \<noteq> server_loop (put_conn d C' s)" using assms(1) by simp
      note e = effects_elsewhere [OF this assms(2), of cb es E p i m]
      show ?thesis
        using e assms(2) Some Inr
        by (cases "do_effects cb cur d es (put_conn d C' s)") (simp_all add: on_conn_def q same_base_def)
    qed (use assms(2) Some in \<open>simp add: on_conn_def\<close>)
  qed
  then show "on_conn cb cur d f (with_new c E p i m s) = add_new c E p i m (on_conn cb cur d f s)"
    "keeps_base s (on_conn cb cur d f s)" by simp_all
qed

lemma step_elsewhere:
  assumes "op_thread op s \<noteq> Some (server_loop s)" and "\<not> op_touches c op"
    and "\<And>l f. f \<in> set (pendings s l) \<Longrightarrow> functor_conn f \<noteq> c"
  shows "server_step env cb op (with_new c E p i m s) = add_new c E p i m (server_step env cb op s)
    \<and> keeps_base s (server_step env cb op s)"
proof (cases op)
  case (Accept r writes)
  with assms(1) show ?thesis by (simp add: op_thread_def)
next
  case (Event d h r now)
  with assms(2) have d: "d \<noteq> c" by (simp add: op_touches_def)
  show ?thesis
  proof (cases "conns s d")
    case (Some D)
    with assms(1) Event have "conn_loop D \<noteq> server_loop s" by (simp add: op_thread_def)
    with on_conn_elsewhere [OF this d] Some d show ?thesis by (simp add: Event)
  qed (use d in \<open>simp add: Event\<close>)
next
  case (RunFunctor l)
  with assms(1) have l: "l \<noteq> server_loop s" by (simp add: op_thread_def)
  show ?thesis
  proof (cases "pendings s l")
    case Nil
    then show ?thesis by (simp add: RunFunctor)
  next
    case (Cons f fs)
    let ?u = "s\<lparr>pendings := (pendings s)(l := fs)\<rparr>"
    have f: "functor_conn f \<noteq> c" using assms(3) [of f l] Cons by simp
    have u: "l \<noteq> server_loop ?u" using l by simp
    have b: "keeps_base ?u r' = keeps_base s r'" for r' :: "'a TcpServer res"
      by (simp add: keeps_base_def same_base_def split: sum.split)
    have "run_functor cb l f (with_new c E p i m ?u) = add_new c E p i m (run_functor cb l f ?u)
      \<and> keeps_base s (run_functor cb l f ?u)"
    proof (cases f)
      case (ConnFunctor d g)
      with f on_conn_elsewhere [OF u, of d c] b show ?thesis by simp
    qed (use l in \<open>simp_all add: TcpServer_removeConnectionInLoop_def TcpServer_removeConnectionFromMapInLoop_def assertInLoopThread_def\<close>)
    then show ?thesis by (simp add: RunFunctor Cons)
  qed
next
  case (CallSend cur d data)
  with assms(1,2) have "cur \<noteq> server_loop s" "d \<noteq> c" by (simp_all add: op_thread_def op_touches_def)
  with on_conn_elsewhere [OF this] show ?thesis by (simp add: CallSend)
next
  case (CallClose cur d)
  with assms(1,2) have "cur \<noteq> server_loop s" "d \<noteq> c" by (simp_all add: op_thread_def op_touches_def)
  with on_conn_elsewhere [OF this] show ?thesis by (simp add: CallClose)
qed

section \<open>Fine-grained runs\<close>

text \<open>
  The base loop is accepting a connection or not; while it is, it runs nothing else. The other
  threads go on.
\<close>

datatype accept_phase = NotAccepting | ChannelRegistered nat | StateConnected nat

datatype fine_op =
    Other server_op
  | AcceptRegisters "int + int \<times> sockaddr_in" "write_result list"
  | AcceptState
  | AcceptCallback

type_synonym 'x fine_server = "'x TcpServer \<times> accept_phase"

fun fine_step :: "net_env \<Rightarrow> 'x callbacks \<Rightarrow> fine_op \<Rightarrow> 'x fine_server \<Rightarrow> 'x fine_server res" where
  "fine_step env cb (Other op) (s, ph) = andThen (server_step env cb op s) (\<lambda>t. Inr (t, ph))"
| "fine_step env cb (AcceptRegisters r writes) (s, NotAccepting) =
     andThen (acceptor_registers env (server_loop s) r writes s) (\<lambda>(c, t). Inr (t, ChannelRegistered c))"
| "fine_step env cb AcceptState (s, ChannelRegistered c) = andThen (establish_state c s) (\<lambda>t. Inr (t, StateConnected c))"
| "fine_step env cb AcceptCallback (s, StateConnected c) =
     andThen (establish_callback cb c s) (\<lambda>t. Inr (t, NotAccepting))"
| "fine_step env cb op (s, ph) = Inr (s, ph)"

fun fine_run :: "net_env \<Rightarrow> 'x callbacks \<Rightarrow> fine_op list \<Rightarrow> 'x fine_server \<Rightarrow> 'x fine_server res" where
  "fine_run env cb [] x = Inr x"
| "fine_run env cb (op # ops) x = andThen (fine_step env cb op x) (fine_run env cb ops)"

text \<open>
  What the code can do next: accepting is done by its three steps, in order, and keeps the base
  loop busy.
\<close>

fun fine_enabled :: "fine_op \<Rightarrow> 'x fine_server \<Rightarrow> bool" where
  "fine_enabled (Other op) (s, ph) =
     (case op of Accept r writes \<Rightarrow> False | _ \<Rightarrow> ph = NotAccepting \<or> op_thread op s \<noteq> Some (server_loop s))"
| "fine_enabled (AcceptRegisters r writes) (s, ph) = (ph = NotAccepting)"
| "fine_enabled AcceptState (s, ph) = (case ph of ChannelRegistered c \<Rightarrow> True | _ \<Rightarrow> False)"
| "fine_enabled AcceptCallback (s, ph) = (case ph of StateConnected c \<Rightarrow> True | _ \<Rightarrow> False)"

text \<open>The connection that is being established.\<close>

fun new_conn :: "accept_phase \<Rightarrow> nat option" where
  "new_conn NotAccepting = None"
| "new_conn (ChannelRegistered c) = Some c"
| "new_conn (StateConnected c) = Some c"

text \<open>
  The runs that are considered: as in \<open>Tcp_Server\<close>, and no event of the new connection is handled, and
  no call made on it, before its connection callback has run.
\<close>

fun fine_op_allowed :: "fine_op \<Rightarrow> 'x fine_server \<Rightarrow> bool" where
  "fine_op_allowed (Other op) (s, ph) =
     (op_allowed op s \<and> (case new_conn ph of None \<Rightarrow> True | Some c \<Rightarrow> \<not> op_touches c op))"
| "fine_op_allowed (AcceptRegisters r writes) (s, ph) = op_allowed (Accept r writes) s"
| "fine_op_allowed op (s, ph) = True"

fun fine_allowed :: "net_env \<Rightarrow> 'x callbacks \<Rightarrow> fine_op list \<Rightarrow> 'x fine_server \<Rightarrow> bool" where
  "fine_allowed env cb [] x = True"
| "fine_allowed env cb (op # ops) x =
     (fine_enabled op x \<and> fine_op_allowed op x
      \<and> (case fine_step env cb op x of Inl e \<Rightarrow> True | Inr y \<Rightarrow> fine_allowed env cb ops y))"

text \<open>The run of whole steps it stands for: the acceptance happens where its callback is called.\<close>

type_synonym accept_args = "((int + int \<times> sockaddr_in) \<times> write_result list) option"

fun whole_step :: "accept_args \<Rightarrow> fine_op \<Rightarrow> server_op list" where
  "whole_step a (Other op) = [op]"
| "whole_step (Some (r, writes)) AcceptCallback = [Accept r writes]"
| "whole_step a op = []"

fun next_args :: "accept_args \<Rightarrow> fine_op \<Rightarrow> accept_args" where
  "next_args a (AcceptRegisters r writes) = Some (r, writes)"
| "next_args a AcceptCallback = None"
| "next_args a op = a"

fun whole_steps :: "accept_args \<Rightarrow> fine_op list \<Rightarrow> server_op list" where
  "whole_steps a [] = []"
| "whole_steps a (op # ops) = whole_step a op @ whole_steps (next_args a op) ops"

text \<open>How a fine-grained state relates to the state in which the acceptance has not begun.\<close>

fun ahead_of ::
  "net_env \<Rightarrow> accept_args \<Rightarrow> 'x TcpServer \<Rightarrow> 'x fine_server \<Rightarrow> bool" where
  "ahead_of env None s (t, NotAccepting) = (t = s)"
| "ahead_of env (Some (r, writes)) s (t, ChannelRegistered c) =
     (op_allowed (Accept r writes) s \<and> acceptor_registers env (server_loop s) r writes s = Inr (c, t))"
| "ahead_of env (Some (r, writes)) s (t, StateConnected c) =
     (op_allowed (Accept r writes) s
      \<and> (case acceptor_registers env (server_loop s) r writes s of
            Inl e \<Rightarrow> False | Inr (d, u) \<Rightarrow> d = c \<and> establish_state c u = Inr t))"
| "ahead_of env _ s x = False"

lemma functor_conn_old: "server_inv d s \<Longrightarrow> f \<in> set (pendings s l) \<Longrightarrow> functor_conn f \<noteq> next_conn s"
  using server_invD(10) [of d s f l] server_invD(5) [of d s "next_conn s"]
  by (cases f) (auto split: option.splits)

lemma establish_with_new: "establish_state c (with_new c E p i m s) = Inr (with_new c (E\<lparr>conn_state := kConnected\<rparr>) p i m s)"
  by (simp add: establish_state_def with_new_def put_conn_def)

context connection_callbacks
begin

lemma other_in_window:
  assumes t: "t = with_new (next_conn s) E p i m s"
    and "server_inv (\<lambda>_. 0) s" and "contexts_ok J {} s" and "op_allowed op t" and "\<not> op_touches (next_conn s) op"
    and "op_thread op t \<noteq> Some (server_loop t)"
  shows "case server_step env cb op t of
      Inl e \<Rightarrow> e = IntegerOverflow \<or> e \<in> F
    | Inr y \<Rightarrow> op_allowed op s \<and> (\<exists>u. server_step env cb op s = Inr u \<and> y = with_new (next_conn s) E p i m u
        \<and> same_base s u \<and> server_inv (\<lambda>_. 0) u \<and> contexts_ok J {} u)"
proof -
  have th: "op_thread op t = op_thread op s" "op_allowed op t = op_allowed op s"
    using assms(5) unfolding t
    by (cases op; simp add: op_thread_def op_touches_def op_allowed_def is_open_def)+
  have "op_thread op s \<noteq> Some (server_loop s)" using assms(6) th by (simp add: t)
  note e = step_elsewhere [OF this assms(5) functor_conn_old [OF assms(2)], where env = env and cb = cb and E = E and p = p and i = i and m = m]
  have "server_ok (insert IntegerOverflow F) J (server_step env cb op s)"
    using assms(2-4) th by (intro server_step_ok) simp_all
  with e assms(4) th show ?thesis
    unfolding t by (cases "server_step env cb op s") (simp_all del: server_step.simps)
qed

lemma fine_step_whole:
  assumes "ahead_of env a s x" and "server_inv (\<lambda>_. 0) s" and "contexts_ok J {} s"
    and "fine_enabled op x" and "fine_op_allowed op x"
  shows "case fine_step env cb op x of
      Inl e \<Rightarrow> e = IntegerOverflow \<or> e \<in> F
    | Inr y \<Rightarrow> run_allowed env cb (whole_step a op) s \<and> (\<exists>u. server_run env cb (whole_step a op) s = Inr u
        \<and> ahead_of env (next_args a op) u y \<and> server_inv (\<lambda>_. 0) u \<and> contexts_ok J {} u)"
proof -
  obtain t ph where x: "x = (t, ph)" by (cases x)
  note i = assms(2,3)
  show ?thesis
  proof (cases op)
    case (Other o1)
    have na: "op_allowed o1 t" and qu: "\<And>c. new_conn ph = Some c \<Longrightarrow> \<not> op_touches c o1"
      using assms(5) by (auto simp: x Other)
    have th: "ph \<noteq> NotAccepting \<Longrightarrow> op_thread o1 t \<noteq> Some (server_loop t)"
      using assms(4) by (auto simp: x Other split: server_op.splits)
    show ?thesis
    proof (cases ph)
      case NotAccepting
      with assms(1) have "a = None" "t = s" by (cases a; auto simp: x)+
      with server_step_ok [OF i(1) _ i(2), of o1 env] na show ?thesis
        by (cases "server_step env cb o1 s") (simp_all add: x Other NotAccepting del: server_step.simps)
    next
      case (ChannelRegistered c)
      obtain r w where a: "a = Some (r, w)" "op_allowed (Accept r w) s" "acceptor_registers env (server_loop s) r w s = Inr (c, t)"
        using assms(1) by (cases a) (auto simp: x ChannelRegistered)
      obtain E p i m where n: "c = next_conn s" "t = with_new c E p i m s"
        "\<forall>u. same_base s u \<longrightarrow> acceptor_registers env (server_loop u) r w u = Inr (c, with_new c E p i m u)"
        by (rule registers_frame [OF a(3)])
      have "op_allowed (Accept r w) u = op_allowed (Accept r w) s" for u :: "'x TcpServer" by (simp add: op_allowed_def)
      with other_in_window [OF n(2) [unfolded n(1)] i na qu [of c, unfolded n(1)] th, of env] n a(1,2) show ?thesis
        by (cases "server_step env cb o1 t") (auto simp: x Other ChannelRegistered simp del: server_step.simps split: prod.splits)
    next
      case (StateConnected c)
      obtain r w v where a: "a = Some (r, w)" "op_allowed (Accept r w) s" "acceptor_registers env (server_loop s) r w s = Inr (c, v)"
        "establish_state c v = Inr t"
        using assms(1) by (cases a) (auto simp: x StateConnected split: sum.splits)
      obtain E p i m where n: "c = next_conn s" "v = with_new c E p i m s"
        "\<forall>u. same_base s u \<longrightarrow> acceptor_registers env (server_loop u) r w u = Inr (c, with_new c E p i m u)"
        by (rule registers_frame [OF a(3)])
      have t: "t = with_new (next_conn s) (E\<lparr>conn_state := kConnected\<rparr>) p i m s"
        using a(4) n(1,2) by (simp add: establish_with_new)
      have "op_allowed (Accept r w) u = op_allowed (Accept r w) s" for u :: "'x TcpServer" by (simp add: op_allowed_def)
      with other_in_window [OF t i na qu [of c, unfolded n(1)] th, of env] n(1,3) a(1,2) show ?thesis
        by (cases "server_step env cb o1 t") (auto simp: x Other StateConnected establish_with_new simp del: server_step.simps split: prod.splits)
    qed
  next
    case (AcceptRegisters r w)
    with assms(1,4) have "ph = NotAccepting" "a = None" "t = s" by (cases ph; cases a; auto simp: x)+
    moreover have "op_allowed (Accept r w) s" using assms(5) calculation by (simp add: x AcceptRegisters)
    moreover have "acceptor_registers env (server_loop s) r w s = Inl e \<Longrightarrow> e = IntegerOverflow \<or> e \<in> F" for e
      using server_step_ok [OF i(1) \<open>op_allowed (Accept r w) s\<close> i(2), of env] by (simp add: accept_steps del: server_step.simps)
    ultimately show ?thesis
      using i by (cases "acceptor_registers env (server_loop s) r w s") (auto simp: x AcceptRegisters)
  next
    case AcceptState
    then obtain c where ph: "ph = ChannelRegistered c" using assms(4) by (auto simp: x split: accept_phase.splits)
    obtain r w where a: "a = Some (r, w)" "op_allowed (Accept r w) s" "acceptor_registers env (server_loop s) r w s = Inr (c, t)"
      using assms(1) by (cases a) (auto simp: x ph)
    obtain E p i m where "c = next_conn s" "t = with_new c E p i m s" by (rule registers_frame [OF a(3)])
    with a i show ?thesis by (simp add: x AcceptState ph establish_with_new)
  next
    case AcceptCallback
    then obtain c where ph: "ph = StateConnected c" using assms(4) by (auto simp: x split: accept_phase.splits)
    obtain r w v where a: "a = Some (r, w)" "op_allowed (Accept r w) s" "acceptor_registers env (server_loop s) r w s = Inr (c, v)"
      "establish_state c v = Inr t"
      using assms(1) by (cases a) (auto simp: x ph split: sum.splits)
    have "server_loop t = server_loop s"
      using a(3,4) by (auto elim!: registers_frame simp: establish_with_new)
    then have "server_step env cb (Accept r w) s = establish_callback cb c t"
      by (simp add: accept_steps a(3,4) establish_callback_def del: server_step.simps do_effect.simps)
    with server_step_ok [OF i(1) a(2) i(2), of env] a(1,2) show ?thesis
      by (cases "establish_callback cb c t") (simp_all add: x AcceptCallback ph del: server_step.simps)
  qed
qed

lemma fine_run_whole:
  assumes "ahead_of env a s x" and "server_inv (\<lambda>_. 0) s" and "contexts_ok J {} s" and "fine_allowed env cb ops x"
  shows "case fine_run env cb ops x of
      Inl e \<Rightarrow> e = IntegerOverflow \<or> e \<in> F
    | Inr y \<Rightarrow> run_allowed env cb (whole_steps a ops) s
        \<and> (\<exists>u. server_run env cb (whole_steps a ops) s = Inr u \<and> (\<exists>b. ahead_of env b u y))"
  using assms
proof (induction ops arbitrary: a s x)
  case Nil
  then show ?case by auto
next
  case (Cons op ops)
  have st: "case fine_step env cb op x of
      Inl e \<Rightarrow> e = IntegerOverflow \<or> e \<in> F
    | Inr y \<Rightarrow> run_allowed env cb (whole_step a op) s \<and> (\<exists>u. server_run env cb (whole_step a op) s = Inr u
        \<and> ahead_of env (next_args a op) u y \<and> server_inv (\<lambda>_. 0) u \<and> contexts_ok J {} u)"
    using Cons.prems by (intro fine_step_whole) simp_all
  show ?case
  proof (cases "fine_step env cb op x")
    case (Inl e)
    with st show ?thesis by simp
  next
    case (Inr y)
    with st obtain u where u: "run_allowed env cb (whole_step a op) s" "server_run env cb (whole_step a op) s = Inr u"
      "ahead_of env (next_args a op) u y" "server_inv (\<lambda>_. 0) u" "contexts_ok J {} u" by auto
    have "fine_allowed env cb ops y" using Cons.prems(4) Inr by simp
    from Cons.IH [OF u(3-5) this] u(1,2) Inr show ?thesis
      by (cases "fine_run env cb ops y") (simp_all add: run_allowed_append server_run_append)
  qed
qed

end

section \<open>Properties\<close>

text \<open>
  C6. \<open>newConnetion\<close> may be taken for one step, though the other loops and threads run between the
  registration of the channel, \<open>state_ = kConnected\<close> and the connection callback: when no event of the new
  connection is handled and no call made on it before its connection callback, each run of the small
  steps, in any interleaving, stops only where a run of the whole steps may stop, and otherwise reaches
  what the run of whole steps reaches in which the connection is accepted at the moment its callback is
  called; between two acceptances the two states are equal.
\<close>

theorem TcpServer_accept_atomic:
  assumes "\<And>C k. conn_inv C \<Longrightarrow> callable J k C \<Longrightarrow> callback_ok F J C (cb k C)"
    and "TcpServer_start env startLoop base (TcpServer_setThreadNum n (TcpServer_new env ptr base addr name)) = Inr s"
    and "fine_allowed env cb ops (s, NotAccepting)"
  shows "case fine_run env cb ops (s, NotAccepting) of
      Inl e \<Rightarrow> e = IntegerOverflow \<or> e \<in> F
    | Inr (t, ph) \<Rightarrow> run_allowed env cb (whole_steps None ops) s
        \<and> (\<exists>u a. server_run env cb (whole_steps None ops) s = Inr u \<and> ahead_of env a u (t, ph)
             \<and> (ph = NotAccepting \<longrightarrow> t = u))"
proof -
  have "ahead_of env a u (t, NotAccepting) \<Longrightarrow> t = u" for a u t by (cases a) auto
  moreover have "ahead_of env None s (s, NotAccepting)" by simp
  note connection_callbacks.fine_run_whole [OF connection_callbacks.intro [OF assms(1)] this
      start_inv [OF assms(2)] start_contexts [OF assms(2)] assms(3)]
  ultimately show ?thesis
    by (cases "fine_run env cb ops (s, NotAccepting)") (simp_all split: prod.splits, blast)
qed

text \<open>
  Two connections are accepted by a server with two loops; the loop of the first one handles a hang-up of
  its peer while the base loop establishes the second.
\<close>

definition overlapping_trace :: "fine_op list" where
  "overlapping_trace = [AcceptRegisters (Inr (5, sample_peer)) [], AcceptState, AcceptCallback,
     AcceptRegisters (Inr (6, sample_peer)) [], Other (Event 0 HandleHup (ReadErr 0) (Timestamp 1)),
     AcceptState, Other (RunFunctor 100), AcceptCallback]"

text \<open>The definitions a fine-grained run is evaluated with.\<close>

lemmas fine_eval = server_eval acceptor_registers_def newConnetion_registers_def establish_state_def establish_callback_def
  op_thread_def op_touches_def TcpConnection_handleHup_def TcpConnection_connectionDestroyed_def Channel_remove_def
  TcpServer_removeConnectionFromMap_def TcpServer_removeConnectionFromMapInLoop_def EventLoop_removeChannel_def
  Poller_removeChannel_def epoll_del_def

lemma overlapping_allowed:
  "fine_allowed sample_env default_callbacks overlapping_trace (sample_server 2, NotAccepting)"
  by (simp add: fine_eval sample_server_simps upt_rec overlapping_trace_def is_open_def)

lemma overlapping_returns:
  "case fine_run sample_env default_callbacks overlapping_trace (sample_server 2, NotAccepting) of
     Inl e \<Rightarrow> False | Inr (t, ph) \<Rightarrow> ph = NotAccepting \<and> next_conn t = 2"
  by (simp add: fine_eval sample_server_simps upt_rec overlapping_trace_def)

theorem TcpServer_accept_atomic_witness:
  "\<exists>t. fine_run sample_env default_callbacks overlapping_trace (sample_server 2, NotAccepting) = Inr (t, NotAccepting)
    \<and> next_conn t = 2
    \<and> server_run sample_env default_callbacks
         [Accept (Inr (5, sample_peer)) [], Event 0 HandleHup (ReadErr 0) (Timestamp 1), RunFunctor 100,
          Accept (Inr (6, sample_peer)) []] (sample_server 2) = Inr t"
proof -
  obtain t where t: "fine_run sample_env default_callbacks overlapping_trace (sample_server 2, NotAccepting) = Inr (t, NotAccepting)"
    "next_conn t = 2"
    using overlapping_returns by (auto split: sum.splits)
  have "whole_steps None overlapping_trace = [Accept (Inr (5, sample_peer)) [],
      Event 0 HandleHup (ReadErr 0) (Timestamp 1), RunFunctor 100, Accept (Inr (6, sample_peer)) []]"
    by (simp add: overlapping_trace_def)
  with TcpServer_accept_atomic [OF default_callback_ok sample_server_start overlapping_allowed] t show ?thesis
    by (auto simp del: server_run.simps)
qed

text \<open>
  Without the restriction the three steps are not one. A hang-up of the new peer is handled between the
  first step and the second: \<open>handleHup\<close> removes the channel and asks for the removal from the table, but
  \<open>connectionDestroyed\<close> leaves \<open>kConnecting\<close> as it is, and \<open>state_ = kConnected\<close> follows. When the removal has
  run, the connection counts as connected and has neither a registration nor an entry in the table; a
  \<open>closeConnection\<close> on it asks for a second removal, and that one aborts the server.
\<close>

definition hangup_in_window :: "fine_op list" where
  "hangup_in_window = [AcceptRegisters (Inr (5, sample_peer)) [], Other (Event 0 HandleHup (ReadErr 0) (Timestamp 1)),
     AcceptState, AcceptCallback, Other (RunFunctor 7)]"

lemma hangup_in_window_leaves_connected:
  "\<exists>t C. fine_run sample_env default_callbacks hangup_in_window (sample_server 2, NotAccepting) = Inr (t, NotAccepting)
    \<and> conns t 0 = Some C \<and> conn_state C = kConnected \<and> \<not> registered C \<and> \<not> in_map 0 t"
  by (simp add: fine_eval sample_server_simps upt_rec hangup_in_window_def in_map_def)

lemma hangup_in_window_aborts:
  "fine_run sample_env default_callbacks
     (hangup_in_window @ [Other (CallClose 9 0), Other (RunFunctor 100), Other (RunFunctor 7)])
     (sample_server 2, NotAccepting) = Inl AssertionFailed"
  by (simp add: fine_eval sample_server_simps upt_rec hangup_in_window_def)

end
