(* ===== verification/Http_Server.thy ===== *)
theory Http_Server
  imports Http_Context Http_Response Tcp_Server
begin

text \<open>
  \<open>HTTP/HttpServer.h\<close> and \<open>HTTP/HttpServer.cpp\<close>: the callbacks that turn a \<open>TcpServer\<close> into an
  HTTP server, and the handler of the example server of \<open>test/main.cpp\<close>. The context of a connection is its
  parser; the user's handler of requests, \<open>httpCallback_\<close>, is an argument. The callbacks run in
  the loop of their connection.
\<close>

section \<open>The server\<close>

type_synonym http_callback = "HttpRequest \<Rightarrow> HttpResponse \<Rightarrow> HttpResponse"

definition defaultHttpCallback :: http_callback where
  "defaultHttpCallback req resp =
     setCloseConnection True (setStatusMessage ''Not Found'' (setStatusCode k404NotFound resp))"

definition HttpServer_onConnection :: "HttpContext TcpConnection \<Rightarrow> HttpContext TcpConnection" where
  "HttpServer_onConnection conn =
     (if establlished conn then setContext HttpContext_new conn else conn)"

text \<open>\<open>send\<close> and \<open>closeConnection\<close>, with the functors they queue.\<close>

definition queued :: "effect list \<Rightarrow> conn_functor list" where
  "queued es = concat (map (\<lambda>e. case e of Queue f \<Rightarrow> [f] | Call k \<Rightarrow> []) es)"

definition conn_send :: "string \<Rightarrow> 'x TcpConnection \<Rightarrow> ('x TcpConnection \<times> conn_functor list) res" where
  "conn_send data conn =
     andThen (TcpConnection_send (conn_loop conn) data conn) (\<lambda>(conn, es). Inr (conn, queued es))"

definition send_and_close ::
  "string \<Rightarrow> bool \<Rightarrow> 'x TcpConnection \<Rightarrow> ('x TcpConnection \<times> conn_functor list) res" where
  "send_and_close data close conn =
     andThen (conn_send data conn) (\<lambda>(conn, fs).
       if close then
         let (conn, es) = TcpConnection_closeConnection conn in Inr (conn, fs @ queued es)
       else Inr (conn, fs))"

definition HttpServer_response :: "http_callback \<Rightarrow> HttpRequest \<Rightarrow> HttpResponse" where
  "HttpServer_response httpCallback req =
     (let connection = getHeader ''Connection'' req;
          close = (connection = ''close'' \<or> (req_version req = kHttp10 \<and> connection \<noteq> ''Keep-Alive''))
      in httpCallback req (HttpResponse_new close))"

definition HttpServer_onRequest ::
  "http_callback \<Rightarrow> HttpContext TcpConnection \<Rightarrow> HttpRequest
     \<Rightarrow> (HttpContext TcpConnection \<times> conn_functor list) res" where
  "HttpServer_onRequest httpCallback conn req =
     (let response = HttpServer_response httpCallback req;
          buf = HttpResponse_appendToBuffer response (Buffer_new DEFAULTINITSIZE)
      in send_and_close (Buffer_range buf (Buffer_peek buf) (Buffer_peek buf + Buffer_readbleBytes buf))
           (resp_closeConnection response) conn)"

text \<open>
  The test for the end of the headers reads the four bytes before the write index; before the
  beginning of the buffer's memory that is out of bounds. \<open>parseRequest\<close> may loop for ever, and
  dereferences the context, which is null as long as \<open>onConnection\<close> has not run.
\<close>

definition HttpServer_onMessage ::
  "http_callback \<Rightarrow> Timestamp \<Rightarrow> HttpContext TcpConnection
     \<Rightarrow> (HttpContext TcpConnection \<times> conn_functor list) res" where
  "HttpServer_onMessage httpCallback receiveTime conn =
     (let buf = inBuffer conn;
          spaceLine = Buffer_peek buf + Buffer_readbleBytes buf - 4
      in if spaceLine < 0 then Inl OutOfBounds
         else if Buffer_range buf spaceLine (spaceLine + 4) = crlf @ crlf then
           case conn_context conn of
             None \<Rightarrow> Inl NullPointer
           | Some context \<Rightarrow>
               (case HttpContext_parseRequest context buf receiveTime of
                  None \<Rightarrow> Inl InfiniteLoop
                | Some (Inl e) \<Rightarrow> Inl e
                | Some (Inr (parsed, context, buf)) \<Rightarrow>
                    let conn = conn\<lparr>inBuffer := buf, conn_context := Some context\<rparr>
                    in andThen (if \<not> parsed
                                then send_and_close (''HTTP/1.1 400 Bad Request'' @ crlf @ crlf) True conn
                                else Inr (conn, [])) (\<lambda>(conn, fs).
                         if gotAll context then
                           andThen (HttpServer_onRequest httpCallback conn (ctx_request context)) (\<lambda>(conn, fs').
                             Inr (conn\<lparr>conn_context := Some (HttpContext_reset context)\<rparr>, fs @ fs'))
                         else Inr (conn, fs)))
         else Inr (conn, []))"

fun http_callbacks :: "http_callback \<Rightarrow> HttpContext callbacks" where
  "http_callbacks httpCallback ConnectionCallback conn = Inr (HttpServer_onConnection conn, [])"
| "http_callbacks httpCallback (MessageCallback now) conn = HttpServer_onMessage httpCallback now conn"
| "http_callbacks httpCallback k conn = Inr (conn, [])"

text \<open>
  The constructor makes the TCP server and binds its callbacks to the two functions above; the
  steps of the server are those of \<open>Tcp_Server\<close> with these callbacks.
\<close>

record HttpServer =
  http_tcp :: "HttpContext TcpServer"
  httpCallback :: http_callback

definition HttpServer_new :: "net_env \<Rightarrow> nat \<Rightarrow> nat \<Rightarrow> NetAddr \<Rightarrow> string \<Rightarrow> HttpServer" where
  "HttpServer_new env ptr loop listenAddr name =
     \<lparr>http_tcp = TcpServer_new env ptr loop listenAddr name, httpCallback = defaultHttpCallback\<rparr>"

definition HttpServer_getLoop :: "HttpServer \<Rightarrow> nat" where
  "HttpServer_getLoop S = TcpServer_getLoop (http_tcp S)"

definition HttpServer_setHttpCallback :: "http_callback \<Rightarrow> HttpServer \<Rightarrow> HttpServer" where
  "HttpServer_setHttpCallback cb S = S\<lparr>httpCallback := cb\<rparr>"

definition HttpServer_setThreadNum :: "int \<Rightarrow> HttpServer \<Rightarrow> HttpServer" where
  "HttpServer_setThreadNum n S = S\<lparr>http_tcp := TcpServer_setThreadNum n (http_tcp S)\<rparr>"

definition HttpServer_start :: "net_env \<Rightarrow> (nat \<Rightarrow> nat) \<Rightarrow> nat \<Rightarrow> HttpServer \<Rightarrow> HttpServer res" where
  "HttpServer_start env startLoop cur S =
     andThen (TcpServer_start env startLoop cur (http_tcp S)) (\<lambda>s. Inr (S\<lparr>http_tcp := s\<rparr>))"

text \<open>A run of a server, and the condition on what may happen in it.\<close>

definition http_run :: "net_env \<Rightarrow> server_op list \<Rightarrow> HttpServer \<Rightarrow> HttpContext TcpServer res" where
  "http_run env ops S = server_run env (http_callbacks (httpCallback S)) ops (http_tcp S)"

definition http_allowed :: "net_env \<Rightarrow> server_op list \<Rightarrow> HttpServer \<Rightarrow> bool" where
  "http_allowed env ops S \<longleftrightarrow> run_allowed env (http_callbacks (httpCallback S)) ops (http_tcp S)"

section \<open>The example server\<close>

text \<open>The clock and the bytes of the icon are arguments; the output to the console is left out.\<close>

definition main_onRequest :: "Timestamp \<Rightarrow> string \<Rightarrow> http_callback" where
  "main_onRequest now favicon req resp =
     (if req_path req = ''/'' then
        setBody (''<html><head><title>This is title</title></head>''
            @ ''<body><h1>Hello</h1>Now is '' @ Timestamp_toString now @ ''</body></html>'')
          (HttpResponse_addHeader ''Server'' ''Muduo'' (setContentType ''text/html''
            (setStatusMessage ''OK'' (setStatusCode k200Ok resp))))
      else if req_path req = ''/favicon.ico'' then
        setBody favicon (setContentType ''image/png'' (setStatusMessage ''OK'' (setStatusCode k200Ok resp)))
      else if req_path req = ''/hello'' then
        setBody (''hello, world!'' @ [LF])
          (HttpResponse_addHeader ''Server'' ''Muduo'' (setContentType ''text/plain''
            (setStatusMessage ''OK'' (setStatusCode k200Ok resp))))
      else
        setCloseConnection True (setStatusMessage ''Not Found'' (setStatusCode k404NotFound resp)))"

section \<open>What the callbacks keep\<close>

lemma send_in_loop:
  assumes "conn_inv C"
  obtains C' where "conn_send data C = Inr (C', [])" "conn_inv C'" "conn_key C' = conn_key C"
    "conn_loop C' = conn_loop C" "conn_state C' = conn_state C" "inBuffer C' = inBuffer C"
    "conn_context C' = conn_context C"
    "sent_log C' = sent_log C @ (if conn_state C = kConnected then data else [])"
proof (cases "conn_state C = kConnected")
  case True
  obtain C' where "TcpConnection_sendInLoop (conn_loop C) data C = Inr C'" "conn_inv C'"
    "conn_state C' = conn_state C" "conn_loop C' = conn_loop C" "inBuffer C' = inBuffer C"
    "conn_context C' = conn_context C" "sent_log C' = sent_log C @ data" "conn_key C' = conn_key C"
    using sendInLoop_inv [OF assms] by metis
  with True that show thesis by (simp add: conn_send_def TcpConnection_send_def queued_def)
next
  case False
  with assms that [of C] show thesis by (simp add: conn_send_def TcpConnection_send_def queued_def)
qed

lemma send_and_close_in_loop:
  assumes "conn_inv C"
  obtains C' where "send_and_close data close C =
      Inr (C', if close \<and> conn_state C = kConnected then [CloseConnectionInLoop] else [])"
    "conn_inv C'" "conn_key C' = conn_key C" "conn_loop C' = conn_loop C" "conn_state C' = conn_state C"
    "inBuffer C' = inBuffer C" "conn_context C' = conn_context C"
    "sent_log C' = sent_log C @ (if conn_state C = kConnected then data else [])"
proof -
  obtain C' where s: "conn_send data C = Inr (C', [])" "conn_inv C'" "conn_key C' = conn_key C"
    "conn_loop C' = conn_loop C" "conn_state C' = conn_state C" "inBuffer C' = inBuffer C"
    "conn_context C' = conn_context C"
    "sent_log C' = sent_log C @ (if conn_state C = kConnected then data else [])"
    by (rule send_in_loop [OF assms])
  have "conn_state C \<noteq> kConnecting" using assms by (simp add: conn_inv_def)
  then have "send_and_close data close C =
      Inr (C', if close \<and> conn_state C = kConnected then [CloseConnectionInLoop] else [])"
    using s(1,5) by (auto simp: send_and_close_def TcpConnection_closeConnection_def queued_def)
  with that s show thesis by blast
qed

lemma callback_ok_consume:
  "callback_ok F J (C\<lparr>inBuffer := b, conn_context := x\<rparr>) r = callback_ok F J C r"
  by (simp add: callback_ok_def split: sum.splits prod.splits)

text \<open>The faults of the HTTP callbacks, and the context they keep: an unfinished parser.\<close>

definition http_faults :: "fault set" where
  "http_faults = {AssertionFailed, OutOfBounds}"

definition http_context :: "HttpContext option \<Rightarrow> bool" where
  "http_context x \<longleftrightarrow> (case x of None \<Rightarrow> False | Some c \<Rightarrow> parser_running c)"

lemma http_context_Some [simp]: "http_context (Some c) = parser_running c"
  by (simp add: http_context_def)

lemma onRequest_ok:
  assumes "conn_inv C"
  obtains C' where "HttpServer_onRequest h C req = Inr (C', if resp_closeConnection (HttpServer_response h req)
      \<and> conn_state C = kConnected then [CloseConnectionInLoop] else [])"
    "conn_inv C'" "conn_key C' = conn_key C" "conn_loop C' = conn_loop C" "conn_state C' = conn_state C"
    "inBuffer C' = inBuffer C" "conn_context C' = conn_context C"
    "sent_log C' = sent_log C @ (if conn_state C = kConnected
       then contents (HttpResponse_appendToBuffer (HttpServer_response h req) (Buffer_new DEFAULTINITSIZE)) else [])"
  by (rule send_and_close_in_loop [OF assms,
        of "contents (HttpResponse_appendToBuffer (HttpServer_response h req) (Buffer_new DEFAULTINITSIZE))"
          "resp_closeConnection (HttpServer_response h req)"])
    (rule that, simp_all add: HttpServer_onRequest_def contents_eq_range [symmetric])

lemma reset_running [simp]: "parser_running (HttpContext_reset c)"
  by (simp add: parser_running_def HttpContext_reset_def)

text \<open>Once the parser has returned, \<open>onMessage\<close> does.\<close>

lemma onMessage_returns:
  assumes "conn_inv C" and "conn_context C = Some c"
    and "HttpContext_parseRequest c (inBuffer C) t = Some (Inr (parsed, c', buf'))" and "parser_running c' \<or> gotAll c'"
    and "0 \<le> Buffer_peek (inBuffer C) + Buffer_readbleBytes (inBuffer C) - 4"
    and "Buffer_range (inBuffer C) (Buffer_peek (inBuffer C) + Buffer_readbleBytes (inBuffer C) - 4)
      (Buffer_peek (inBuffer C) + Buffer_readbleBytes (inBuffer C) - 4 + 4) = crlf @ crlf"
  shows "callback_ok {} http_context C (HttpServer_onMessage h t C)"
proof -
  let ?C = "C\<lparr>inBuffer := buf', conn_context := Some c'\<rparr>"
  let ?bad = "''HTTP/1.1 400 Bad Request'' @ crlf @ crlf"
  have i: "conn_inv ?C" by (rule conn_inv_consume [OF assms(1)])
  obtain C1 where C1: "send_and_close ?bad True ?C = Inr (C1, if True \<and> conn_state ?C = kConnected then [CloseConnectionInLoop] else [])"
    "conn_inv C1" "conn_key C1 = conn_key ?C" "conn_loop C1 = conn_loop ?C" "conn_state C1 = conn_state ?C"
    "conn_context C1 = conn_context ?C"
    by (rule send_and_close_in_loop [OF i, of ?bad True])
  define r1 where "r1 = (if \<not> parsed then send_and_close ?bad True ?C else Inr (?C, []))"
  obtain D fs where D: "r1 = Inr (D, fs)" "conn_inv D" "conn_key D = conn_key C" "conn_loop D = conn_loop C"
    "conn_state D = conn_state C" "conn_context D = Some c'" "ConnectionDestroyed \<notin> set fs"
    using C1 i by (cases parsed) (auto simp: r1_def)
  have e: "HttpServer_onMessage h t C = andThen r1 (\<lambda>(conn, fs).
      if gotAll c' then andThen (HttpServer_onRequest h conn (ctx_request c')) (\<lambda>(conn, fs').
        Inr (conn\<lparr>conn_context := Some (HttpContext_reset c')\<rparr>, fs @ fs'))
      else Inr (conn, fs))"
    using assms(2,3,5,6) by (simp add: HttpServer_onMessage_def r1_def Let_def)
  show ?thesis
  proof (cases "gotAll c'")
    case False
    with assms(4) D show ?thesis by (simp add: e callback_ok_def)
  next
    case True
    obtain E fs' where E: "HttpServer_onRequest h D (ctx_request c') = Inr (E, fs')" "conn_inv E"
      "conn_key E = conn_key D" "conn_loop E = conn_loop D" "conn_state E = conn_state D"
      "ConnectionDestroyed \<notin> set fs'"
      by (rule onRequest_ok [OF D(2), of h "ctx_request c'"]) (auto split: if_splits)
    have "conn_inv (E\<lparr>inBuffer := inBuffer E, conn_context := Some (HttpContext_reset c')\<rparr>)"
      by (rule conn_inv_consume [OF E(2)])
    with True D E show ?thesis by (simp add: e callback_ok_def)
  qed
qed

text \<open>
  What a message can stop the program with: the read before the buffer, or an assertion of the parser.
\<close>

definition message_fault :: "HttpContext TcpConnection \<Rightarrow> Timestamp \<Rightarrow> fault \<Rightarrow> bool" where
  "message_fault C t e \<longleftrightarrow>
     e = OutOfBounds \<and> writeIndex (inBuffer C) < 4
   \<or> e = AssertionFailed
     \<and> (\<exists>c. conn_context C = Some c \<and> HttpContext_parseRequest c (inBuffer C) t = Some (Inl AssertionFailed))"

lemma onMessage_faults:
  assumes "conn_inv C" and "http_context (conn_context C)"
  shows "(\<exists>e. HttpServer_onMessage h t C = Inl e \<and> message_fault C t e)
    \<or> callback_ok {} http_context C (HttpServer_onMessage h t C)"
proof -
  let ?buf = "inBuffer C"
  let ?i = "Buffer_peek ?buf + Buffer_readbleBytes ?buf - 4"
  obtain c where c: "conn_context C = Some c" "parser_running c"
    using assms(2) by (auto simp: http_context_def split: option.splits)
  consider (out) "?i < 0" | (part) "\<not> ?i < 0" "Buffer_range ?buf ?i (?i + 4) \<noteq> crlf @ crlf"
    | (all) "\<not> ?i < 0" "Buffer_range ?buf ?i (?i + 4) = crlf @ crlf" by blast
  then show ?thesis
  proof cases
    case out
    then show ?thesis
      by (simp add: HttpServer_onMessage_def message_fault_def Buffer_peek_def Buffer_readbleBytes_def)
  next
    case part
    then show ?thesis
      using assms by (simp add: HttpServer_onMessage_def callback_ok_def Let_def)
  next
    case all
    consider "HttpContext_parseRequest c ?buf t = Some (Inl AssertionFailed)"
      | parsed c' buf' where "HttpContext_parseRequest c ?buf t = Some (Inr (parsed, c', buf'))"
        "parser_running c' \<or> gotAll c'"
      using parseRequest_ok [OF c(2), of ?buf t]
      by (cases "HttpContext_parseRequest c ?buf t" rule: parse_result_cases) (auto simp: parse_ok_def)
    then show ?thesis
    proof cases
      case 1
      then show ?thesis
        using all c(1) by (simp add: HttpServer_onMessage_def message_fault_def Let_def)
    next
      case 2
      with all onMessage_returns [OF assms(1) c(1) 2] show ?thesis by simp
    qed
  qed
qed

lemma onMessage_ok:
  assumes "conn_inv C" and "http_context (conn_context C)"
  shows "callback_ok http_faults http_context C (HttpServer_onMessage h t C)"
  using onMessage_faults [OF assms, of h t]
  by (auto simp: callback_ok_def http_faults_def message_fault_def split: sum.splits)

lemma onConnection_ok:
  assumes "conn_inv C" and "conn_state C = kConnected"
  shows "callback_ok F http_context C (Inr (HttpServer_onConnection C, []))"
proof -
  have "HttpServer_onConnection C = C\<lparr>inBuffer := inBuffer C, conn_context := Some HttpContext_new\<rparr>"
    using assms(2) by (simp add: HttpServer_onConnection_def establlished_def setContext_def)
  moreover have "conn_inv (C\<lparr>inBuffer := inBuffer C, conn_context := Some HttpContext_new\<rparr>)"
    by (rule conn_inv_consume [OF assms(1)])
  ultimately show ?thesis by (simp add: callback_ok_def parser_running_def HttpContext_new_def)
qed

interpretation http: connection_callbacks "http_callbacks h" http_faults http_context
proof
  fix C :: "HttpContext TcpConnection" and k
  assume i: "conn_inv C" and c: "callable http_context k C"
  show "callback_ok http_faults http_context C (http_callbacks h k C)"
  proof (cases k)
    case ConnectionCallback
    with c onConnection_ok [OF i] show ?thesis by (simp add: callable_def)
  next
    case (MessageCallback now)
    with c i onMessage_ok [OF i] show ?thesis by (simp add: callable_def)
  qed (use c in \<open>simp_all add: callable_def\<close>)
qed

text \<open>So every run of a server keeps the invariant of its connections and their contexts.\<close>

lemma http_run_ok:
  assumes "HttpServer_start env startLoop base
      (HttpServer_setThreadNum n (HttpServer_setHttpCallback h (HttpServer_new env ptr base addr name))) = Inr S"
    and "http_allowed env ops S"
  shows "server_ok (insert IntegerOverflow http_faults) http_context (http_run env ops S)"
proof -
  have s: "TcpServer_start env startLoop base (TcpServer_setThreadNum n (TcpServer_new env ptr base addr name)) = Inr (http_tcp S)"
    using assms(1) by (auto simp: HttpServer_start_def HttpServer_setThreadNum_def HttpServer_setHttpCallback_def
        HttpServer_new_def andThen_eq_Inr)
  show ?thesis
    unfolding http_run_def
    by (rule http.server_run_ok [OF start_inv [OF s] assms(2) [unfolded http_allowed_def] start_contexts [OF s]])
qed

section \<open>Where a run can stop\<close>

text \<open>
  Only a handler of reads calls the message callback. So a step that does not read cannot tell the
  callbacks from those that ignore every message, and these never fault.
\<close>

definition ignoring_messages :: "HttpContext callbacks \<Rightarrow> HttpContext callbacks" where
  "ignoring_messages cb k C = (case k of MessageCallback now \<Rightarrow> Inr (C, []) | _ \<Rightarrow> cb k C)"

lemma ignoring_messages_simps [simp]:
  "ignoring_messages cb ConnectionCallback = cb ConnectionCallback"
  "ignoring_messages cb (MessageCallback now) = (\<lambda>C. Inr (C, []))"
  by (rule ext, simp add: ignoring_messages_def)+

definition no_message :: "effect list \<Rightarrow> bool" where
  "no_message es \<longleftrightarrow> (\<forall>now. Call (MessageCallback now) \<notin> set es)"

lemma no_message_simps [simp]:
  "no_message []" "no_message (e # es) \<longleftrightarrow> (\<forall>now. e \<noteq> Call (MessageCallback now)) \<and> no_message es"
  by (auto simp: no_message_def)

lemma do_effects_ignoring: "no_message es \<Longrightarrow> do_effects (ignoring_messages cb) cur c es s = do_effects cb cur c es s"
proof (induction es arbitrary: s)
  case (Cons e es)
  have "do_effect (ignoring_messages cb) cur c e s = do_effect cb cur c e s"
  proof (cases e)
    case (Call k)
    with Cons.prems show ?thesis by (cases k) (simp_all split: option.split)
  qed simp
  with Cons show ?case by (cases "do_effect cb cur c e s") simp_all
qed simp

lemma on_conn_ignoring:
  assumes "\<And>C r. conns s c = Some C \<Longrightarrow> f C = Inr r \<Longrightarrow> no_message (snd r)"
  shows "on_conn (ignoring_messages cb) cur c f s = on_conn cb cur c f s"
proof (cases "conns s c")
  case (Some C)
  show ?thesis
  proof (cases "f C")
    case (Inr r)
    with assms [OF Some Inr] Some show ?thesis by (cases r) (simp add: on_conn_def do_effects_ignoring)
  qed (use Some in \<open>simp add: on_conn_def\<close>)
qed (simp add: on_conn_def)

lemma handleClose_no_message: "TcpConnection_handleClose cur C = Inr r \<Longrightarrow> no_message (snd r)"
  by (auto simp: TcpConnection_handleClose_def assertInLoopThread_def assert_that_def Let_def split: if_splits)

lemma handleWrite_no_message: "TcpConnection_handleWrite cur C = Inr r \<Longrightarrow> no_message (snd r)"
  by (auto simp: TcpConnection_handleWrite_def assertInLoopThread_def assert_that_def Let_def split: if_splits prod.splits
      intro: handleClose_no_message)

lemma conn_functor_no_message: "run_conn_functor cur f C = Inr r \<Longrightarrow> no_message (snd r)"
  by (cases f) (auto simp: TcpConnection_closeConnectionInLoop_def assertInLoopThread_def assert_that_def andThen_eq_Inr
      split: if_splits intro: handleClose_no_message)

lemma handler_no_message:
  assumes "run_handler cur r now h C = Inr p" and "h = HandleRead \<longrightarrow> fst (Buffer_readFd r (inBuffer C)) \<le> 0"
  shows "no_message (snd p)"
proof (cases h)
  case HandleRead
  with assms show ?thesis
    by (auto simp: TcpConnection_handleRead_def Let_def split: prod.splits if_splits intro: handleClose_no_message)
qed (use assms in \<open>auto simp: TcpConnection_handleHup_def intro: handleClose_no_message handleWrite_no_message\<close>)

definition reads_message :: "server_op \<Rightarrow> 'x TcpServer \<Rightarrow> bool" where
  "reads_message op s \<longleftrightarrow> (\<exists>c r now C. op = Event c HandleRead r now \<and> conns s c = Some C
     \<and> 0 < fst (Buffer_readFd r (inBuffer C)))"

lemma step_ignoring:
  assumes "\<not> reads_message op s"
  shows "server_step env (ignoring_messages cb) op s = server_step env cb op s"
proof (cases op)
  case (Accept r writes)
  have e: "on_conn (ignoring_messages cb) cur c (\<lambda>C. Inr (TcpConnection_connectionEstablish C))
      = on_conn cb cur c (\<lambda>C. Inr (TcpConnection_connectionEstablish C))" for cur c
    by (rule ext, rule on_conn_ignoring) (auto simp: TcpConnection_connectionEstablish_def Let_def)
  show ?thesis unfolding Accept server_step.simps Acceptor_handleRead_def TcpServer_newConnetion_def e ..
next
  case (Event c h r now)
  have "on_conn (ignoring_messages cb) cur c (run_handler cur r now h) s = on_conn cb cur c (run_handler cur r now h) s" for cur
    by (rule on_conn_ignoring, rule handler_no_message) (use assms in \<open>auto simp: Event reads_message_def not_less\<close>)
  then show ?thesis by (simp add: Event split: option.split)
next
  case (RunFunctor l)
  have "run_functor (ignoring_messages cb) l f t = run_functor cb l f t" for f t
    by (cases f) (simp_all add: on_conn_ignoring [OF conn_functor_no_message])
  then show ?thesis by (simp add: RunFunctor split: list.split)
next
  case (CallSend cur c data)
  have "on_conn (ignoring_messages cb) cur c (TcpConnection_send cur data) s = on_conn cb cur c (TcpConnection_send cur data) s"
    by (rule on_conn_ignoring) (auto simp: TcpConnection_send_def andThen_eq_Inr split: if_splits)
  then show ?thesis by (simp add: CallSend)
next
  case (CallClose cur c)
  have "on_conn (ignoring_messages cb) cur c (\<lambda>C. Inr (TcpConnection_closeConnection C)) s
      = on_conn cb cur c (\<lambda>C. Inr (TcpConnection_closeConnection C)) s"
    by (rule on_conn_ignoring) (auto simp: TcpConnection_closeConnection_def split: if_splits)
  then show ?thesis by (simp add: CallClose)
qed

interpretation ignoring: connection_callbacks "ignoring_messages (http_callbacks h)" "{}" http_context
proof
  fix C :: "HttpContext TcpConnection" and k
  assume i: "conn_inv C" and c: "callable http_context k C"
  show "callback_ok {} http_context C (ignoring_messages (http_callbacks h) k C)"
    using c i onConnection_ok [OF i]
    by (cases k) (simp_all add: ignoring_messages_def callable_def callback_ok_def)
qed

text \<open>A step of the server that faults accepts a connection too many, or reads a message that stops the parser.\<close>

lemma http_step_fault:
  assumes "server_inv (\<lambda>_. 0) s" and "contexts_ok http_context {} s" and "op_allowed op s"
    and "server_step env (http_callbacks h) op s = Inl e"
  shows "(\<exists>r writes. op = Accept r writes \<and> e = IntegerOverflow \<and> 2 ^ 31 - 1 \<le> next_conn s)
    \<or> (\<exists>c r now C. op = Event c HandleRead r now \<and> conns s c = Some C \<and> http_context (conn_context C)
        \<and> message_fault (C\<lparr>inBuffer := snd (snd (Buffer_readFd r (inBuffer C)))\<rparr>) now e)"
proof (cases "reads_message op s")
  case True
  then obtain c r now C where op: "op = Event c HandleRead r now" "conns s c = Some C" "0 < fst (Buffer_readFd r (inBuffer C))"
    unfolding reads_message_def by blast
  obtain n err b where b: "Buffer_readFd r (inBuffer C) = (n, err, b)" by (cases "Buffer_readFd r (inBuffer C)")
  let ?C = "C\<lparr>inBuffer := b\<rparr>"
  have i: "conn_inv ?C" by (rule conn_inv_inBuffer) (rule inv_conn(1) [OF assms(1) op(2)])
  have x: "http_context (conn_context C)" using assms(2) op(2) by (simp add: contexts_ok_def)
  have "TcpConnection_handleRead (conn_loop C) r now C = Inr (?C, [Call (MessageCallback now)])"
    using op(3) b by (simp add: TcpConnection_handleRead_def)
  then have "HttpServer_onMessage h now ?C = Inl e"
    using assms(4) op(1,2) by (auto simp: on_conn_def andThen_def split: if_splits sum.splits)
  with onMessage_faults [OF i, of h now] x have "message_fault ?C now e" by (auto simp: callback_ok_def)
  with op(1,2) b x show ?thesis by auto
next
  case False
  note f = assms(4) [folded step_ignoring [OF False, of env "http_callbacks h"]]
  show ?thesis
  proof (cases "\<exists>r writes. op = Accept r writes")
    case True
    then obtain r writes where op: "op = Accept r writes" by blast
    with ignoring.accept_ok [OF assms(1) _ assms(2), of r writes env h] assms(3) f show ?thesis
      by (cases "next_conn s < 2 ^ 31 - 1") (auto simp del: server_step.simps)
  next
    case False
    with ignoring.other_step_ok [OF assms(1,3,2), of env h] f show ?thesis by simp
  qed
qed

section \<open>Messages\<close>

text \<open>The last four bytes of the unread ones are what the test looks at.\<close>

lemma last_four:
  assumes "Buffer_inv b" and "contents b = p @ crlf @ crlf"
  shows "\<not> Buffer_peek b + Buffer_readbleBytes b - 4 < 0"
    "Buffer_range b (Buffer_peek b + Buffer_readbleBytes b - 4) (Buffer_peek b + Buffer_readbleBytes b - 4 + 4) = crlf @ crlf"
proof -
  have n: "Buffer_readbleBytes b = int (length p) + 4"
    using contents_readble [OF assms(1)] assms(2) by (simp add: crlf_def)
  have r: "0 \<le> readIndex b" using assms(1) by (simp add: Buffer_inv_def)
  with n show "\<not> Buffer_peek b + Buffer_readbleBytes b - 4 < 0" by (simp add: Buffer_peek_def)
  have "Rabbit_Prelude.slice (nat (readIndex b)) (nat (writeIndex b)) (elems (buffer b)) = p @ crlf @ crlf"
    using assms(2) by (simp add: contents_def Buffer_range_def)
  then have "drop (length p) (Rabbit_Prelude.slice (nat (readIndex b)) (nat (writeIndex b)) (elems (buffer b))) = crlf @ crlf"
    by simp
  then have d: "Rabbit_Prelude.slice (nat (readIndex b) + length p) (nat (writeIndex b)) (elems (buffer b)) = crlf @ crlf"
    by (simp add: drop_slice)
  have "Buffer_peek b + Buffer_readbleBytes b - 4 = int (nat (readIndex b) + length p)"
    using n r by (simp add: Buffer_peek_def)
  moreover have "Buffer_peek b + Buffer_readbleBytes b - 4 + 4 = writeIndex b"
    by (simp add: Buffer_peek_def Buffer_readbleBytes_def)
  ultimately show "Buffer_range b (Buffer_peek b + Buffer_readbleBytes b - 4) (Buffer_peek b + Buffer_readbleBytes b - 4 + 4) = crlf @ crlf"
    using d unfolding Buffer_range_def by (simp only: nat_int)
qed

lemma render_request_end: "\<exists>p. render_request m target v hs = p @ crlf @ crlf"
proof (cases hs rule: rev_cases)
  case Nil
  then show ?thesis by (simp add: render_request_def)
next
  case (snoc ys kv)
  then have "render_request m target v hs =
     ((methodString m @ SP # target @ SP # ''HTTP/1.'' @ [version_digit v]) @ crlf
     @ concat (map render_header ys) @ fst kv @ '': '' @ snd kv) @ crlf @ crlf"
    by (simp add: render_request_def render_header_def)
  then show ?thesis by blast
qed

definition complete :: "string \<Rightarrow> bool" where
  "complete s \<longleftrightarrow> (\<exists>p. s = p @ crlf @ crlf)"

lemma onMessage_complete:
  assumes "Buffer_inv (inBuffer C)" and "complete (contents (inBuffer C))" and "conn_context C = Some c"
    and "HttpContext_parseRequest c (inBuffer C) t = Some (Inr (parsed, c', b))"
  shows "HttpServer_onMessage h t C =
    andThen (if \<not> parsed then send_and_close (''HTTP/1.1 400 Bad Request'' @ crlf @ crlf) True
                 (C\<lparr>inBuffer := b, conn_context := Some c'\<rparr>)
             else Inr (C\<lparr>inBuffer := b, conn_context := Some c'\<rparr>, [])) (\<lambda>(conn, fs).
      if gotAll c' then
        andThen (HttpServer_onRequest h conn (ctx_request c')) (\<lambda>(conn, fs').
          Inr (conn\<lparr>conn_context := Some (HttpContext_reset c')\<rparr>, fs @ fs'))
      else Inr (conn, fs))"
proof -
  obtain p where "contents (inBuffer C) = p @ crlf @ crlf" using assms(2) by (auto simp: complete_def)
  note l = last_four [OF assms(1) this]
  show ?thesis
    using l assms(3,4) by (simp add: HttpServer_onMessage_def Let_def)
qed

lemma answers_request:
  assumes "conn_inv C" and "conn_state C = kConnected" and "conn_context C = Some (HttpContext_reset c)"
    and "Buffer_inv (inBuffer C)" and "contents (inBuffer C) = render_request m target v hs @ rest"
    and "rest = [] \<or> complete rest"
    and "m \<noteq> kInvalid" and "SP \<notin> set target" and "CR \<notin> set target"
    and "v = kHttp10 \<or> v = kHttp11" and "list_all header_ok hs"
  obtains C' c' where "HttpServer_onMessage h t C =
      Inr (C', if resp_closeConnection (HttpServer_response h (rendered_request m target v hs t)) then [CloseConnectionInLoop] else [])"
    "sent_log C' = sent_log C
      @ contents (HttpResponse_appendToBuffer (HttpServer_response h (rendered_request m target v hs t)) (Buffer_new DEFAULTINITSIZE))"
    "contents (inBuffer C') = rest" "conn_context C' = Some (HttpContext_reset c')"
    "conn_state C' = kConnected" "conn_inv C'" "Buffer_inv (inBuffer C')" "buf_drained (inBuffer C) (inBuffer C')"
proof -
  let ?r = "rendered_request m target v hs t"
  let ?c' = "\<lparr>ctx_state = kGotAll, ctx_request = ?r\<rparr>"
  have "abs_result (HttpContext_parseRequest (HttpContext_reset c) (inBuffer C) t) = Some (Inr (True, ?c', rest))"
    unfolding parseRequest_refines [OF assms(4)] assms(5) using assms(7-11) by (rule parse_bytes_render)
  then obtain b where b: "HttpContext_parseRequest (HttpContext_reset c) (inBuffer C) t = Some (Inr (True, ?c', b))"
    "contents b = rest"
    by (auto simp: abs_result_eq)
  have "complete (contents (inBuffer C))"
    using assms(6) render_request_end [of m target v hs] unfolding assms(5) complete_def by (metis append.assoc append_Nil2)
  note m = onMessage_complete [OF assms(4) this assms(3) b(1), of h]
  let ?C = "C\<lparr>inBuffer := b, conn_context := Some ?c'\<rparr>"
  have i: "conn_inv ?C" by (rule conn_inv_consume [OF assms(1)])
  obtain D where D: "HttpServer_onRequest h ?C ?r = Inr (D, if resp_closeConnection (HttpServer_response h ?r)
      \<and> conn_state ?C = kConnected then [CloseConnectionInLoop] else [])"
    "conn_inv D" "conn_state D = conn_state ?C" "inBuffer D = inBuffer ?C"
    "sent_log D = sent_log ?C @ (if conn_state ?C = kConnected
       then contents (HttpResponse_appendToBuffer (HttpServer_response h ?r) (Buffer_new DEFAULTINITSIZE)) else [])"
    by (rule onRequest_ok [OF i])
  have "conn_inv (D\<lparr>inBuffer := inBuffer D, conn_context := Some (HttpContext_reset ?c')\<rparr>)"
    by (rule conn_inv_consume [OF D(2)])
  then have "conn_inv (D\<lparr>conn_context := Some (HttpContext_reset ?c')\<rparr>)" by simp
  with parseRequest_inv [OF assms(4) b(1)] parseRequest_drained [OF b(1)] m D assms(2) b(2) that [of "D\<lparr>conn_context := Some (HttpContext_reset ?c')\<rparr>" ?c'] show thesis
    by (simp add: gotAll_def)
qed

text \<open>What a request that was parsed from a rendered one is.\<close>

lemma rendered_request_parts:
  "req_method (rendered_request m target v hs t) = m" "req_version (rendered_request m target v hs t) = v"
  "req_path (rendered_request m target v hs t) @ req_query (rendered_request m target v hs t) = target"
  "CHR ''?'' \<notin> set (req_path (rendered_request m target v hs t))"
  "req_query (rendered_request m target v hs t) = [] \<or> hd (req_query (rendered_request m target v hs t)) = CHR ''?''"
  "map_find (req_headers (rendered_request m target v hs t)) k = map_of (rev hs) k"
  using hd_dropWhile [of "\<lambda>x. x \<noteq> CHR ''?''" target]
  by (auto simp: rendered_request_def smap.fold_find smap.valid_empty dest: set_takeWhileD)

section \<open>Properties\<close>

text \<open>
  C2. The server answers. When the unread bytes of an established connection are a well-formed
  request, followed by nothing or by further complete messages, the message callback sends
  exactly the serialised response of the user's handler to exactly that request, asks to close the
  connection if the response says so, and leaves the parser fresh and the connection established.
  The bytes of a second request that came along stay unread: the callback does not look at them,
  and they are answered only when the peer sends still more.
\<close>

theorem HttpServer_answers_request:
  assumes "conn_inv C" and "conn_state C = kConnected" and "conn_context C = Some (HttpContext_reset c)"
    and "Buffer_inv (inBuffer C)" and "contents (inBuffer C) = render_request m target v hs @ rest"
    and "rest = [] \<or> complete rest"
    and "m \<noteq> kInvalid" and "SP \<notin> set target" and "CR \<notin> set target"
    and "v = kHttp10 \<or> v = kHttp11" and "list_all header_ok hs"
  shows "\<exists>r C' c'. HttpServer_onMessage h t C =
      Inr (C', if resp_closeConnection (HttpServer_response h r) then [CloseConnectionInLoop] else [])
    \<and> req_method r = m \<and> req_version r = v \<and> req_path r @ req_query r = target
    \<and> CHR ''?'' \<notin> set (req_path r) \<and> (req_query r = [] \<or> hd (req_query r) = CHR ''?'')
    \<and> (\<forall>k. map_find (req_headers r) k = map_of (rev hs) k)
    \<and> sent_log C' = sent_log C
        @ contents (HttpResponse_appendToBuffer (HttpServer_response h r) (Buffer_new DEFAULTINITSIZE))
    \<and> contents (inBuffer C') = rest \<and> conn_context C' = Some (HttpContext_reset c')
    \<and> conn_state C' = kConnected \<and> conn_inv C'"
proof -
  let ?r = "rendered_request m target v hs t"
  obtain C' c' where a: "HttpServer_onMessage h t C =
      Inr (C', if resp_closeConnection (HttpServer_response h ?r) then [CloseConnectionInLoop] else [])"
    "sent_log C' = sent_log C @ contents (HttpResponse_appendToBuffer (HttpServer_response h ?r) (Buffer_new DEFAULTINITSIZE))"
    "contents (inBuffer C') = rest" "conn_context C' = Some (HttpContext_reset c')"
    "conn_state C' = kConnected" "conn_inv C'"
    by (rule answers_request [OF assms])
  show ?thesis
    by (rule exI [of _ ?r], rule exI [of _ C'], rule exI [of _ c'])
      (use a in \<open>simp add: rendered_request_parts\<close>)
qed

text \<open>\<open>GET /hello\<close> on a fresh connection of the example server: what the client can read back.\<close>

definition sample_http_conn :: "string \<Rightarrow> HttpContext TcpConnection" where
  "sample_http_conn input = (established 4 1 ''dummy#0'' 7 no_addr no_addr [Wrote 1000])
     \<lparr>inBuffer := Buffer_append input (Buffer_new 0), conn_context := Some HttpContext_new\<rparr>"

lemma sample_http_conn_simps:
  "conn_inv (sample_http_conn s)" "conn_state (sample_http_conn s) = kConnected"
  "conn_context (sample_http_conn s) = Some (HttpContext_reset HttpContext_new)"
  "Buffer_inv (inBuffer (sample_http_conn s))" "sent_log (sample_http_conn s) = []"
  "length s \<le> 1024 \<Longrightarrow> contents (inBuffer (sample_http_conn s)) = s"
  by (simp_all add: sample_http_conn_def conn_inv_consume established_inv established_simps
      append_fitting(1) new_fits HttpContext_new_def HttpContext_reset_def HttpRequest_swap_def HttpRequest_new_def)

lemma sample_response:
  assumes "req_path r = ''/hello''"
  shows "read_response (contents (HttpResponse_appendToBuffer (main_onRequest now icon r (HttpResponse_new False))
        (Buffer_new DEFAULTINITSIZE)))
    = Some (''HTTP/1.1 200 OK'', [(''Content-Length'', ''14''), (''Connection'', ''Keep-Alive''),
        (''Content-Type'', ''text/plain''), (''Server'', ''Muduo'')], ''hello, world!'' @ [LF])"
proof -
  let ?r = "main_onRequest now icon r (HttpResponse_new False)"
  have d: "show_nat 14 = ''14''" "show_nat (Suc (Suc (Suc (Suc (Suc (Suc (Suc (Suc (Suc (Suc (Suc (Suc (Suc (Suc 0)))))))))))))) = ''14''" "show_nat 200 = ''200''"
    by code_simp+
  have r: "resp_body ?r = ''hello, world!'' @ [LF]" "resp_statusMessage ?r = ''OK''"
      "resp_headers ?r = [(''Content-Type'', ''text/plain''), (''Server'', ''Muduo'')]"
      "resp_statusCode ?r = k200Ok" "\<not> resp_closeConnection ?r"
    by (simp_all add: main_onRequest_def assms setBody_def setContentType_def setStatusMessage_def setStatusCode_def
        HttpResponse_new_def HttpResponse_addHeader_def less_char_def)
  have h: "length (response_head ?r) \<le> 1024"
    using response_head_fields [of ?r]
    by (simp add: r response_fields_def status_text_def status_value_def show_int_def d render_header_def)
  have "contents (HttpResponse_appendToBuffer ?r (Buffer_new DEFAULTINITSIZE)) = response_head ?r @ resp_body ?r"
    using appendToBuffer_contents [of "Buffer_new DEFAULTINITSIZE" ?r] h by (simp add: new_fits)
  then show ?thesis
    using read_response_head [of ?r "resp_body ?r"]
    by (simp add: r field_ok_def status_text_def response_fields_def status_value_def show_int_def d)
qed

lemma sample_hello:
  assumes "req_version r = kHttp11" and "map_find (req_headers r) ''Connection'' = None"
    and "req_path r @ req_query r = ''/hello''" and "CHR ''?'' \<notin> set (req_path r)"
    and "req_query r = [] \<or> hd (req_query r) = CHR ''?''"
  shows "\<not> resp_closeConnection (HttpServer_response (main_onRequest now icon) r)"
    and "read_response (contents (HttpResponse_appendToBuffer (HttpServer_response (main_onRequest now icon) r)
        (Buffer_new DEFAULTINITSIZE)))
    = Some (''HTTP/1.1 200 OK'', [(''Content-Length'', ''14''), (''Connection'', ''Keep-Alive''),
        (''Content-Type'', ''text/plain''), (''Server'', ''Muduo'')], ''hello, world!'' @ [LF])"
proof -
  have "req_query r = []"
  proof (rule ccontr)
    assume "req_query r \<noteq> []"
    with assms(5) have "CHR ''?'' \<in> set (req_path r @ req_query r)" by (cases "req_query r") auto
    then show False by (simp add: assms(3))
  qed
  with assms(3) have p: "req_path r = ''/hello''" by simp
  have resp: "HttpServer_response (main_onRequest now icon) r = main_onRequest now icon r (HttpResponse_new False)"
    using assms(1,2) by (simp add: HttpServer_response_def getHeader_def)
  then show "\<not> resp_closeConnection (HttpServer_response (main_onRequest now icon) r)"
    by (simp add: main_onRequest_def p setBody_def setContentType_def setStatusMessage_def setStatusCode_def
        HttpResponse_new_def HttpResponse_addHeader_def)
  show "read_response (contents (HttpResponse_appendToBuffer (HttpServer_response (main_onRequest now icon) r)
        (Buffer_new DEFAULTINITSIZE)))
    = Some (''HTTP/1.1 200 OK'', [(''Content-Length'', ''14''), (''Connection'', ''Keep-Alive''),
        (''Content-Type'', ''text/plain''), (''Server'', ''Muduo'')], ''hello, world!'' @ [LF])"
    unfolding resp by (rule sample_response [OF p])
qed

theorem HttpServer_answers_request_witness:
  "\<exists>C'. HttpServer_onMessage (main_onRequest (Timestamp 0) []) (Timestamp 5)
      (sample_http_conn (render_request kGet ''/hello'' kHttp11 [(''Host'', ''h'')])) = Inr (C', [])
    \<and> read_response (sent_log C')
      = Some (''HTTP/1.1 200 OK'', [(''Content-Length'', ''14''), (''Connection'', ''Keep-Alive''),
          (''Content-Type'', ''text/plain''), (''Server'', ''Muduo'')], ''hello, world!'' @ [LF])"
proof -
  let ?h = "main_onRequest (Timestamp 0) []" and ?s = "render_request kGet ''/hello'' kHttp11 [(''Host'', ''h'')]"
  let ?C = "sample_http_conn ?s"
  have c: "contents (inBuffer ?C) = ?s @ []"
    by (simp add: sample_http_conn_simps render_request_def render_header_def methodString_def crlf_def)
  obtain r C' c' where r: "HttpServer_onMessage ?h (Timestamp 5) ?C =
      Inr (C', if resp_closeConnection (HttpServer_response ?h r) then [CloseConnectionInLoop] else [])"
    "req_version r = kHttp11" "req_path r @ req_query r = ''/hello''" "CHR ''?'' \<notin> set (req_path r)"
    "req_query r = [] \<or> hd (req_query r) = CHR ''?''"
    "\<forall>k. map_find (req_headers r) k = map_of (rev [(''Host'', ''h'')]) k"
    "sent_log C' = sent_log ?C @ contents (HttpResponse_appendToBuffer (HttpServer_response ?h r) (Buffer_new DEFAULTINITSIZE))"
    using HttpServer_answers_request [OF sample_http_conn_simps(1-4) c, of ?h "Timestamp 5"]
    by (auto simp: header_ok_def isspace_def)
  have n: "map_find (req_headers r) ''Connection'' = None" using r(6) by simp
  note hello = sample_hello [OF r(2) n r(3-5), of "Timestamp 0" "[]"]
  with r(1,7) sample_http_conn_simps(5) show ?thesis by simp
qed

text \<open>A line that begins with a method the server knows and a space.\<close>

definition known_method :: "string \<Rightarrow> bool" where
  "known_method line \<longleftrightarrow> take (std_find SP line) line \<in> {''GET'', ''POST'', ''HEAD'', ''PUT'', ''DELETE''} \<and> SP \<in> set line"

lemma setMethod_known:
  assumes "req_method r = kInvalid"
  shows "m \<in> {''GET'', ''POST'', ''HEAD'', ''PUT'', ''DELETE''} \<Longrightarrow> \<exists>r'. setMethod m r = Inr (True, r') \<and> req_method r' \<noteq> kInvalid"
    "m \<notin> {''GET'', ''POST'', ''HEAD'', ''PUT'', ''DELETE''} \<Longrightarrow> setMethod m r = Inr (False, r)"
proof -
  show "m \<in> {''GET'', ''POST'', ''HEAD'', ''PUT'', ''DELETE''} \<Longrightarrow> \<exists>r'. setMethod m r = Inr (True, r') \<and> req_method r' \<noteq> kInvalid"
    using assms by (auto simp: setMethod_def)
  have "r\<lparr>req_method := kInvalid\<rparr> = r" using assms by (cases r) simp
  then show "m \<notin> {''GET'', ''POST'', ''HEAD'', ''PUT'', ''DELETE''} \<Longrightarrow> setMethod m r = Inr (False, r)"
    using assms by (simp add: setMethod_def)
qed

lemma rejected_line:
  assumes "HttpContext_processRequestLine line c = Inr (False, c')" and "req_method (ctx_request c) = kInvalid"
  shows "known_method line \<Longrightarrow> req_method (ctx_request c') \<noteq> kInvalid" "\<not> known_method line \<Longrightarrow> c' = c"
proof -
  let ?k = "std_find SP line"
  have n: "SP \<in> set line \<longleftrightarrow> ?k \<noteq> length line" by (simp add: std_find_eq_length)
  show "req_method (ctx_request c') \<noteq> kInvalid" if k: "known_method line"
  proof -
    obtain r where r: "setMethod (take ?k line) (ctx_request c) = Inr (True, r)" "req_method r \<noteq> kInvalid"
      using k setMethod_known(1) [OF assms(2), of "take ?k line"] unfolding known_method_def by blast
    have "?k \<noteq> length line" using k n by (simp add: known_method_def)
    have m: "req_method (setPath p r') = req_method r'" "req_method (setQuery p r') = req_method r'"
      "req_method (setVersion v r') = req_method r'" for p v r'
      by (simp_all add: setPath_def setQuery_def setVersion_def)
    show ?thesis
      using assms(1) r(2) \<open>?k \<noteq> length line\<close>
      unfolding HttpContext_processRequestLine_def Let_def r(1)
      by (simp only: andThen_Inr prod.case if_True not_False_eq_True simp_thms sum.inject prod.inject sum.simps split: if_split_asm)
        (auto simp only: with_request_simps m)
  qed
  show "c' = c" if "\<not> known_method line"
  proof (cases "SP \<in> set line")
    case True
    with that setMethod_known(2) [OF assms(2)] have "setMethod (take ?k line) (ctx_request c) = Inr (False, ctx_request c)"
      unfolding known_method_def by blast
    then have "with_request c (ctx_request c) = c'" using assms(1) True n by (simp add: HttpContext_processRequestLine_def)
    moreover have "with_request c (ctx_request c) = c" by (cases c) (simp add: with_request_def)
    ultimately show ?thesis by (rule trans [OF sym])
  next
    case False
    with assms(1) n show ?thesis by (simp add: HttpContext_processRequestLine_def)
  qed
qed

lemma onMessage_aborts:
  assumes "Buffer_inv (inBuffer D)" and "complete (contents (inBuffer D))" and "conn_context D = Some c"
    and "HttpContext_parseRequest c (inBuffer D) t = Some (Inl AssertionFailed)"
  shows "HttpServer_onMessage h t D = Inl AssertionFailed"
proof -
  obtain p where p: "contents (inBuffer D) = p @ crlf @ crlf" using assms(2) unfolding complete_def by blast
  show ?thesis using last_four [OF assms(1) p] assms(3,4) by (simp add: HttpServer_onMessage_def Let_def)
qed

lemma bad_request_answer:
  assumes "conn_inv C" and "conn_context C = Some c" and "ctx_state c = kExpectRequestLine"
    and "Buffer_inv (inBuffer C)" and "contents (inBuffer C) = line @ crlf @ tail" and "CR \<notin> set line"
    and "complete (contents (inBuffer C))" and "HttpContext_processRequestLine line c = Inr (False, c')"
  obtains C' b where "HttpServer_onMessage h t C = Inr (C', if conn_state C = kConnected then [CloseConnectionInLoop] else [])"
    "sent_log C' = sent_log C @ (if conn_state C = kConnected then ''HTTP/1.1 400 Bad Request'' @ crlf @ crlf else [])"
    "HttpContext_parseRequest c (inBuffer C) t = Some (Inr (False, c', b))"
    "inBuffer C' = b" "contents b = contents (inBuffer C)" "Buffer_inv b" "conn_context C' = Some c'"
proof -
  have "split_line (contents (inBuffer C)) = Some (line, tail)"
    using split_line_line [OF assms(6), of tail] assms(5) by (simp add: crlf_Cons)
  then have "abs_result (HttpContext_parseRequest c (inBuffer C) t) = Some (Inr (False, c', contents (inBuffer C)))"
    unfolding parseRequest_refines [OF assms(4)] by (simp add: parse_bytes_def assms(3,8))
  then obtain b where b: "HttpContext_parseRequest c (inBuffer C) t = Some (Inr (False, c', b))"
    "contents b = contents (inBuffer C)"
    by (auto simp: abs_result_eq)
  have n: "\<not> gotAll c'"
    using processRequestLine_state [OF assms(8)] assms(3) by (simp add: gotAll_def)
  let ?C = "C\<lparr>inBuffer := b, conn_context := Some c'\<rparr>" and ?bad = "''HTTP/1.1 400 Bad Request'' @ crlf @ crlf"
  obtain C' where C': "send_and_close ?bad True ?C = Inr (C', if True \<and> conn_state ?C = kConnected then [CloseConnectionInLoop] else [])"
    "inBuffer C' = inBuffer ?C" "conn_context C' = conn_context ?C"
    "sent_log C' = sent_log ?C @ (if conn_state ?C = kConnected then ?bad else [])"
    by (rule send_and_close_in_loop [OF conn_inv_consume [OF assms(1)], of ?bad True])
  have "HttpServer_onMessage h t C = Inr (C', if conn_state C = kConnected then [CloseConnectionInLoop] else [])"
    using onMessage_complete [OF assms(4,7,2) b(1), of h] C'(1) n by simp
  then show thesis
    by (rule that [of C' b]) (use C' b parseRequest_inv [OF assms(4) b(1)] in simp_all)
qed

text \<open>
  C34. A malformed request line (no CR in it) where the parser expects one and has no method yet, on an established
  connection, in a read that ends in an empty line: the server sends the 400 response, asks to close the connection
  and leaves the line unread. But the connection stays open until the response has been written. If
  the line began with a method the server knows, that method stays set, and a further message (a read
  that ends in an empty line again) that arrives before the close aborts the server:
  parsing the line again fails the assertion of \<open>setMethod\<close>.
  For a line with an unknown method, or without a space, the further message is answered like the first, with
  400 as long as the connection is established.
\<close>

theorem HttpServer_bad_request:
  assumes "conn_inv C" and "conn_state C = kConnected" and "conn_context C = Some c"
    and "ctx_state c = kExpectRequestLine" and "req_method (ctx_request c) = kInvalid"
    and "Buffer_inv (inBuffer C)" and "contents (inBuffer C) = line @ crlf @ tail" and "CR \<notin> set line"
    and "complete (contents (inBuffer C))"
    and "HttpContext_processRequestLine line c = Inr (False, c')"
  shows "\<exists>C'. HttpServer_onMessage h t C = Inr (C', [CloseConnectionInLoop])
    \<and> sent_log C' = sent_log C @ ''HTTP/1.1 400 Bad Request'' @ crlf @ crlf
    \<and> contents (inBuffer C') = contents (inBuffer C) \<and> Buffer_inv (inBuffer C')
    \<and> (\<forall>D s t'. Buffer_inv (inBuffer D) \<and> conn_context D = conn_context C'
        \<and> contents (inBuffer D) = contents (inBuffer C') @ s \<and> complete (contents (inBuffer D)) \<longrightarrow>
        (if known_method line then HttpServer_onMessage h t' D = Inl AssertionFailed
         else conn_inv D \<longrightarrow> (\<exists>D'. HttpServer_onMessage h t' D = Inr (D', if conn_state D = kConnected then [CloseConnectionInLoop] else [])
           \<and> sent_log D' = sent_log D
               @ (if conn_state D = kConnected then ''HTTP/1.1 400 Bad Request'' @ crlf @ crlf else []))))"
proof -
  obtain C' b where C': "HttpServer_onMessage h t C = Inr (C', if conn_state C = kConnected then [CloseConnectionInLoop] else [])"
    "sent_log C' = sent_log C @ (if conn_state C = kConnected then ''HTTP/1.1 400 Bad Request'' @ crlf @ crlf else [])"
    "HttpContext_parseRequest c (inBuffer C) t = Some (Inr (False, c', b))"
    "inBuffer C' = b" "contents b = contents (inBuffer C)" "Buffer_inv b" "conn_context C' = Some c'"
    by (rule bad_request_answer [OF assms(1,3,4,6-10)])
  have abort: "HttpServer_onMessage h t' D = Inl AssertionFailed"
    if k: "known_method line" and r: "Buffer_inv (inBuffer D)" "conn_context D = Some c'"
      "contents (inBuffer D) = contents b @ s" "complete (contents (inBuffer D))" for D s t'
    by (rule onMessage_aborts [OF r(1,4,2)
          reparse_aborts [OF assms(6) C'(3) assms(5) rejected_line(1) [OF assms(10,5) k] r(1,3)]])
  have again: "\<exists>D'. HttpServer_onMessage h t' D = Inr (D', if conn_state D = kConnected then [CloseConnectionInLoop] else [])
      \<and> sent_log D' = sent_log D @ (if conn_state D = kConnected then ''HTTP/1.1 400 Bad Request'' @ crlf @ crlf else [])"
    if k: "\<not> known_method line" and r: "Buffer_inv (inBuffer D)" "conn_context D = Some c'"
      "contents (inBuffer D) = contents b @ s" "complete (contents (inBuffer D))" "conn_inv D" for D s t'
  proof -
    have c: "c' = c" by (rule rejected_line(2) [OF assms(10,5) k])
    have m: "contents (inBuffer D) = line @ crlf @ (tail @ s)" using r(3) C'(5) assms(7) by simp
    show ?thesis
      by (rule bad_request_answer [OF r(5) r(2) [unfolded c] assms(4) r(1) m assms(8) r(4) assms(10), of h t']) blast
  qed
  have 1: "HttpServer_onMessage h t C = Inr (C', [CloseConnectionInLoop])" using C'(1) assms(2) by simp
  have 2: "sent_log C' = sent_log C @ ''HTTP/1.1 400 Bad Request'' @ crlf @ crlf" using C'(2) assms(2) by simp
  have 3: "contents (inBuffer C') = contents (inBuffer C)" "Buffer_inv (inBuffer C')" using C'(4-6) by simp_all
  show ?thesis
  proof (intro exI [of _ C'] conjI 1 2 3 allI impI)
    fix D :: "HttpContext TcpConnection" and s t'
    assume r: "Buffer_inv (inBuffer D) \<and> conn_context D = conn_context C'
      \<and> contents (inBuffer D) = contents (inBuffer C') @ s \<and> complete (contents (inBuffer D))"
    show "if known_method line then HttpServer_onMessage h t' D = Inl AssertionFailed
      else conn_inv D \<longrightarrow> (\<exists>D'. HttpServer_onMessage h t' D = Inr (D', if conn_state D = kConnected then [CloseConnectionInLoop] else [])
        \<and> sent_log D' = sent_log D @ (if conn_state D = kConnected then ''HTTP/1.1 400 Bad Request'' @ crlf @ crlf else []))"
    proof (cases "known_method line")
      case True
      have "HttpServer_onMessage h t' D = Inl AssertionFailed" by (rule abort [OF True]) (use r C'(4,7) in auto)
      with True show ?thesis by (simp only: if_True)
    next
      case False
      show ?thesis unfolding if_not_P [OF False]
        by (rule impI, rule again [OF False]) (use r C'(4,7) in auto)
    qed
  qed
qed

theorem HttpServer_bad_request_witness:
  "\<exists>C'. HttpServer_onMessage defaultHttpCallback (Timestamp 1) (sample_http_conn (''GET /'' @ crlf @ crlf))
      = Inr (C', [CloseConnectionInLoop])
    \<and> sent_log C' = ''HTTP/1.1 400 Bad Request'' @ crlf @ crlf
    \<and> HttpServer_onMessage defaultHttpCallback (Timestamp 2) C' = Inl AssertionFailed"
proof -
  let ?s = "''GET /'' @ crlf @ crlf"
  let ?C = "sample_http_conn ?s" and ?c = "HttpContext_reset HttpContext_new"
  let ?c' = "with_request ?c (HttpRequest_new\<lparr>req_method := kGet\<rparr>)"
  have c: "contents (inBuffer ?C) = ?s" by (simp add: sample_http_conn_simps crlf_def)
  have p: "HttpContext_processRequestLine ''GET /'' ?c = Inr (False, ?c')"
    by (simp add: HttpContext_processRequestLine_def setMethod_def HttpContext_new_def HttpRequest_new_def)
  have k: "complete (contents (inBuffer ?C))" unfolding c complete_def by blast
  obtain C' where C': "HttpServer_onMessage defaultHttpCallback (Timestamp 1) ?C = Inr (C', [CloseConnectionInLoop])"
    "sent_log C' = sent_log ?C @ ''HTTP/1.1 400 Bad Request'' @ crlf @ crlf"
    "contents (inBuffer C') = contents (inBuffer ?C)" "Buffer_inv (inBuffer C')"
    "\<forall>D s t'. Buffer_inv (inBuffer D)
        \<and> conn_context D = conn_context C' \<and> contents (inBuffer D) = contents (inBuffer C') @ s
        \<and> complete (contents (inBuffer D)) \<longrightarrow> HttpServer_onMessage defaultHttpCallback t' D = Inl AssertionFailed"
    using HttpServer_bad_request [OF sample_http_conn_simps(1-3) _ _ sample_http_conn_simps(4) _ _ k p, of crlf
        defaultHttpCallback "Timestamp 1"] c
    by (auto simp: HttpContext_new_def HttpRequest_new_def known_method_def)
  have "HttpServer_onMessage defaultHttpCallback (Timestamp 2) C' = Inl AssertionFailed"
    by (rule C'(5) [rule_format, of C' "[]"]) (use C'(3,4) k in simp_all)
  with C'(1,2) show ?thesis by (simp add: sample_http_conn_simps)
qed

text \<open>
  C13. The context of every connection is an \<open>HttpContext\<close>, with a parser that is not finished, in
  every reachable state of an HTTP server, whatever the user's handler returns: \<open>any_cast\<close> never
  gives a null pointer and \<open>parseRequest\<close> never loops for ever. As in the runs of \<open>Tcp_Server\<close>, every
  \<open>accept\<close> is taken to succeed and no hang-up to be reported for a connection that is closed already. A run
  can stop in three ways only: it accepts a connection when the counter of connections is at its end; a connection
  reads a message after which fewer than four bytes lie in front of the write index of its buffer, and
  \<open>onMessage\<close> reads outside; or a connection reads a message at which an assertion fails in \<open>parseRequest\<close>.
\<close>

theorem HttpServer_context_type:
  assumes "HttpServer_start env startLoop base
      (HttpServer_setThreadNum n (HttpServer_setHttpCallback h (HttpServer_new env ptr base addr name))) = Inr S"
    and "http_allowed env ops S"
  shows "case http_run env ops S of
      Inl e \<Rightarrow> (\<exists>ops1 op ops2 t. ops = ops1 @ op # ops2 \<and> http_run env ops1 S = Inr t
        \<and> ((\<exists>r writes. op = Accept r writes \<and> e = IntegerOverflow \<and> 2 ^ 31 - 1 \<le> nextConnectionId t)
         \<or> (\<exists>c r now C x buf. op = Event c HandleRead r now \<and> conns t c = Some C
              \<and> conn_context C = Some x \<and> buf = snd (snd (Buffer_readFd r (inBuffer C)))
              \<and> (e = OutOfBounds \<and> writeIndex buf < 4
               \<or> e = AssertionFailed \<and> HttpContext_parseRequest x buf now = Some (Inl AssertionFailed)))))
    | Inr t \<Rightarrow> (\<forall>c C. conns t c = Some C \<longrightarrow>
        (\<exists>x. conn_context C = Some x \<and> ctx_state x \<in> {kExpectRequestLine, kExpectHeaders}))"
proof (cases "http_run env ops S")
  case (Inl e)
  let ?cb = "http_callbacks (httpCallback S)"
  obtain ops1 op ops2 t where o: "ops = ops1 @ op # ops2" "server_run env ?cb ops1 (http_tcp S) = Inr t"
    "server_step env ?cb op t = Inl e"
    using server_run_fault Inl unfolding http_run_def by metis
  have a: "http_allowed env ops1 S" "op_allowed op t"
    using assms(2) o(1,2) by (simp_all add: http_allowed_def run_allowed_append)
  have i: "server_inv (\<lambda>_. 0) t" "contexts_ok http_context {} t"
    using http_run_ok [OF assms(1) a(1)] o(2) by (simp_all add: http_run_def)
  have "nextConnectionId t = int (next_conn t)" using server_invD(3) [OF i(1)] .
  with http_step_fault [OF i a(2) o(3)]
  have "(\<exists>r writes. op = Accept r writes \<and> e = IntegerOverflow \<and> 2 ^ 31 - 1 \<le> nextConnectionId t)
      \<or> (\<exists>c r now C x buf. op = Event c HandleRead r now \<and> conns t c = Some C
          \<and> conn_context C = Some x \<and> buf = snd (snd (Buffer_readFd r (inBuffer C)))
          \<and> (e = OutOfBounds \<and> writeIndex buf < 4
           \<or> e = AssertionFailed \<and> HttpContext_parseRequest x buf now = Some (Inl AssertionFailed)))"
    by (fastforce simp: message_fault_def http_context_def split: option.splits)
  moreover have "http_run env ops1 S = Inr t" using o(2) by (simp add: http_run_def)
  ultimately show ?thesis unfolding Inl sum.case using o(1) by blast
next
  case (Inr t)
  have "\<exists>x. conn_context C = Some x \<and> ctx_state x \<in> {kExpectRequestLine, kExpectHeaders}"
    if "http_context (conn_context C)" for C :: "HttpContext TcpConnection"
    using that by (cases "conn_context C") (auto simp: http_context_def parser_running_def)
  with http_run_ok [OF assms] Inr show ?thesis by (auto simp: contexts_ok_def)
qed

definition sample_http_server :: HttpServer where
  "sample_http_server = (case HttpServer_start sample_env (\<lambda>i. 100 + i) 7
       (HttpServer_setThreadNum 1 (HttpServer_setHttpCallback (main_onRequest (Timestamp 0) [])
         (HttpServer_new sample_env 1 7 no_addr ''dummy''))) of
     Inr S \<Rightarrow> S | Inl e \<Rightarrow> HttpServer_new sample_env 1 0 no_addr [])"

lemmas http_eval = sample_http_server_def HttpServer_start_def HttpServer_setThreadNum_def HttpServer_new_def
  HttpServer_setHttpCallback_def http_run_def http_allowed_def server_eval

lemma http_sample_start:
  "HttpServer_start sample_env (\<lambda>i. 100 + i) 7
     (HttpServer_setThreadNum 1 (HttpServer_setHttpCallback (main_onRequest (Timestamp 0) [])
       (HttpServer_new sample_env 1 7 no_addr ''dummy''))) = Inr sample_http_server"
  "httpCallback sample_http_server = main_onRequest (Timestamp 0) []"
  by (simp_all add: http_eval)

theorem HttpServer_context_type_witness:
  "\<exists>t C x. http_run sample_env [Accept (Inr (5, sample_peer)) []] sample_http_server = Inr t
    \<and> conns t 0 = Some C \<and> conn_loop C = 100 \<and> conn_context C = Some x
    \<and> ctx_state x \<in> {kExpectRequestLine, kExpectHeaders}"
proof -
  let ?ops = "[Accept (Inr (5, sample_peer)) []]"
  have a: "http_allowed sample_env ?ops sample_http_server"
    by (simp add: http_allowed_def op_allowed_def split: sum.splits)
  obtain t C where t: "http_run sample_env ?ops sample_http_server = Inr t" "conns t 0 = Some C" "conn_loop C = 100"
    by (simp add: http_eval upt_rec HttpServer_onConnection_def establlished_def setContext_def)
  with HttpServer_context_type [OF http_sample_start(1) a] show ?thesis by auto
qed

text \<open>
  C40. The first message of a connection makes the server read before its buffer when it has fewer
  than four bytes.
\<close>

theorem HttpServer_short_message_reads_outside:
  assumes "inBuffer C = Buffer_new DEFAULTINITSIZE" and "bs \<noteq> []" and "length bs < 4"
  shows "\<exists>C'. TcpConnection_handleRead cur (ReadBytes bs) now C = Inr (C', [Call (MessageCallback now)])
    \<and> http_callbacks h (MessageCallback now) C' = Inl OutOfBounds"
proof -
  let ?b = "(Buffer_new DEFAULTINITSIZE)\<lparr>buffer := vec_write 0 bs (buffer (Buffer_new DEFAULTINITSIZE)),
    writeIndex := int (length bs)\<rparr>"
  have w: "Buffer_writeableBytes (Buffer_new DEFAULTINITSIZE) = 1024" "writeIndex (Buffer_new DEFAULTINITSIZE) = 0"
    "readIndex (Buffer_new DEFAULTINITSIZE) = 0"
    by (simp_all add: Buffer_new_def Buffer_writeableBytes_def DEFAULTINITSIZE_def capacity_def vec_resize_def)
  have f: "Buffer_readFd (ReadBytes bs) (Buffer_new DEFAULTINITSIZE) = (int (length bs), None, ?b)"
    using assms(3) by (simp add: Buffer_readFd_def w Let_def)
  then show ?thesis
    using assms by (simp add: TcpConnection_handleRead_def HttpServer_onMessage_def Buffer_peek_def
        Buffer_readbleBytes_def w)
qed

theorem HttpServer_short_message_reads_outside_witness:
  "\<exists>C'. TcpConnection_handleRead 1 (ReadBytes ''GE'') (Timestamp 3)
        (established 4 1 ''dummy#0'' 7 no_addr no_addr []) = Inr (C', [Call (MessageCallback (Timestamp 3))])
    \<and> http_callbacks defaultHttpCallback (MessageCallback (Timestamp 3)) C' = Inl OutOfBounds"
  by (rule HttpServer_short_message_reads_outside) (simp_all add: established_simps)

end
