(* ===== verification/C_Strings.thy ===== *)
theory C_Strings
  imports Rabbit_Prelude
begin

text \<open>
  The functions of the C library that \<open>http/http_util.h\<close> uses on strings. A C string is the list of
  its characters without the terminating NUL; \<open>c_str\<close> is the C string at the beginning of a
  list of bytes. A search returns the distance of what it finds. \<open>sprintf\<close> into a buffer of
  known size is out of bounds when the text and its terminator do not fit.
\<close>

section \<open>Functions\<close>

definition c_str :: "char list \<Rightarrow> string" where
  "c_str s = takeWhile (\<lambda>c. c \<noteq> NUL) s"

definition strchr :: "string \<Rightarrow> char \<Rightarrow> nat option" where
  "strchr s c = (let i = std_find c s in if i = length s then None else Some i)"

definition strrchr :: "string \<Rightarrow> char \<Rightarrow> nat option" where
  "strrchr s c = map_option (\<lambda>i. length s - 1 - i) (strchr (rev s) c)"

definition strstr :: "string \<Rightarrow> string \<Rightarrow> nat option" where
  "strstr s pat = (let i = std_search pat s in if i = length s then None else Some i)"

definition isdigit :: "char \<Rightarrow> bool" where
  "isdigit c \<longleftrightarrow> 48 \<le> (of_char c :: nat) \<and> (of_char c :: nat) \<le> 57"

definition atoi :: "string \<Rightarrow> int res" where
  "atoi s =
     (let s = dropWhile isspace s;
          (neg, s) = (case s of [] \<Rightarrow> (False, s)
            | c # r \<Rightarrow> if c = CHR ''-'' then (True, r) else if c = CHR ''+'' then (False, r) else (False, s));
          n = int (parse_nat (takeWhile isdigit s));
          v = (if neg then - n else n)
      in if - (2 ^ 31) \<le> v \<and> v < 2 ^ 31 then Inr v else Inl IntegerOverflow)"

text \<open>The conversion of a size to \<open>int\<close> keeps the low 32 bits.\<close>

definition int32 :: "int \<Rightarrow> int" where
  "int32 n = (n + 2 ^ 31) mod 2 ^ 32 - 2 ^ 31"

definition sprintf_to :: "int \<Rightarrow> string \<Rightarrow> string res" where
  "sprintf_to n s = (if int (length s) < n then Inr s else Inl OutOfBounds)"

section \<open>Lemmas\<close>

lemma int32_id [simp]: "- (2 ^ 31) \<le> n \<Longrightarrow> n < 2 ^ 31 \<Longrightarrow> int32 n = n"
  by (simp add: int32_def)

lemma c_str_id [simp]: "NUL \<notin> set s \<Longrightarrow> c_str s = s"
  unfolding c_str_def by (rule takeWhile_eq_all_conv [THEN iffD2]) auto

lemma c_str_append: "NUL \<notin> set s \<Longrightarrow> c_str (s @ t) = s @ c_str t"
  unfolding c_str_def by (rule takeWhile_append2) auto

lemma c_str_no_NUL [simp]: "NUL \<notin> set (c_str s)"
  unfolding c_str_def by (auto dest: set_takeWhileD)

lemma c_str_terminated [simp]: "c_str (NUL # s) = []" "c_str [] = []"
  by (simp_all add: c_str_def)

lemma c_str_Cons [simp]: "c \<noteq> NUL \<Longrightarrow> c_str (c # s) = c # c_str s"
  by (simp add: c_str_def)

lemma strchr_eq:
  "strchr s c = None \<longleftrightarrow> c \<notin> set s"
  "c \<notin> set u \<Longrightarrow> strchr (u @ c # v) c = Some (length u)"
  by (simp_all add: strchr_def std_find_eq_length)

lemma strstr_None: "pat \<noteq> [] \<Longrightarrow> strstr s pat = None \<longleftrightarrow> (\<nexists>u v. s = u @ pat @ v)"
  using std_search_less_iff [of pat s] std_search_le [of pat s]
  by (auto simp: strstr_def Let_def le_less)

lemma std_search_skip: "hd pat \<notin> set u \<Longrightarrow> pat \<noteq> [] \<Longrightarrow> std_search pat (u @ s) = length u + std_search pat s"
proof (induction u)
  case (Cons c u)
  have "take (length pat) (c # u @ s) \<noteq> pat" using Cons.prems by (cases pat) auto
  with Cons show ?case by simp
qed simp

lemma strstr_skip: "hd pat \<notin> set u \<Longrightarrow> pat \<noteq> [] \<Longrightarrow> strstr (u @ s) pat = map_option ((+) (length u)) (strstr s pat)"
  by (simp add: strstr_def std_search_skip Let_def)

lemma strstr_here: "pat \<noteq> [] \<Longrightarrow> strstr (pat @ s) pat = Some 0"
  by (cases pat) (simp_all add: strstr_def)

lemma strstr_first: "hd pat \<notin> set u \<Longrightarrow> pat \<noteq> [] \<Longrightarrow> strstr (u @ pat @ s) pat = Some (length u)"
  by (simp add: strstr_skip strstr_here)

lemma strstr_absent: "hd pat \<notin> set s \<Longrightarrow> pat \<noteq> [] \<Longrightarrow> strstr s pat = None"
  using std_search_skip [of pat s "[]"] by (simp add: strstr_def)

lemma isdigit_show_nat: "list_all isdigit (show_nat n)"
  using show_nat_digits [of _ n] by (auto simp: list_all_iff isdigit_def)

lemma isdigit_sign: "isdigit c \<Longrightarrow> c \<noteq> CHR ''-'' \<and> c \<noteq> CHR ''+'' \<and> \<not> isspace c"
  by (auto simp: isdigit_def isspace_def)

lemma atoi_show_nat:
  assumes "n < 2 ^ 31" and "s = [] \<or> \<not> isdigit (hd s)"
  shows "atoi (show_nat n @ s) = Inr (int n)"
proof -
  obtain c r where c: "show_nat n = c # r" using show_nat_nonempty [of n] by (cases "show_nat n") auto
  have d: "list_all isdigit (c # r)" using isdigit_show_nat [of n] by (simp add: c)
  have t: "takeWhile isdigit (show_nat n @ s) = show_nat n"
    using isdigit_show_nat [of n] assms(2) by (cases s) (auto simp: list_all_iff takeWhile_append)
  let ?t = "show_nat n @ s"
  have h: "?t = c # (r @ s)" using c by simp
  have "dropWhile isspace ?t = ?t"
    unfolding h using d isdigit_sign [of c] by simp
  moreover have "(case ?t of [] \<Rightarrow> (False, ?t)
      | c # r \<Rightarrow> if c = CHR ''-'' then (True, r) else if c = CHR ''+'' then (False, r) else (False, ?t)) = (False, ?t)"
    unfolding h using d isdigit_sign [of c] by simp
  ultimately show ?thesis
    using assms(1) by (simp add: atoi_def t Let_def)
qed

end
