(* ===== verification/Http_Maker.thy ===== *)
theory Http_Maker
  imports C_Strings "HOL-Library.Word"
begin

text \<open>
  The first half of \<open>http/http_util.h\<close>: the classes that write requests and responses into
  buffers of fixed size. A function that fills a caller's buffer returns the length it reports and
  the bytes in front of the terminator; what does not fit is out of bounds. The second half, the
  parsers, is in \<open>Http_Util_Parser\<close>.
\<close>

section \<open>Constants and buffers\<close>

datatype HttpMethodType =
  HTTP_UTIL_METHOD_NONE | HTTP_UTIL_METHOD_GET | HTTP_UTIL_METHOD_POST | HTTP_UTIL_METHOD_RESP

datatype HttpParamType = HTTP_UTIL_PARAM_ALL | HTTP_UTIL_PARAM_HEADPARAM | HTTP_UTIL_PARAM_CONTENT

definition HTTPUTIL_BUFFER_SIZE :: int where
  "HTTPUTIL_BUFFER_SIZE = 32 * 1024"

definition HTTP_CONTENT_TYPE_JSON :: string where
  "HTTP_CONTENT_TYPE_JSON = ''application/json;charset=utf-8''"

record CHttpBuffer =
  buf :: string
  buf_size :: int

text \<open>\<open>new char[n]\<close> throws for a negative size, and an empty block has no place for the NUL.\<close>

definition CHttpBuffer_new :: "int \<Rightarrow> CHttpBuffer res" where
  "CHttpBuffer_new nMaxLen =
     (if nMaxLen < 0 then Inl UncaughtException
      else if nMaxLen = 0 then Inl OutOfBounds
      else Inr \<lparr>buf = [], buf_size = nMaxLen\<rparr>)"

section \<open>Responses\<close>

text \<open>\<open>szContent\<close> is the block of bytes the pointer points to.\<close>

definition CHttpResponseMaker_make ::
  "char list \<Rightarrow> int \<Rightarrow> int \<Rightarrow> string \<Rightarrow> (int \<times> char list) res" where
  "CHttpResponseMaker_make szContent nContentLen nBufferSize szContentType =
     andThen (sprintf_to nBufferSize
         (''HTTP/1.1 200 OK'' @ crlf @ ''Content-Length: '' @ show_int nContentLen @ crlf
           @ ''Content-Type: '' @ c_str szContentType @ crlf @ ''Connection: Keep-Alive'' @ crlf @ crlf))
       (\<lambda>szBuffer.
         let nHeadLen = length szBuffer
         in if nContentLen > 0 then
              if nat nContentLen > length szContent \<or> int nHeadLen + nContentLen \<ge> nBufferSize then Inl OutOfBounds
              else let szBuffer = szBuffer @ take (nat nContentLen) szContent
                   in Inr (int (length (c_str szBuffer)), szBuffer)
            else Inr (int (length (c_str szBuffer)), szBuffer))"

definition CHttpResponseMaker_make_string :: "string \<Rightarrow> string \<Rightarrow> string res" where
  "CHttpResponseMaker_make_string strContent strContentType =
     andThen (CHttpBuffer_new (int32 (4096 + int (length strContent)))) (\<lambda>buffer.
     andThen (CHttpResponseMaker_make (strContent @ [NUL]) (int32 (int (length strContent))) (buf_size buffer)
                strContentType) (\<lambda>(n, bytes).
       Inr (c_str bytes)))"

definition error_padding :: string where
  "error_padding = ''<!-- The padding to disable MSIE'' @ [CHR 0x27] @ ''s friendly error page -->''"

text \<open>The size of the page is printed into 100 characters.\<close>

definition content_length_line :: "string \<Rightarrow> string res" where
  "content_length_line strContent =
     sprintf_to 100 (''Content-Length: '' @ show_int (int32 (int (length strContent))) @ crlf)"

definition CHttpResponseMaker_make_404_error :: "string res" where
  "CHttpResponseMaker_make_404_error =
     (let strContent = ''<html>'' @ crlf
            @ ''<head><title>404 Not Found</title></head>'' @ crlf
            @ ''<body bgcolor='' @ [CHR 0x22] @ ''white'' @ [CHR 0x22] @ ''>'' @ crlf
            @ ''<center><h1>404 Not Found</h1></center>'' @ crlf
            @ ''<hr><center>http_util</center>'' @ crlf
            @ ''</body>'' @ crlf
            @ ''</html>'' @ crlf
            @ error_padding @ error_padding @ error_padding
            @ error_padding @ error_padding @ error_padding
      in andThen (content_length_line strContent) (\<lambda>szTemp.
           Inr (''HTTP/1.1 404 Not Found'' @ crlf
             @ ''Server: http_util'' @ crlf
             @ ''Content-Type: text/html; charset=UTF-8'' @ crlf
             @ szTemp
             @ ''Connection: keep-alive'' @ crlf
             @ crlf
             @ strContent)))"

definition CHttpResponseMaker_make_302_error :: "string \<Rightarrow> string \<Rightarrow> string res" where
  "CHttpResponseMaker_make_302_error strLocation strMoveTo =
     (let strContent = ''<html><head><title>Object moved</title></head><body>'' @ crlf
            @ ''<h2>Object moved to <a href='' @ [CHR 0x22]
            @ strMoveTo
            @ [CHR 0x22] @ ''>here</a>.</h2>'' @ crlf
            @ ''</body></html>'' @ crlf
      in andThen (content_length_line strContent) (\<lambda>szTemp.
           Inr (''HTTP/1.1 302 Found'' @ crlf
             @ ''Server: http_util'' @ crlf
             @ ''Content-Type: text/html; charset=UTF-8'' @ crlf
             @ szTemp
             @ ''Connection: keep-alive'' @ crlf
             @ ''Location: '' @ strLocation @ crlf
             @ crlf
             @ strContent)))"

section \<open>Parameters\<close>

record CHttpParamStringMaker =
  m_params :: "(string \<times> string) list"
  m_strParamLines :: string

definition CHttpParamStringMaker_new :: CHttpParamStringMaker where
  "CHttpParamStringMaker_new = \<lparr>m_params = [], m_strParamLines = []\<rparr>"

definition add_param :: "string \<Rightarrow> string \<Rightarrow> CHttpParamStringMaker \<Rightarrow> CHttpParamStringMaker" where
  "add_param strKey strValue m = m\<lparr>m_params := m_params m @ [(strKey, strValue)]\<rparr>"

definition add_param_unsigned :: "string \<Rightarrow> 32 word \<Rightarrow> CHttpParamStringMaker \<Rightarrow> CHttpParamStringMaker" where
  "add_param_unsigned strKey nValue = add_param strKey (show_nat (unat nValue))"

definition add_param_int :: "string \<Rightarrow> 32 word \<Rightarrow> CHttpParamStringMaker \<Rightarrow> CHttpParamStringMaker" where
  "add_param_int strKey nValue = add_param strKey (show_int (sint nValue))"

definition set_paramlines :: "string \<Rightarrow> CHttpParamStringMaker \<Rightarrow> CHttpParamStringMaker" where
  "set_paramlines strParamLines m = m\<lparr>m_strParamLines := strParamLines\<rparr>"

text \<open>The loop: each pair is printed into one buffer and appended to another.\<close>

fun print_params :: "(string \<times> string) list \<Rightarrow> string \<Rightarrow> string res" where
  "print_params [] bufParams = Inr bufParams"
| "print_params ((strKey, strValue) # ps) bufParams =
     andThen (sprintf_to HTTPUTIL_BUFFER_SIZE (c_str strKey @ ''='' @ c_str strValue @ ''&'')) (\<lambda>bufKeyValue.
     andThen (sprintf_to HTTPUTIL_BUFFER_SIZE (bufParams @ bufKeyValue)) (print_params ps))"

text \<open>Without parameters the last character of the buffer is looked for before its beginning.\<close>

definition get_params :: "CHttpParamStringMaker \<Rightarrow> string res" where
  "get_params m =
     (if m_strParamLines m \<noteq> [] then Inr (m_strParamLines m)
      else
        andThen (print_params (m_params m) []) (\<lambda>bufParams.
          if bufParams = [] then Inl OutOfBounds
          else if last bufParams = CHR ''&'' then Inr (butlast bufParams)
          else Inr bufParams))"

section \<open>Requests\<close>

definition port_text :: "16 word \<Rightarrow> string" where
  "port_text nPort = (if nPort \<noteq> 80 then '':'' @ show_nat (unat nPort) else [])"

definition CHttpMaker_GET_make ::
  "string \<Rightarrow> 16 word \<Rightarrow> string \<Rightarrow> int \<Rightarrow> CHttpParamStringMaker \<Rightarrow> (int \<times> string) res" where
  "CHttpMaker_GET_make strHost nPort strUri nBufferSize m =
     andThen (get_params m) (\<lambda>strParams.
     andThen (sprintf_to nBufferSize
         (''GET '' @ c_str strUri @ ''?'' @ c_str strParams @ '' HTTP/1.1'' @ crlf
           @ ''Host: '' @ c_str strHost @ port_text nPort @ crlf
           @ ''Connection: Keep-Alive'' @ crlf
           @ ''Accept: */*'' @ crlf
           @ ''User-Agent: http_util'' @ crlf @ crlf)) (\<lambda>szBuffer.
       Inr (int (length szBuffer), szBuffer)))"

definition CHttpMaker_GET_make_string ::
  "string \<Rightarrow> 16 word \<Rightarrow> string \<Rightarrow> CHttpParamStringMaker \<Rightarrow> string res" where
  "CHttpMaker_GET_make_string strHost nPort strUri m =
     andThen (CHttpBuffer_new HTTPUTIL_BUFFER_SIZE) (\<lambda>b.
     andThen (CHttpMaker_GET_make strHost nPort strUri (buf_size b) m) (\<lambda>(n, szBuffer). Inr szBuffer))"

definition CHttpMaker_POST_make ::
  "string \<Rightarrow> 16 word \<Rightarrow> string \<Rightarrow> int \<Rightarrow> CHttpParamStringMaker \<Rightarrow> (int \<times> string) res" where
  "CHttpMaker_POST_make strHost nPort strUri nBufferSize m =
     andThen (get_params m) (\<lambda>strParams.
     andThen (sprintf_to nBufferSize
         (''POST '' @ c_str strUri @ '' HTTP/1.1'' @ crlf
           @ ''Host: '' @ c_str strHost @ port_text nPort @ crlf
           @ ''Content-type: application/x-www-form-urlencoded; charset=UTF-8'' @ crlf
           @ ''Content-Length: '' @ show_int (int32 (int (length strParams))) @ crlf
           @ ''Connection: Keep-Alive'' @ crlf @ crlf @ c_str strParams)) (\<lambda>szBuffer.
       Inr (int (length szBuffer), szBuffer)))"

definition CHttpMaker_POST_make_string ::
  "string \<Rightarrow> 16 word \<Rightarrow> string \<Rightarrow> CHttpParamStringMaker \<Rightarrow> string res" where
  "CHttpMaker_POST_make_string strHost nPort strUri m =
     andThen (CHttpBuffer_new HTTPUTIL_BUFFER_SIZE) (\<lambda>b.
     andThen (CHttpMaker_POST_make strHost nPort strUri (buf_size b) m) (\<lambda>(n, szBuffer). Inr szBuffer))"

text \<open>\<open>CHttpMaker\<close> and \<open>CHttpGetMaker\<close> make \<open>GET\<close> requests, \<open>CHttpPostMaker\<close> makes \<open>POST\<close> requests.\<close>

definition CHttpMaker_make ::
  "string \<Rightarrow> 16 word \<Rightarrow> string \<Rightarrow> int \<Rightarrow> CHttpParamStringMaker \<Rightarrow> (int \<times> string) res" where
  "CHttpMaker_make = CHttpMaker_GET_make"

definition CHttpMaker_make_string ::
  "string \<Rightarrow> 16 word \<Rightarrow> string \<Rightarrow> CHttpParamStringMaker \<Rightarrow> string res" where
  "CHttpMaker_make_string = CHttpMaker_GET_make_string"

definition CHttpGetMaker_make ::
  "string \<Rightarrow> 16 word \<Rightarrow> string \<Rightarrow> int \<Rightarrow> CHttpParamStringMaker \<Rightarrow> (int \<times> string) res" where
  "CHttpGetMaker_make = CHttpMaker_GET_make"

definition CHttpGetMaker_make_string ::
  "string \<Rightarrow> 16 word \<Rightarrow> string \<Rightarrow> CHttpParamStringMaker \<Rightarrow> string res" where
  "CHttpGetMaker_make_string = CHttpMaker_GET_make_string"

definition CHttpPostMaker_make ::
  "string \<Rightarrow> 16 word \<Rightarrow> string \<Rightarrow> int \<Rightarrow> CHttpParamStringMaker \<Rightarrow> (int \<times> string) res" where
  "CHttpPostMaker_make = CHttpMaker_POST_make"

definition CHttpPostMaker_make_string ::
  "string \<Rightarrow> 16 word \<Rightarrow> string \<Rightarrow> CHttpParamStringMaker \<Rightarrow> string res" where
  "CHttpPostMaker_make_string = CHttpMaker_POST_make_string"

end
