(* ===== verification/Http_Util_Parser.thy ===== *)
theory Http_Util_Parser
  imports Http_Maker Http_Response
begin

text \<open>
  The second half of \<open>http/http_util.h\<close>: the length of a message, the parameters of a query
  and the parser of requests. A message is the block of its bytes; the functions of the C library
  see it up to the first NUL, which stands behind the block if not in it. A pointer into a block that
  is kept in an object is modelled by the bytes from there on, a pointer into the object's own
  buffer by its offset.
\<close>

section \<open>The length of a message\<close>

text \<open>
  \<open>nContentPos\<close> and \<open>nContentLen\<close> are references: they keep what they were when the function
  returns before it sets them. The result is -1 for other data, 0 for an incomplete message.
\<close>

definition CHttpLengthAnaly_get_length_ex ::
  "char list \<Rightarrow> int \<Rightarrow> int \<Rightarrow> int \<Rightarrow> (int \<times> int \<times> int) res" where
  "CHttpLengthAnaly_get_length_ex szData nDataLen nContentPos nContentLen =
     (let bGetType = (take 4 szData = ''GET '');
          bPostType = (\<not> bGetType \<and> take 5 szData = ''POST '');
          bRespType = (\<not> bGetType \<and> \<not> bPostType \<and> take 5 szData = ''HTTP/'')
      in if \<not> bGetType \<and> \<not> bPostType \<and> \<not> bRespType then Inr (-1, nContentPos, nContentLen)
         else
           case strstr (c_str szData) (crlf @ crlf) of
             None \<Rightarrow> Inr (0, nContentPos, nContentLen)
           | Some pHeadEnd \<Rightarrow>
               let nHeadLen = int pHeadEnd + 4
               in andThen
                    (if bPostType \<or> bRespType then
                       (case strstr (c_str szData) ''Content-Length: '' of
                          None \<Rightarrow> Inr (0, 0)
                        | Some pContentLen \<Rightarrow>
                            let pContentLen = pContentLen + 16
                            in (case strstr (drop pContentLen (c_str szData)) crlf of
                                  None \<Rightarrow> Inr (0, 0)
                                | Some n \<Rightarrow>
                                    if int n \<ge> HTTPUTIL_BUFFER_SIZE then Inl OutOfBounds
                                    else andThen (atoi (take n (drop pContentLen (c_str szData))))
                                           (\<lambda>nContentLen. Inr (int pHeadEnd + 4, nContentLen))))
                     else Inr (0, 0))
                    (\<lambda>(nContentPos, nContentLen).
                       if nHeadLen + nContentLen \<ge> 2 ^ 31 then Inl IntegerOverflow
                       else if nDataLen < nHeadLen + nContentLen then Inr (0, nContentPos, nContentLen)
                       else Inr (nHeadLen + nContentLen, nContentPos, nContentLen)))"

definition CHttpLengthAnaly_get_length :: "char list \<Rightarrow> int \<Rightarrow> int res" where
  "CHttpLengthAnaly_get_length szData nDataLen =
     andThen (CHttpLengthAnaly_get_length_ex szData nDataLen 0 0) (\<lambda>(n, pos, len). Inr n)"

section \<open>Parameters\<close>

definition map_insert_new :: "'k::linorder \<Rightarrow> 'v \<Rightarrow> ('k, 'v) std_map \<Rightarrow> ('k, 'v) std_map" where
  "map_insert_new k v m = (if map_find m k = None then map_put k v m else m)"

type_synonym CHttpParamParser = "(string, string) std_map"

definition key_start :: "char \<Rightarrow> bool" where
  "key_start c \<longleftrightarrow> (CHR ''a'' \<le> c \<and> c \<le> CHR ''z'') \<or> (CHR ''A'' \<le> c \<and> c \<le> CHR ''Z'') \<or> c = CHR ''%'' \<or> c = CHR ''+''"

text \<open>
  The loop over the copy. A separator in front of the equals sign makes the length of the value
  negative, and \<open>memcpy\<close> gets it as a size.
\<close>

function param_loop :: "string \<Rightarrow> CHttpParamParser \<Rightarrow> CHttpParamParser res" where
  "param_loop szParam m =
     (case szParam of
        [] \<Rightarrow> Inr m
      | c # rest \<Rightarrow>
          if \<not> key_start c then param_loop rest m
          else
            (case strchr szParam CHR ''='' of
               None \<Rightarrow> Inr m
             | Some szValue \<Rightarrow>
                 (case strchr szParam CHR ''&'' of
                    None \<Rightarrow> Inr m
                  | Some szSplit \<Rightarrow>
                      if szSplit < szValue + 1 then Inl OutOfBounds
                      else
                        let strKey = take szValue szParam;
                            strValue = take (szSplit - szValue - 1) (drop (szValue + 1) szParam)
                        in param_loop (drop (szSplit + 1) szParam) (map_insert_new strKey strValue m))))"
  by pat_completeness auto
termination
  by (relation "measure (\<lambda>(s, m). length s)") auto

declare param_loop.simps [simp del]

text \<open>
  The parameters are copied, with an \<open>&\<close> appended. Behind a leading \<open>&\<close> one byte less is copied,
  and the last byte of the copy is whatever the new block holds there (\<open>junk\<close>).
\<close>

definition CHttpParamParser_parse :: "char \<Rightarrow> char list \<Rightarrow> int \<Rightarrow> CHttpParamParser res" where
  "CHttpParamParser_parse junk szHttpParam nLen =
     (if 4096 + nLen \<ge> 2 ^ 31 then Inl IntegerOverflow
      else if 4096 + nLen < 0 then Inl UncaughtException
      else if nLen \<le> 0 \<or> nLen > int (length szHttpParam) then Inl OutOfBounds
      else
        let bytes = take (nat nLen) szHttpParam;
            bytes = (if hd bytes = CHR ''&'' then tl bytes @ [junk] else bytes);
            buf = c_str bytes
        in if buf = [] then Inl OutOfBounds
           else param_loop (if last buf \<noteq> CHR ''&'' then buf @ ''&'' else buf) [])"

definition CHttpParamParser_new :: "char \<Rightarrow> char list option \<Rightarrow> int \<Rightarrow> CHttpParamParser res" where
  "CHttpParamParser_new junk szHttpParam nLen =
     (case szHttpParam of
        Some bytes \<Rightarrow> if nLen > 0 then CHttpParamParser_parse junk bytes nLen else Inr []
      | None \<Rightarrow> Inr [])"

definition CHttpParamParser_get_param :: "string \<Rightarrow> CHttpParamParser \<Rightarrow> string" where
  "CHttpParamParser_get_param szKey m = (case map_find m szKey of Some v \<Rightarrow> v | None \<Rightarrow> [])"

definition CHttpParamParser_get_param_int :: "string \<Rightarrow> CHttpParamParser \<Rightarrow> int res" where
  "CHttpParamParser_get_param_int szKey m = atoi (CHttpParamParser_get_param szKey m)"

section \<open>The parser\<close>

record CHttpParser =
  m_mapFields :: "(string, string) std_map"
  m_bufFirstLine :: "char list"
  m_pszContent :: "char list option"
  m_nContentLen :: int
  m_nHttpMethod :: HttpMethodType
  m_pszUri :: "nat option"
  m_pszActParam :: "nat option"
  m_paramParser :: CHttpParamParser
  m_nExtraParamType :: HttpParamType

definition CHttpParser_new :: CHttpParser where
  "CHttpParser_new = \<lparr>m_mapFields = [], m_bufFirstLine = [], m_pszContent = None, m_nContentLen = 0,
     m_nHttpMethod = HTTP_UTIL_METHOD_NONE, m_pszUri = None, m_pszActParam = None, m_paramParser = [],
     m_nExtraParamType = HTTP_UTIL_PARAM_ALL\<rparr>"

definition check_security :: "char list \<Rightarrow> bool" where
  "check_security szHttpReq = (strchr (c_str szHttpReq) (CHR 0x27) = None)"

text \<open>The loop over the header lines, from the offset \<open>ptr\<close>; the fields and where it stopped.\<close>

function field_loop ::
  "string \<Rightarrow> int \<Rightarrow> nat \<Rightarrow> (string, string) std_map \<Rightarrow> (string, string) std_map \<times> nat" where
  "field_loop req nTotalLen ptr m =
     (if int ptr > nTotalLen - 4 then (m, ptr)
      else if take 2 (drop ptr req) = crlf then (m, ptr)
      else
        (case strstr (drop ptr req) crlf of
           None \<Rightarrow> (m, ptr)
         | Some pLineEnd \<Rightarrow>
             let line = take pLineEnd (drop ptr req)
             in (case strstr line '': '' of
                   None \<Rightarrow> (m, ptr)
                 | Some p \<Rightarrow>
                     field_loop req nTotalLen (ptr + pLineEnd + 2)
                       (map_insert_new (take p line) (drop (p + 2) line) m))))"
  by pat_completeness auto
termination
  by (relation "measure (\<lambda>(req, n, ptr, m). nat (n - int ptr))") auto

declare field_loop.simps [simp del]

definition CHttpParser_parseField :: "char list \<Rightarrow> int \<Rightarrow> CHttpParser \<Rightarrow> bool \<times> CHttpParser" where
  "CHttpParser_parseField szHttpReq nTotalLen s =
     (case strstr (c_str szHttpReq) crlf of
        None \<Rightarrow> (False, s)
      | Some ptr \<Rightarrow>
          let s = s\<lparr>m_bufFirstLine := take (nat (HTTPUTIL_BUFFER_SIZE - 1)) (take ptr szHttpReq)\<rparr>;
              (m, ptr) = field_loop (c_str szHttpReq) nTotalLen (ptr + 2) (m_mapFields s);
              ptr = ptr + 2;
              s = s\<lparr>m_mapFields := m\<rparr>
          in (True, if int ptr < nTotalLen then s\<lparr>m_pszContent := Some (drop ptr szHttpReq)\<rparr> else s))"

definition CHttpParser_parseMethod :: "string \<Rightarrow> HttpMethodType \<Rightarrow> CHttpParser \<Rightarrow> bool \<times> CHttpParser" where
  "CHttpParser_parseMethod szMethod nMethodType s =
     (if take (length szMethod) (m_bufFirstLine s) = szMethod then
        (case strstr (c_str (m_bufFirstLine s)) '' HTTP'' of
           None \<Rightarrow> (False, s)
         | Some pEnd \<Rightarrow>
             (True, s\<lparr>m_bufFirstLine := (m_bufFirstLine s)[pEnd := NUL], m_nHttpMethod := nMethodType\<rparr>))
      else (False, s))"

definition CHttpParser_at :: "nat \<Rightarrow> CHttpParser \<Rightarrow> string" where
  "CHttpParser_at p s = c_str (drop p (m_bufFirstLine s))"

text \<open>
  A first line that fills the buffer has no NUL behind it.
  The methods are tried in a loop that ends only when one of them succeeds; an attempt that fails
  changes nothing, so the second pass would be like the first.
\<close>

definition CHttpParser_parseFirstLine :: "CHttpParser \<Rightarrow> (bool \<times> CHttpParser) res" where
  "CHttpParser_parseFirstLine s =
     (if int (length (m_bufFirstLine s)) \<ge> HTTPUTIL_BUFFER_SIZE - 1 then Inl OutOfBounds
      else if length (c_str (m_bufFirstLine s)) < 10 then Inr (False, s)
      else
        andThen
          (case CHttpParser_parseMethod ''GET '' HTTP_UTIL_METHOD_GET s of
             (True, s) \<Rightarrow> Inr (s, 4)
           | (False, s) \<Rightarrow>
               (case CHttpParser_parseMethod ''POST '' HTTP_UTIL_METHOD_POST s of
                  (True, s) \<Rightarrow> Inr (s, 5)
                | (False, s) \<Rightarrow>
                    (case CHttpParser_parseMethod ''HTTP/'' HTTP_UTIL_METHOD_RESP s of
                       (True, s) \<Rightarrow> Inr (s, 5)
                     | (False, s) \<Rightarrow> Inl InfiniteLoop)))
          (\<lambda>(s, pBegin).
             if m_nHttpMethod s = HTTP_UTIL_METHOD_NONE then Inr (False, s)
             else
               (case strchr (CHttpParser_at pBegin s) CHR ''?'' of
                  Some szParam \<Rightarrow>
                    Inr (True, s\<lparr>m_bufFirstLine := (m_bufFirstLine s)[pBegin + szParam := NUL],
                      m_pszActParam := Some (pBegin + szParam + 1), m_pszUri := Some pBegin\<rparr>)
                | None \<Rightarrow> Inr (True, s\<lparr>m_pszUri := Some pBegin\<rparr>))))"

definition CHttpParser_parse ::
  "char \<Rightarrow> char list \<Rightarrow> int \<Rightarrow> HttpParamType \<Rightarrow> CHttpParser \<Rightarrow> (int \<times> CHttpParser) res" where
  "CHttpParser_parse junk szHttpReq nDataLen nExtraParamType s =
     (if \<not> check_security szHttpReq then Inr (-1, s)
      else
        let s = s\<lparr>m_nExtraParamType := nExtraParamType\<rparr>
        in andThen (CHttpLengthAnaly_get_length_ex szHttpReq nDataLen 0 (m_nContentLen s))
          (\<lambda>(nTotalLen, nContentPos, len).
            let s = s\<lparr>m_nContentLen := len\<rparr>
            in if nTotalLen \<le> 0 then Inr (nTotalLen, s)
               else
                 let (ok, s) = CHttpParser_parseField szHttpReq nTotalLen s
                 in if \<not> ok then Inr (-1, s)
                    else
                      andThen (CHttpParser_parseFirstLine s) (\<lambda>(ok, s).
                        if \<not> ok then Inr (-1, s)
                        else
                          (case m_pszActParam s of
                             Some p \<Rightarrow>
                               let act = CHttpParser_at p s in
                               if nExtraParamType = HTTP_UTIL_PARAM_ALL \<or> nExtraParamType = HTTP_UTIL_PARAM_HEADPARAM
                               then andThen (CHttpParamParser_parse junk act (int (length act)))
                                      (\<lambda>m. Inr (nTotalLen, s\<lparr>m_paramParser := m\<rparr>))
                               else Inr (nTotalLen, s)
                           | None \<Rightarrow>
                               (case m_pszContent s of
                                  Some content \<Rightarrow>
                                    if nExtraParamType = HTTP_UTIL_PARAM_ALL \<or> nExtraParamType = HTTP_UTIL_PARAM_CONTENT
                                    then andThen (CHttpParamParser_parse junk content (m_nContentLen s))
                                           (\<lambda>m. Inr (nTotalLen, s\<lparr>m_paramParser := m\<rparr>))
                                    else Inr (nTotalLen, s)
                                | None \<Rightarrow> Inr (nTotalLen, s))))))"

text \<open>The constructor with arguments; it does not tell its caller what the parser returned.\<close>

definition CHttpParser_construct :: "char \<Rightarrow> char list option \<Rightarrow> int \<Rightarrow> HttpParamType \<Rightarrow> CHttpParser res" where
  "CHttpParser_construct junk szHttpReq nDataLen nExtraParamType =
     (case szHttpReq of
        None \<Rightarrow> Inr CHttpParser_new
      | Some bytes \<Rightarrow>
          if nDataLen > 0
          then andThen (CHttpParser_parse junk bytes nDataLen nExtraParamType CHttpParser_new) (\<lambda>(n, s). Inr s)
          else Inl AssertionFailed)"

definition CHttpParser_get_head_field :: "string \<Rightarrow> CHttpParser \<Rightarrow> string" where
  "CHttpParser_get_head_field strFieldName s =
     (case map_find (m_mapFields s) strFieldName of Some v \<Rightarrow> v | None \<Rightarrow> [])"

definition CHttpParser_get_cookie :: "CHttpParser \<Rightarrow> string" where
  "CHttpParser_get_cookie s = CHttpParser_get_head_field ''Cookie'' s"

definition CHttpParser_get_param :: "string \<Rightarrow> CHttpParser \<Rightarrow> string" where
  "CHttpParser_get_param szKey s = CHttpParamParser_get_param szKey (m_paramParser s)"

definition CHttpParser_get_param_int :: "string \<Rightarrow> CHttpParser \<Rightarrow> int res" where
  "CHttpParser_get_param_int szKey s = CHttpParamParser_get_param_int szKey (m_paramParser s)"

definition CHttpParser_get_param_string :: "CHttpParser \<Rightarrow> string" where
  "CHttpParser_get_param_string s =
     (if m_pszActParam s \<noteq> None \<and> (m_nExtraParamType s = HTTP_UTIL_PARAM_ALL \<or> m_nExtraParamType s = HTTP_UTIL_PARAM_HEADPARAM)
      then CHttpParser_at (the (m_pszActParam s)) s
      else if m_pszContent s \<noteq> None \<and> (m_nExtraParamType s = HTTP_UTIL_PARAM_ALL \<or> m_nExtraParamType s = HTTP_UTIL_PARAM_CONTENT)
      then c_str (the (m_pszContent s))
      else [])"

definition CHttpParser_get_uri :: "CHttpParser \<Rightarrow> string" where
  "CHttpParser_get_uri s = (case m_pszUri s of None \<Rightarrow> [] | Some p \<Rightarrow> CHttpParser_at p s)"

definition CHttpParser_get_object :: "CHttpParser \<Rightarrow> string" where
  "CHttpParser_get_object s =
     (case m_pszUri s of None \<Rightarrow> []
      | Some p \<Rightarrow>
          let u = CHttpParser_at p s
          in (case strrchr u CHR ''/'' of None \<Rightarrow> [] | Some i \<Rightarrow> drop (i + 1) u))"

definition CHttpParser_get_http_method :: "CHttpParser \<Rightarrow> HttpMethodType" where
  "CHttpParser_get_http_method s = m_nHttpMethod s"

section \<open>Lines and fields\<close>

lemma map_insert_new_sorted: "map_sorted m \<Longrightarrow> map_sorted (map_insert_new k v m)"
  by (simp add: map_insert_new_def map_put_sorted)

lemma find_insert_new:
  "map_sorted m \<Longrightarrow> map_find (map_insert_new k v m) k' =
     (case map_find m k' of Some x \<Rightarrow> Some x | None \<Rightarrow> if k' = k then Some v else None)"
  by (auto simp: map_insert_new_def map_find_put split: option.splits)

text \<open>A sequence of insertions keeps the first value of every key.\<close>

definition insert_all :: "(string \<times> string) list \<Rightarrow> (string, string) std_map \<Rightarrow> (string, string) std_map" where
  "insert_all ps m = fold (\<lambda>(k, v). map_insert_new k v) ps m"

lemma insert_all_simps [simp]:
  "insert_all [] m = m" "insert_all ((k, v) # ps) m = insert_all ps (map_insert_new k v m)"
  by (simp_all add: insert_all_def)

lemma find_insert_all:
  "map_sorted m \<Longrightarrow> map_find (insert_all ps m) k =
     (case map_find m k of Some x \<Rightarrow> Some x | None \<Rightarrow> map_of ps k)"
proof (induction ps arbitrary: m)
  case (Cons kv ps)
  obtain k' v' where kv: "kv = (k', v')" by (cases kv)
  from Cons show ?case
    by (auto simp: kv find_insert_new map_insert_new_sorted split: option.splits)
qed (auto split: option.splits)

definition lines_text :: "string list \<Rightarrow> string" where
  "lines_text ls = concat (map (\<lambda>l. l @ crlf) ls)"

lemma lines_text_simps [simp]: "lines_text [] = []" "lines_text (l # ls) = l @ crlf @ lines_text ls"
  by (simp_all add: lines_text_def)

lemma lines_text_headers: "lines_text (map (\<lambda>(k, v). k @ '': '' @ v) hs) = concat (map render_header hs)"
  by (simp add: lines_text_def render_header_def [abs_def] split_def comp_def)

lemma search_head_end:
  assumes "CR \<notin> set l" and "\<forall>x\<in>set ls. CR \<notin> set x \<and> x \<noteq> []"
  shows "std_search (crlf @ crlf) (lines_text (l # ls) @ crlf @ body) = length (lines_text (l # ls)) - 2"
  using assms
proof (induction ls arbitrary: l)
  case Nil
  have "std_search (crlf @ crlf) (l @ crlf @ crlf @ body) = length l + std_search (crlf @ crlf) (crlf @ crlf @ body)"
    using Nil(1) by (intro std_search_skip) (simp_all add: crlf_def)
  then show ?case by (simp add: crlf_def)
next
  case (Cons l' ls)
  let ?T = "lines_text (l' # ls) @ crlf @ body"
  have "std_search (crlf @ crlf) (l @ crlf @ ?T) = length l + std_search (crlf @ crlf) (crlf @ ?T)"
    using Cons(2) by (intro std_search_skip) (simp_all add: crlf_def)
  moreover have "std_search (crlf @ crlf) (crlf @ ?T) = 2 + std_search (crlf @ crlf) ?T"
  proof -
    obtain c r where c: "l' = c # r" "c \<noteq> CR" using Cons(3) by (cases l') auto
    show ?thesis unfolding c lines_text_simps using c(2) by (simp add: crlf_def)
  qed
  moreover have "std_search (crlf @ crlf) ?T = length (lines_text (l' # ls)) - 2"
    using Cons by auto
  ultimately show ?case by simp
qed

lemma strstr_head_end:
  assumes "CR \<notin> set l" and "\<forall>x\<in>set ls. CR \<notin> set x \<and> x \<noteq> []"
  shows "strstr (lines_text (l # ls) @ crlf @ body) (crlf @ crlf) = Some (length (lines_text (l # ls)) - 2)"
  using search_head_end [OF assms, of body] by (simp add: strstr_def Let_def)

lemma std_search_occurrence: "pat \<noteq> [] \<Longrightarrow> std_search pat (u @ pat @ v) \<le> length u"
  using std_search_first [of "length u" pat "u @ pat @ v"] by (cases "std_search pat (u @ pat @ v) \<le> length u") auto

text \<open>The loop over the header lines inserts the fields in order and stops at the empty line.\<close>

lemma field_loop_headers:
  assumes "list_all field_ok hs" and "req = pre @ concat (map render_header hs) @ crlf @ body"
    and "nTotalLen \<ge> int (length pre + length (concat (map render_header hs)) + 2)"
  shows "field_loop req nTotalLen (length pre) m
    = (insert_all hs m, length pre + length (concat (map render_header hs)))"
  using assms
proof (induction hs arbitrary: pre m)
  case Nil
  then have "take 2 (drop (length pre) req) = crlf" by (simp add: crlf_def)
  then show ?case by (subst field_loop.simps) simp
next
  case (Cons kv hs)
  obtain k v where kv: "kv = (k, v)" by (cases kv)
  from Cons.prems(1) kv have ok: "CHR '':'' \<notin> set k" "CR \<notin> set k" "CR \<notin> set v" by (auto simp: field_ok_def)
  let ?l = "k @ '': '' @ v" and ?rest = "concat (map render_header hs) @ crlf @ body"
  have d: "drop (length pre) req = ?l @ crlf @ ?rest"
    by (simp add: Cons.prems(2) kv render_header_line)
  have nc: "take 2 (drop (length pre) req) \<noteq> crlf"
    unfolding d using ok by (cases k) (auto simp: crlf_def)
  have len: "length pre + length ?l + 2 + length (concat (map render_header hs))
      = length pre + length (concat (map render_header (kv # hs)))"
    by (simp add: kv render_header_line)
  define n l where "n = length ?l" and "l = ?l"
  have s1: "strstr (drop (length pre) req) crlf = Some n"
    unfolding d n_def by (rule strstr_first) (use ok in \<open>simp_all add: crlf_def\<close>)
  have s2: "strstr l '': '' = Some (length k)" "take (length k) l = k" "drop (length k + 2) l = v"
    unfolding l_def by (rule strstr_first) (use ok in simp_all)
  have t: "take n (drop (length pre) req) = l" unfolding d n_def l_def by simp
  have "\<not> int (length pre) > nTotalLen - 4"
    using Cons.prems(3) by (simp add: kv render_header_line)
  then have "field_loop req nTotalLen (length pre) m
      = field_loop req nTotalLen (length pre + n + 2) (map_insert_new k v m)"
    using nc by (subst field_loop.simps) (simp add: s1 t s2 Let_def del: add_2_eq_Suc')
  also have "\<dots> = field_loop req nTotalLen (length (pre @ ?l @ crlf)) (map_insert_new k v m)"
    by (simp add: crlf_def n_def)
  also have "\<dots> = (insert_all hs (map_insert_new k v m),
      length (pre @ ?l @ crlf) + length (concat (map render_header hs)))"
    using Cons.prems len by (intro Cons.IH) (simp_all add: kv render_header_line)
  finally show ?case using len by (simp add: kv)
qed

section \<open>Responses\<close>

definition util_fields :: "string \<Rightarrow> string \<Rightarrow> (string \<times> string) list" where
  "util_fields content ct =
     [(''Content-Length'', show_nat (length content)), (''Content-Type'', ct), (''Connection'', ''Keep-Alive'')]"

definition util_head :: "string \<Rightarrow> string \<Rightarrow> string" where
  "util_head content ct = ''HTTP/1.1 200 OK'' @ crlf @ concat (map render_header (util_fields content ct)) @ crlf"

definition content_ok :: "string \<Rightarrow> string \<Rightarrow> bool" where
  "content_ok content ct \<longleftrightarrow> NUL \<notin> set content \<and> length content < 2 ^ 31 - 8192
     \<and> NUL \<notin> set ct \<and> CR \<notin> set ct \<and> length ct \<le> 4000"

lemma length_util_head:
  assumes "content_ok content ct"
  shows "length (util_head content ct) = 77 + length (show_nat (length content)) + length ct"
    "length (show_nat (length content)) \<le> 10" "length (util_head content ct) < 4096"
proof -
  show h: "length (util_head content ct) = 77 + length (show_nat (length content)) + length ct"
    by (simp add: util_head_def util_fields_def render_header_line)
  show n: "length (show_nat (length content)) \<le> 10"
    using assms by (intro length_show_nat_le) (simp_all add: content_ok_def)
  show "length (util_head content ct) < 4096"
    using h n assms by (simp add: content_ok_def)
qed

lemma make_string_eq:
  assumes "content_ok content ct"
  shows "CHttpResponseMaker_make_string content ct = Inr (util_head content ct @ content)"
proof -
  let ?n = "int (length content)"
  have n: "?n < 2 ^ 31 - 8192" "NUL \<notin> set content" "NUL \<notin> set ct" "length ct \<le> 4000"
    using assms by (simp_all add: content_ok_def)
  have i: "int32 ?n = ?n" "int32 (4096 + ?n) = 4096 + ?n" using n(1) by simp_all
  have nul: "NUL \<notin> set (util_head content ct)"
    using n(3) show_nat_digits [of NUL "length content"]
    by (auto simp: util_head_def util_fields_def render_header_line crlf_def)
  have h: "''HTTP/1.1 200 OK'' @ crlf @ ''Content-Length: '' @ show_int ?n @ crlf
           @ ''Content-Type: '' @ c_str ct @ crlf @ ''Connection: Keep-Alive'' @ crlf @ crlf = util_head content ct"
    using n(3) by (simp add: util_head_def util_fields_def render_header_line show_int_def)
  have sp: "sprintf_to (4096 + ?n) (util_head content ct) = Inr (util_head content ct)"
    using length_util_head(3) [OF assms] by (simp add: sprintf_to_def)
  have "CHttpResponseMaker_make (content @ [NUL]) ?n (4096 + ?n) ct
      = Inr (int (length (util_head content ct @ content)), util_head content ct @ content)"
    using length_util_head(3) [OF assms] nul n(2)
    unfolding CHttpResponseMaker_make_def h sp by (cases "content = []") (simp_all add: Let_def)
  moreover have "CHttpBuffer_new (4096 + ?n) = Inr \<lparr>buf = [], buf_size = 4096 + ?n\<rparr>"
    by (simp add: CHttpBuffer_new_def)
  ultimately show ?thesis
    using nul n(2) by (simp add: CHttpResponseMaker_make_string_def i)
qed

lemma util_head_lines:
  "util_head content ct @ body = lines_text (''HTTP/1.1 200 OK'' # map (\<lambda>(k, v). k @ '': '' @ v) (util_fields content ct)) @ crlf @ body"
  unfolding util_head_def lines_text_simps lines_text_headers by simp

text \<open>A prefix that ends before the first occurrence of a pattern does has no occurrence of it.\<close>

lemma strstr_prefix:
  assumes "strstr s pat = Some n" and "k < n + length pat" and "pat \<noteq> []"
  shows "strstr (take k s) pat = None"
proof (rule ccontr)
  assume "strstr (take k s) pat \<noteq> None"
  then obtain u v where d: "take k s = u @ pat @ v"
    using strstr_None [OF assms(3), of "take k s"] by auto
  then have "s = u @ pat @ (v @ drop k s)" by (metis append.assoc append_take_drop_id)
  then have "std_search pat s \<le> length u" using std_search_occurrence [of pat u] assms(3) by metis
  moreover have "std_search pat s = n" using assms(1) by (simp add: strstr_def Let_def split: if_splits)
  moreover have "length u + length pat \<le> k" using arg_cong [OF d, of length] by simp
  ultimately show False using assms(2) by linarith
qed

lemma head_end_response:
  assumes "content_ok content ct"
  shows "strstr (util_head content ct @ body) (crlf @ crlf) = Some (length (util_head content ct) - 4)"
proof -
  let ?ls = "map (\<lambda>(k, v). k @ '': '' @ v) (util_fields content ct)"
  have "\<forall>x\<in>set ?ls. CR \<notin> set x \<and> x \<noteq> []"
    using assms show_nat_digits [of CR "length content"] by (auto simp: util_fields_def content_ok_def)
  then have "strstr (util_head content ct @ body) (crlf @ crlf) = Some (length (lines_text (''HTTP/1.1 200 OK'' # ?ls)) - 2)"
    unfolding util_head_lines by (intro strstr_head_end) simp_all
  moreover have "length (util_head content ct) = length (lines_text (''HTTP/1.1 200 OK'' # ?ls)) + 2"
    using util_head_lines [of content ct "[]"] by (metis append_Nil2 length_append length_crlf)
  ultimately show ?thesis by simp
qed

lemma length_ex_response:
  assumes "content_ok content ct" and "NUL \<notin> set body"
  shows "CHttpLengthAnaly_get_length_ex (util_head content ct @ body) n pos len =
    Inr (let total = int (length (util_head content ct) + length content) in if n < total then 0 else total,
      int (length (util_head content ct)), int (length content))"
proof -
  let ?u = "''HTTP/1.1 200 OK'' @ crlf" and ?p = "''Content-Length: ''"
  let ?d = "show_nat (length content)"
  define tail where "tail = concat (map render_header [(''Content-Type'', ct), (''Connection'', ''Keep-Alive'')]) @ crlf @ body"
  define data where "data = util_head content ct @ body"
  have d: "data = ?u @ ?p @ ?d @ crlf @ tail"
    by (simp add: data_def tail_def util_head_def util_fields_def render_header_line)
  have nul: "c_str data = data"
    using assms show_nat_digits [of NUL "length content"]
    by (intro c_str_id) (auto simp: data_def util_head_def util_fields_def render_header_line crlf_def content_ok_def)
  have s1: "strstr data ?p = Some 17"
    using strstr_first [of ?p ?u "?d @ crlf @ tail"] unfolding d by (simp add: crlf_def)
  have dr: "drop 33 data = ?d @ crlf @ tail"
    unfolding d by (simp add: crlf_def)
  have "CR \<notin> set ?d" using show_nat_digits [of CR "length content"] by auto
  then have s2: "strstr (drop 33 data) crlf = Some (length ?d)"
    unfolding dr by (intro strstr_first) (simp_all add: crlf_def)
  have tk: "take (length ?d) (drop 33 data) = ?d" unfolding dr by simp
  have at: "atoi ?d = Inr (int (length content))"
    using atoi_show_nat [of "length content" "[]"] assms(1) by (simp add: content_ok_def)
  have hd: "take 4 data \<noteq> ''GET ''" "take 5 data \<noteq> ''POST ''" "take 5 data = ''HTTP/''"
    by (simp_all add: d)
  note lh = length_util_head [OF assms(1)]
  have he: "strstr data (crlf @ crlf) = Some (length (util_head content ct) - 4)"
    unfolding data_def by (rule head_end_response [OF assms(1)])
  have pos: "int (length (util_head content ct) - 4) + 4 = int (length (util_head content ct))"
    using lh(1) by simp
  have small: "\<not> int (length (util_head content ct)) + int (length content) \<ge> 2 ^ 31"
    using assms(1) lh(3) by (simp add: content_ok_def)
  have "CHttpLengthAnaly_get_length_ex data n pos len =
    Inr (let total = int (length (util_head content ct) + length content) in if n < total then 0 else total,
      int (length (util_head content ct)), int (length content))"
    using small lh(2)
    by (simp add: CHttpLengthAnaly_get_length_ex_def nul hd he s1 s2 tk at pos HTTPUTIL_BUFFER_SIZE_def Let_def
        del: of_nat_diff)
  then show ?thesis by (simp add: data_def)
qed

section \<open>Query strings\<close>

text \<open>Characters that may stand in a query: the parser splits at the others, or refuses them.\<close>

definition plain :: "string \<Rightarrow> bool" where
  "plain s \<longleftrightarrow> NUL \<notin> set s \<and> CR \<notin> set s \<and> SP \<notin> set s \<and> CHR 0x27 \<notin> set s"

definition param_ok :: "string \<times> string \<Rightarrow> bool" where
  "param_ok kv \<longleftrightarrow> fst kv \<noteq> [] \<and> key_start (hd (fst kv)) \<and> CHR ''='' \<notin> set (fst kv) \<and> CHR ''&'' \<notin> set (fst kv)
     \<and> CHR ''&'' \<notin> set (snd kv) \<and> plain (fst kv) \<and> plain (snd kv)"

definition query_text :: "(string \<times> string) list \<Rightarrow> string" where
  "query_text ps = concat (map (\<lambda>(k, v). k @ ''='' @ v @ ''&'') ps)"

lemma query_text_simps [simp]:
  "query_text [] = []" "query_text ((k, v) # ps) = k @ ''='' @ v @ ''&'' @ query_text ps"
  by (simp_all add: query_text_def)

lemma query_text_plain: "list_all param_ok ps \<Longrightarrow> plain (query_text ps)"
  by (induction ps) (auto simp: param_ok_def plain_def)

lemma query_text_end:
  assumes "ps \<noteq> []"
  obtains u where "query_text ps = u @ ''&''" "list_all param_ok ps \<Longrightarrow> last u \<noteq> CHR ''&''" "u \<noteq> []"
proof -
  obtain ys k v where ps: "ps = ys @ [(k, v)]" using assms by (metis rev_exhaust surj_pair)
  let ?u = "query_text ys @ k @ ''='' @ v"
  have "query_text ps = ?u @ ''&''" by (simp add: ps query_text_def)
  moreover have "last ?u \<noteq> CHR ''&''" if "list_all param_ok ps"
    using that by (cases v rule: rev_cases) (auto simp: ps param_ok_def)
  ultimately show thesis using that [of ?u] by simp
qed

lemma param_loop_query:
  "list_all param_ok ps \<Longrightarrow> param_loop (query_text ps @ t) m = param_loop t (insert_all ps m)"
proof (induction ps arbitrary: m)
  case (Cons kv ps)
  obtain k v where kv: "kv = (k, v)" by (cases kv)
  from Cons.prems kv have ok: "k \<noteq> []" "key_start (hd k)" "CHR ''='' \<notin> set k" "CHR ''&'' \<notin> set k" "CHR ''&'' \<notin> set v"
    by (auto simp: param_ok_def)
  obtain c k' where c: "k = c # k'" using ok(1) by (cases k) auto
  define s where "s = query_text (kv # ps) @ t"
  have s: "s = k @ CHR ''='' # v @ CHR ''&'' # query_text ps @ t" by (simp add: s_def kv)
  then have s': "s = c # (k' @ CHR ''='' # v @ CHR ''&'' # query_text ps @ t)" by (simp add: c)
  have e: "strchr s CHR ''='' = Some (length k)" unfolding s by (rule strchr_eq(2) [OF ok(3)])
  have a: "strchr s CHR ''&'' = Some (length k + 1 + length v)"
    using strchr_eq(2) [of "CHR ''&''" "k @ CHR ''='' # v" "query_text ps @ t"] ok(4,5) unfolding s by simp
  have tk: "take (length k) s = k" "take (length v) (drop (length k + 1) s) = v"
    "drop (length k + 1 + length v + 1) s = query_text ps @ t"
    by (simp_all add: s)
  have "param_loop s m = param_loop (query_text ps @ t) (map_insert_new k v m)"
    using ok(2) c e a tk unfolding param_loop.simps [of s] by (simp add: s' Let_def)
  with Cons show ?case unfolding s_def [symmetric] by (simp add: kv)
qed simp

lemma param_loop_end: "param_loop [] m = Inr m"
  by (simp add: param_loop.simps)

lemma param_loop_missing_value:
  assumes "k \<noteq> []" and "key_start (hd k)" and "CHR ''='' \<notin> set k" and "CHR ''&'' \<notin> set k" and "CHR ''='' \<in> set rest"
  shows "param_loop (k @ ''&'' @ rest) m = Inl OutOfBounds"
proof -
  obtain c k' where c: "k = c # k'" using assms(1) by (cases k) auto
  obtain u v where r: "rest = u @ CHR ''='' # v" "CHR ''='' \<notin> set u"
    using assms(5) by (metis split_list_first)
  define s where "s = k @ ''&'' @ rest"
  have s': "s = c # (k' @ ''&'' @ rest)" by (simp add: s_def c)
  have "strchr s CHR ''='' = Some (length k + 1 + length u)"
    using strchr_eq(2) [of "CHR ''=''" "k @ ''&'' @ u" v] assms(3) r by (simp add: s_def)
  moreover have "strchr s CHR ''&'' = Some (length k)"
    using strchr_eq(2) [of "CHR ''&''" k rest] assms(4) by (simp add: s_def)
  ultimately show ?thesis
    using assms(2) unfolding s_def [symmetric] param_loop.simps [of s] by (simp add: s' c)
qed

lemma parse_query:
  assumes "list_all param_ok ps" and "ps \<noteq> []"
    and "length (query_text ps) < 32768"
  shows "CHttpParamParser_parse junk (butlast (query_text ps)) (int (length (butlast (query_text ps))))
    = Inr (insert_all ps [])"
proof -
  obtain u where u: "query_text ps = u @ ''&''" "last u \<noteq> CHR ''&''" "u \<noteq> []"
    using query_text_end [OF assms(2)] assms(1) by metis
  obtain k v ps' where ps: "ps = (k, v) # ps'" using assms(2) by (cases ps) auto
  obtain c k' where c: "k = c # k'" "c \<noteq> CHR ''&''"
    using assms(1) by (cases k) (auto simp: ps param_ok_def)
  have "hd u = c" using u(1,3) by (cases u) (auto simp: ps c)
  moreover have "NUL \<notin> set u"
    using query_text_plain [OF assms(1)] by (auto simp: plain_def u)
  ultimately show ?thesis
    using u(2,3) c(2) param_loop_query [OF assms(1), of "[]" "[]"] assms(3)
    by (simp add: param_loop_end CHttpParamParser_parse_def Let_def u(1) Suc_le_eq)
qed

section \<open>Requests and responses\<close>

text \<open>Where the parser loops for ever, and where it fails.\<close>

lemma param_loop_fault: "param_loop q m = Inl e \<Longrightarrow> e = OutOfBounds"
proof (induction q m rule: param_loop.induct)
  case (1 q m)
  show ?case
  proof (cases q)
    case Nil
    with 1 show ?thesis by (simp add: param_loop.simps)
  next
    case (Cons c rest)
    from 1(3) have "(if \<not> key_start c then param_loop rest m
        else (case strchr q CHR ''='' of None \<Rightarrow> Inr m
          | Some v \<Rightarrow> (case strchr q CHR ''&'' of None \<Rightarrow> Inr m
             | Some n \<Rightarrow> if n < v + 1 then Inl OutOfBounds
                 else param_loop (drop (n + 1) q) (map_insert_new (take v q) (take (n - v - 1) (drop (v + 1) q)) m)))) = Inl e"
      unfolding param_loop.simps [of q] by (simp only: Cons Let_def list.case)
    with 1(1,2) Cons show ?thesis
      by (auto split: if_splits option.splits)
  qed
qed

lemma param_parse_fault: "CHttpParamParser_parse junk q n = Inl e \<Longrightarrow> e \<in> {OutOfBounds, IntegerOverflow, UncaughtException}"
  by (auto simp: CHttpParamParser_parse_def Let_def split: if_splits dest: param_loop_fault)

lemma parseFirstLine_hangs:
  assumes "10 \<le> length (c_str (m_bufFirstLine s))"
    and "take 4 (m_bufFirstLine s) = ''GET '' \<or> take 5 (m_bufFirstLine s) = ''POST '' \<or> take 5 (m_bufFirstLine s) = ''HTTP/''"
    and "length (m_bufFirstLine s) < 32767"
  shows "CHttpParser_parseFirstLine s = Inl e \<longleftrightarrow> e = InfiniteLoop \<and> strstr (c_str (m_bufFirstLine s)) '' HTTP'' = None"
proof (cases "strstr (c_str (m_bufFirstLine s)) '' HTTP''")
  case None
  then have "CHttpParser_parseMethod mth t s = (False, s)" for mth t
    by (simp add: CHttpParser_parseMethod_def)
  with None assms(1,3) show ?thesis
    by (auto simp: CHttpParser_parseFirstLine_def HTTPUTIL_BUFFER_SIZE_def)
next
  case (Some n)
  then have m: "CHttpParser_parseMethod mth t s =
      (if take n' (m_bufFirstLine s) = mth
       then (True, s\<lparr>m_bufFirstLine := (m_bufFirstLine s)[n := NUL], m_nHttpMethod := t\<rparr>) else (False, s))"
    if "length mth = n'" for mth t n'
    using that by (simp add: CHttpParser_parseMethod_def)
  have "length ''GET '' = 4" "length ''POST '' = 5" "length ''HTTP/'' = 5" by simp_all
  from this [THEN m] Some assms show ?thesis
    by (auto simp: CHttpParser_parseFirstLine_def HTTPUTIL_BUFFER_SIZE_def split: option.splits)
qed

lemma length_ex_method:
  "CHttpLengthAnaly_get_length_ex data n pos len = Inr (tot, pos', len') \<Longrightarrow> 0 < tot \<Longrightarrow>
   take 4 data = ''GET '' \<or> take 5 data = ''POST '' \<or> take 5 data = ''HTTP/''"
  by (auto simp: CHttpLengthAnaly_get_length_ex_def Let_def split: if_splits)

text \<open>A prefix of a response, which ends in the head or behind it.\<close>

lemma length_of_prefix:
  assumes "content_ok content ct" and "NUL \<notin> set rest" and "5 \<le> k" and "k \<le> length (util_head content ct @ content @ rest)"
  shows "CHttpLengthAnaly_get_length (take k (util_head content ct @ content @ rest)) (int k)
    = Inr (if length (util_head content ct @ content) \<le> k then int (length (util_head content ct @ content)) else 0)"
proof -
  let ?h = "util_head content ct"
  define data where "data = take k (?h @ content @ rest)"
  have nul: "NUL \<notin> set (?h @ content @ rest)"
    using assms(1,2) show_nat_digits [of NUL "length content"]
    by (auto simp: content_ok_def util_head_def util_fields_def render_header_line crlf_def)
  show ?thesis
  proof (cases "length ?h \<le> k")
    case True
    then have "data = ?h @ take (k - length ?h) (content @ rest)" by (simp add: data_def)
    moreover have "NUL \<notin> set (take (k - length ?h) (content @ rest))"
      using nul by (auto dest: in_set_takeD)
    ultimately show ?thesis
      using length_ex_response [OF assms(1), of "take (k - length ?h) (content @ rest)" "int k" 0 0]
      by (simp add: CHttpLengthAnaly_get_length_def Let_def data_def)
  next
    case False
    have c: "c_str data = data" unfolding data_def by (intro c_str_id) (use nul in \<open>auto dest: in_set_takeD\<close>)
    have "k < length ?h - 4 + length (crlf @ crlf)"
      using False length_util_head(1) [OF assms(1)] by simp
    then have "strstr data (crlf @ crlf) = None"
      unfolding data_def by (rule strstr_prefix [OF head_end_response [OF assms(1)]]) (simp add: crlf_def)
    moreover have "take 5 data = ''HTTP/''" "take 4 data = ''HTTP''"
      using assms(3) by (simp_all add: data_def util_head_def min_def)
    ultimately show ?thesis
      unfolding data_def [symmetric]
      using False by (simp add: CHttpLengthAnaly_get_length_def CHttpLengthAnaly_get_length_ex_def c)
  qed
qed

lemma read_response_util:
  assumes "content_ok content ct"
  shows "read_response (util_head content ct @ content) = Some (''HTTP/1.1 200 OK'', util_fields content ct, content)"
proof -
  have "list_all field_ok (util_fields content ct)"
    using assms show_nat_digits [of CR "length content"] by (auto simp: util_fields_def field_ok_def content_ok_def)
  moreover have "split_line (util_head content ct @ content)
      = Some (''HTTP/1.1 200 OK'', concat (map render_header (util_fields content ct)) @ crlf @ content)"
    unfolding util_head_def using split_line_line [of "''HTTP/1.1 200 OK''"] by (simp add: crlf_def)
  ultimately show ?thesis by (simp add: read_response_def read_headers_fields)
qed

lemma hangs_on_complete:
  assumes "check_security data" and "strstr (c_str data) crlf = Some p" and "p < 32767"
    and "CHttpLengthAnaly_get_length_ex data n 0 (m_nContentLen s) = Inr (tot, pos, len)" and "0 < tot"
  shows "CHttpParser_parse junk data n t s = Inl InfiniteLoop
    \<longleftrightarrow> 10 \<le> p \<and> strstr (take p data) '' HTTP'' = None"
proof -
  let ?line = "take p data"
  have le: "p \<le> length (c_str data)"
    using assms(2) std_search_le [of crlf "c_str data"] by (auto simp: strstr_def Let_def split: if_splits)
  have "c_str data = take (length (c_str data)) data"
    unfolding c_str_def by (rule takeWhile_eq_take)
  then have "take p (c_str data) = ?line" using le by (metis min.absorb1 take_take)
  then have c: "c_str ?line = ?line" "length ?line = p"
    using le by (metis c_str_id c_str_no_NUL in_set_takeD, metis length_take min.absorb2)
  have cut: "take 32767 ?line = ?line" using assms(3) c(2) by simp
  define s1 where "s1 = s\<lparr>m_nExtraParamType := t, m_nContentLen := len\<rparr>"
  obtain s2 where s2: "CHttpParser_parseField data tot s1 = (True, s2)" "m_bufFirstLine s2 = ?line"
    using assms(2) cut
    by (cases "field_loop (c_str data) tot (p + 2) (m_mapFields s1)")
      (auto simp: CHttpParser_parseField_def HTTPUTIL_BUFFER_SIZE_def Let_def)
  have parse: "CHttpParser_parse junk data n t s = Inl InfiniteLoop \<longleftrightarrow> CHttpParser_parseFirstLine s2 = Inl InfiniteLoop"
    using assms(1,4,5) s2(1) param_parse_fault [of junk _ _ InfiniteLoop]
    by (auto simp: CHttpParser_parse_def Let_def s1_def andThen_def split: sum.splits prod.splits option.splits if_splits)
  show ?thesis
  proof (cases "10 \<le> p")
    case True
    have "take 4 ?line = take 4 data" "take 5 ?line = take 5 data" using True by simp_all
    with length_ex_method [OF assms(4,5)] parseFirstLine_hangs [of s2 InfiniteLoop] True c s2(2) assms(3)
    show ?thesis unfolding parse by simp
  next
    case False
    then have "CHttpParser_parseFirstLine s2 = Inr (False, s2)"
      using c s2(2) assms(3) by (simp add: CHttpParser_parseFirstLine_def HTTPUTIL_BUFFER_SIZE_def)
    with False show ?thesis unfolding parse by simp
  qed
qed

text \<open>A message that is refused or incomplete, and a first line that is missing or does not fit.\<close>

lemma length_ex_fault: "CHttpLengthAnaly_get_length_ex data n pos len = Inl e \<Longrightarrow> e \<noteq> InfiniteLoop"
  by (auto simp: CHttpLengthAnaly_get_length_ex_def atoi_def andThen_def Let_def split: if_splits option.splits sum.splits prod.splits)

lemma returns_on_incomplete:
  assumes "\<not> (check_security data \<and> (\<exists>tot pos len.
    CHttpLengthAnaly_get_length_ex data n 0 (m_nContentLen s) = Inr (tot, pos, len) \<and> 0 < tot))"
  shows "CHttpParser_parse junk data n t s \<noteq> Inl InfiniteLoop"
proof (cases "CHttpLengthAnaly_get_length_ex data n 0 (m_nContentLen s)")
  case (Inl e)
  with length_ex_fault [OF Inl] show ?thesis by (simp add: CHttpParser_parse_def Let_def)
next
  case (Inr r)
  obtain tot pos len where "r = (tot, pos, len)" by (cases r)
  with assms Inr show ?thesis by (auto simp: CHttpParser_parse_def Let_def)
qed

lemma returns_on_long_line:
  assumes "check_security data" and "CHttpLengthAnaly_get_length_ex data n 0 (m_nContentLen s) = Inr (tot, pos, len)"
    and "0 < tot" and "\<nexists>p. strstr (c_str data) crlf = Some p \<and> p < 32767"
  shows "CHttpParser_parse junk data n t s \<noteq> Inl InfiniteLoop"
proof (cases "strstr (c_str data) crlf")
  case None
  with assms(1-3) show ?thesis by (simp add: CHttpParser_parse_def CHttpParser_parseField_def Let_def)
next
  case (Some p)
  then have "p \<le> length (c_str data)" "\<not> p < 32767"
    using assms(4) std_search_le [of crlf "c_str data"] by (auto simp: strstr_def Let_def split: if_splits)
  moreover have "length (c_str data) \<le> length data" unfolding c_str_def by (rule length_takeWhile_le)
  ultimately have l: "length (take 32767 (take p data)) = 32767" by simp
  define s1 where "s1 = s\<lparr>m_nExtraParamType := t, m_nContentLen := len\<rparr>"
  obtain s2 where s2: "CHttpParser_parseField data tot s1 = (True, s2)" "m_bufFirstLine s2 = take 32767 (take p data)"
    using Some
    by (cases "field_loop (c_str data) tot (p + 2) (m_mapFields s1)")
      (auto simp: CHttpParser_parseField_def HTTPUTIL_BUFFER_SIZE_def Let_def)
  have "CHttpParser_parseFirstLine s2 = Inl OutOfBounds"
    using l s2(2) by (simp add: CHttpParser_parseFirstLine_def HTTPUTIL_BUFFER_SIZE_def)
  with assms(1-3) s2(1) show ?thesis by (simp add: CHttpParser_parse_def Let_def s1_def)
qed

text \<open>The parser and the responses of \<open>CHttpResponseMaker\<close>.\<close>

lemma CHttpParser_hangs_on_response:
  assumes "content_ok content ct" and "CHR 0x27 \<notin> set content" and "CHR 0x27 \<notin> set ct"
    and "CHttpResponseMaker_make_string content ct = Inr resp"
  shows "CHttpParser_parse junk resp (int (length resp)) t CHttpParser_new = Inl InfiniteLoop"
proof -
  define tl where "tl = concat (map render_header (util_fields content ct)) @ crlf @ content"
  have r: "resp = util_head content ct @ content" using assms(4) make_string_eq [OF assms(1)] by simp
  then have resp: "resp = ''HTTP/1.1 200 OK'' @ crlf @ tl" by (simp add: util_head_def tl_def)
  have "NUL \<notin> set resp" "CHR 0x27 \<notin> set resp"
    using assms(1-3) show_nat_digits [of NUL "length content"] show_nat_digits [of "CHR 0x27" "length content"]
    by (auto simp: resp tl_def crlf_def util_fields_def render_header_line content_ok_def)
  then have c: "c_str resp = resp" and sec: "check_security resp"
    by (simp_all add: check_security_def strchr_eq)
  have line: "strstr (c_str resp) crlf = Some 15"
    unfolding c unfolding resp using strstr_first [of crlf "''HTTP/1.1 200 OK''" tl] by (simp add: crlf_def)
  have nul: "NUL \<notin> set content" using assms(1) by (simp add: content_ok_def)
  have len: "CHttpLengthAnaly_get_length_ex resp (int (length resp)) 0 (m_nContentLen CHttpParser_new)
      = Inr (int (length resp), int (length (util_head content ct)), int (length content))"
    using length_ex_response [OF assms(1) nul, of "int (length resp)" 0 0] by (simp add: r CHttpParser_new_def)
  have "0 < int (length resp)" by (simp add: resp)
  from hangs_on_complete [OF sec line _ len this] show ?thesis by (simp add: resp strstr_def)
qed

section \<open>Properties\<close>

text \<open>
  C30. Framing of responses. For content of less than \<open>2 ^ 31 - 8192\<close> bytes and a content type, both without NUL, the type without CR
  and of at most 4000 characters:
  of the bytes of the response that \<open>CHttpResponseMaker::make_string\<close> has made, with anything without NUL behind them,
  the first \<open>k\<close> (at least five) are recognised as an incomplete message as
  long as the response is not complete, and from then on as a message of exactly its length; and
  a client reads back the fields and the content. (Content with a NUL is cut off there by \<open>make_string\<close>, while
  \<open>Content-Length\<close> announces all of it, so such a response stays incomplete. The pages for 404 and 302 are made by other
  functions.)
\<close>

theorem CHttpResponse_framing:
  assumes "NUL \<notin> set content" and "length content < 2 ^ 31 - 8192"
    and "NUL \<notin> set ct" and "CR \<notin> set ct" and "length ct \<le> 4000"
    and "NUL \<notin> set rest" and "5 \<le> k" and "k \<le> length (util_head content ct @ content @ rest)"
  shows "\<exists>resp. CHttpResponseMaker_make_string content ct = Inr resp
    \<and> CHttpLengthAnaly_get_length (take k (resp @ rest)) (int k)
        = Inr (if length resp \<le> k then int (length resp) else 0)
    \<and> read_response resp = Some (''HTTP/1.1 200 OK'', util_fields content ct, content)"
proof -
  have c: "content_ok content ct" using assms(1-5) by (simp add: content_ok_def)
  show ?thesis
    using make_string_eq [OF c] length_of_prefix [OF c assms(6-8)] read_response_util [OF c] by simp
qed

text \<open>
  C31. When the parser never returns: exactly on a message without an apostrophe (\<open>check_security\<close> refuses the
  others) that is complete, and whose first line has at least ten and fewer than 32767 characters and nowhere \<open> HTTP\<close>,
  with a space in front; the loop over the methods has no other exit. So a client can hang a server with
  \<open>GET /index.html\<close> and two line ends, and \<open>CHttpParser\<close> loops for ever on the responses that \<open>CHttpResponseMaker\<close> makes of
  content without an apostrophe, see \<open>CHttpParser_hangs_on_response\<close>.
\<close>

theorem CHttpParser_hangs_iff:
  "CHttpParser_parse junk data n t s = Inl InfiniteLoop \<longleftrightarrow>
     check_security data
     \<and> (\<exists>tot pos len. CHttpLengthAnaly_get_length_ex data n 0 (m_nContentLen s) = Inr (tot, pos, len) \<and> 0 < tot)
     \<and> (\<exists>p. strstr (c_str data) crlf = Some p \<and> 10 \<le> p \<and> p < 32767 \<and> strstr (take p data) '' HTTP'' = None)"
proof (cases "check_security data \<and> (\<exists>tot pos len.
    CHttpLengthAnaly_get_length_ex data n 0 (m_nContentLen s) = Inr (tot, pos, len) \<and> 0 < tot)")
  case False
  moreover have "CHttpParser_parse junk data n t s \<noteq> Inl InfiniteLoop" using returns_on_incomplete [OF False] .
  ultimately show ?thesis by blast
next
  case True
  then obtain tot pos len where l: "check_security data"
    "CHttpLengthAnaly_get_length_ex data n 0 (m_nContentLen s) = Inr (tot, pos, len)" "0 < tot" by blast
  show ?thesis
  proof (cases "\<exists>p. strstr (c_str data) crlf = Some p \<and> p < 32767")
    case True
    then obtain p where p: "strstr (c_str data) crlf = Some p" "p < 32767" by blast
    from hangs_on_complete [OF l(1) p l(2,3), of junk t] l p show ?thesis by auto
  next
    case False
    with returns_on_long_line [OF l, of junk t] l show ?thesis by (auto simp: not_less)
  qed
qed

text \<open>
  A query with a key without a value crashes the parser. If behind any number of good pairs
  there is a key that is closed by \<open>&\<close> before an equals sign, and an equals sign follows later, then
  the length of its value is negative and \<open>memcpy\<close> leaves the buffer; \<open>a&b=1\<close> is such a query.
\<close>

theorem CHttpParamParser_missing_value_crashes:
  assumes "list_all param_ok ps" and "k \<noteq> []" and "key_start (hd k)" and "CHR ''='' \<notin> set k" and "CHR ''&'' \<notin> set k"
    and "CHR ''='' \<in> set rest" and "NUL \<notin> set (k @ rest)" and "length (query_text ps @ k @ ''&'' @ rest) < 32768"
  shows "CHttpParamParser_parse junk (query_text ps @ k @ ''&'' @ rest) (int (length (query_text ps @ k @ ''&'' @ rest)))
    = Inl OutOfBounds"
proof -
  define q where "q = query_text ps @ k @ ''&'' @ rest"
  have nul: "NUL \<notin> set q"
    using assms(7) query_text_plain [OF assms(1)] by (auto simp: q_def plain_def)
  have ne: "q \<noteq> []" by (simp add: q_def)
  have "hd q \<noteq> CHR ''&''"
    using assms(1-3) by (cases ps) (auto simp: q_def key_start_def param_ok_def)
  moreover have "param_loop q [] = Inl OutOfBounds"
    unfolding q_def param_loop_query [OF assms(1)] by (rule param_loop_missing_value [OF assms(2-6)])
  moreover have "param_loop (q @ ''&'') [] = Inl OutOfBounds"
    using param_loop_missing_value [OF assms(2-5), of "rest @ ''&''"] assms(6) param_loop_query [OF assms(1)]
    by (simp add: q_def)
  ultimately show ?thesis
    using nul ne assms(8) unfolding q_def [symmetric]
    by (simp add: CHttpParamParser_parse_def Let_def Suc_le_eq)
qed

section \<open>Examples\<close>

lemma sample_content_ok: "content_ok ''hi'' HTTP_CONTENT_TYPE_JSON"
  by (simp add: content_ok_def HTTP_CONTENT_TYPE_JSON_def)

definition sample_resp :: string where
  "sample_resp = util_head ''hi'' HTTP_CONTENT_TYPE_JSON @ ''hi''"

lemma length_sample_resp: "length sample_resp = 110"
  using length_util_head(1) [OF sample_content_ok] by (simp add: sample_resp_def HTTP_CONTENT_TYPE_JSON_def show_nat.simps)

theorem CHttpResponse_framing_witness:
  "CHttpLengthAnaly_get_length (take 40 (sample_resp @ ''HTTP'')) 40 = Inr 0
   \<and> CHttpLengthAnaly_get_length (take 112 (sample_resp @ ''HTTP'')) 112 = Inr 110"
  using CHttpResponse_framing [of "''hi''" HTTP_CONTENT_TYPE_JSON "''HTTP''" 40]
    CHttpResponse_framing [of "''hi''" HTTP_CONTENT_TYPE_JSON "''HTTP''" 112]
    sample_content_ok make_string_eq [OF sample_content_ok] length_sample_resp
  by (simp add: sample_resp_def content_ok_def)


theorem CHttpParamParser_missing_value_crashes_witness:
  "CHttpParamParser_parse NUL ''x=0&a&b=1'' 9 = Inl OutOfBounds"
  using CHttpParamParser_missing_value_crashes [of "[(''x'', ''0'')]" "''a''" "''b=1''" NUL]
  by (simp add: param_ok_def plain_def key_start_def less_eq_char_def)

end
