(* ===== verification/Http_Util_Requests.thy ===== *)
theory Http_Util_Requests
  imports Http_Util_Parser
begin

text \<open>
  The two halves of \<open>http/http_util.h\<close> together: the requests that \<open>CHttpGetMaker\<close> and
  \<open>CHttpPostMaker\<close> write are what \<open>CHttpParser\<close> reads. A \<open>GET\<close> request has its parameters in the
  first line, a \<open>POST\<close> request in its content, whose length is the first \<open>Content-Length\<close> in the message.
\<close>

section \<open>What the makers write\<close>

lemma print_params_eq:
  "print_params ps b = Inr x \<Longrightarrow> list_all param_ok ps \<Longrightarrow> x = b @ query_text ps"
proof (induction ps arbitrary: b)
  case (Cons kv ps)
  obtain k v where kv: "kv = (k, v)" by (cases kv)
  with Cons.prems(2) have "NUL \<notin> set k" "NUL \<notin> set v" by (auto simp: param_ok_def plain_def)
  with Cons.prems(1) kv have "print_params ps (b @ k @ ''='' @ v @ ''&'') = Inr x"
    by (auto simp: andThen_eq_Inr sprintf_to_def split: if_splits)
  from Cons.IH [OF this] Cons.prems(2) show ?case by (simp add: kv)
qed simp

definition params_maker :: "(string \<times> string) list \<Rightarrow> CHttpParamStringMaker" where
  "params_maker ps = fold (\<lambda>(k, v). add_param k v) ps CHttpParamStringMaker_new"

lemma params_maker_simps: "m_params (params_maker ps) = ps" "m_strParamLines (params_maker ps) = []"
proof -
  have "m_params (fold (\<lambda>(k, v). add_param k v) ps m) = m_params m @ ps
    \<and> m_strParamLines (fold (\<lambda>(k, v). add_param k v) ps m) = m_strParamLines m" for m :: CHttpParamStringMaker
    by (induction ps arbitrary: m) (auto simp: add_param_def)
  then show "m_params (params_maker ps) = ps" "m_strParamLines (params_maker ps) = []"
    by (simp_all add: params_maker_def CHttpParamStringMaker_new_def)
qed

definition get_fields :: "string \<Rightarrow> 16 word \<Rightarrow> (string \<times> string) list" where
  "get_fields host nPort = [(''Host'', host @ port_text nPort), (''Connection'', ''Keep-Alive''),
     (''Accept'', ''*/*''), (''User-Agent'', ''http_util'')]"

definition get_line :: "string \<Rightarrow> string \<Rightarrow> string" where
  "get_line uri q = ''GET '' @ uri @ ''?'' @ q @ '' HTTP/1.1''"

definition host_ok :: "string \<Rightarrow> bool" where
  "host_ok host \<longleftrightarrow> NUL \<notin> set host \<and> CR \<notin> set host \<and> CHR 0x27 \<notin> set host"

lemma show_nat_safe: "\<not> isdigit c \<Longrightarrow> c \<notin> set (show_nat n)"
  using isdigit_show_nat [of n] by (auto simp: list_all_iff)

lemma port_text_safe: "NUL \<notin> set (port_text p)" "CR \<notin> set (port_text p)" "CHR 0x27 \<notin> set (port_text p)"
  by (auto simp: port_text_def isdigit_def dest!: show_nat_digits)

lemma GET_make_string_eq:
  assumes "CHttpMaker_GET_make_string host nPort uri (params_maker ps) = Inr req"
    and "list_all param_ok ps" and "ps \<noteq> []" and "host_ok host" and "NUL \<notin> set uri"
  shows "req = get_line uri (butlast (query_text ps)) @ crlf @ concat (map render_header (get_fields host nPort)) @ crlf"
    "length req < 32768"
proof -
  obtain u where u: "query_text ps = u @ ''&''" using query_text_end [OF assms(3)] by metis
  have nul: "NUL \<notin> set u" using query_text_plain [OF assms(2)] by (simp add: u plain_def)
  from assms(1) obtain q where q: "get_params (params_maker ps) = Inr q"
    "sprintf_to HTTPUTIL_BUFFER_SIZE (''GET '' @ c_str uri @ ''?'' @ c_str q @ '' HTTP/1.1'' @ crlf
           @ ''Host: '' @ c_str host @ port_text nPort @ crlf
           @ ''Connection: Keep-Alive'' @ crlf
           @ ''Accept: */*'' @ crlf
           @ ''User-Agent: http_util'' @ crlf @ crlf) = Inr req"
    by (auto simp: CHttpMaker_GET_make_string_def CHttpMaker_GET_make_def andThen_eq_Inr CHttpBuffer_new_def
        split: if_splits)
  from q(1) have "q = u"
    by (auto simp: get_params_def params_maker_simps andThen_eq_Inr u dest!: print_params_eq [OF _ assms(2)]
        split: if_splits)
  with q(2) nul assms(4,5)
  show "req = get_line uri (butlast (query_text ps)) @ crlf @ concat (map render_header (get_fields host nPort)) @ crlf"
    "length req < 32768"
    by (auto simp: sprintf_to_def get_line_def get_fields_def render_header_line u host_ok_def HTTPUTIL_BUFFER_SIZE_def
        split: if_splits)
qed

definition post_fields :: "string \<Rightarrow> 16 word \<Rightarrow> nat \<Rightarrow> (string \<times> string) list" where
  "post_fields host nPort n = [(''Host'', host @ port_text nPort),
     (''Content-type'', ''application/x-www-form-urlencoded; charset=UTF-8''),
     (''Content-Length'', show_nat n), (''Connection'', ''Keep-Alive'')]"

definition post_line :: "string \<Rightarrow> string" where
  "post_line uri = ''POST '' @ uri @ '' HTTP/1.1''"

lemma POST_make_string_eq:
  assumes "CHttpMaker_POST_make_string host nPort uri (params_maker ps) = Inr req"
    and "list_all param_ok ps" and "ps \<noteq> []" and "host_ok host" and "NUL \<notin> set uri"
  shows "req = post_line uri @ crlf
      @ concat (map render_header (post_fields host nPort (length (butlast (query_text ps))))) @ crlf @ butlast (query_text ps)"
    "length req < 32768"
proof -
  obtain u where u: "query_text ps = u @ ''&''" using query_text_end [OF assms(3)] by metis
  have nul: "NUL \<notin> set u" using query_text_plain [OF assms(2)] by (simp add: u plain_def)
  from assms(1) obtain q where q: "get_params (params_maker ps) = Inr q"
    "sprintf_to HTTPUTIL_BUFFER_SIZE (''POST '' @ c_str uri @ '' HTTP/1.1'' @ crlf
           @ ''Host: '' @ c_str host @ port_text nPort @ crlf
           @ ''Content-type: application/x-www-form-urlencoded; charset=UTF-8'' @ crlf
           @ ''Content-Length: '' @ show_int (int32 (int (length q))) @ crlf
           @ ''Connection: Keep-Alive'' @ crlf @ crlf @ c_str q) = Inr req"
    by (auto simp: CHttpMaker_POST_make_string_def CHttpMaker_POST_make_def andThen_eq_Inr CHttpBuffer_new_def
        split: if_splits)
  from q(1) have qu: "q = u"
    by (auto simp: get_params_def params_maker_simps andThen_eq_Inr u dest!: print_params_eq [OF _ assms(2)]
        split: if_splits)
  have "length u < 32768"
    using q(2) nul by (auto simp: sprintf_to_def HTTPUTIL_BUFFER_SIZE_def qu split: if_splits)
  then have "show_int (int32 (int (length u))) = show_nat (length u)" by (simp add: show_int_def)
  with q(2) nul assms(4,5)
  show "req = post_line uri @ crlf
      @ concat (map render_header (post_fields host nPort (length (butlast (query_text ps))))) @ crlf @ butlast (query_text ps)"
    "length req < 32768"
    by (auto simp: sprintf_to_def post_line_def post_fields_def render_header_line u qu host_ok_def HTTPUTIL_BUFFER_SIZE_def
        split: if_splits)
qed

section \<open>The first line\<close>

text \<open>Behind a target without spaces the first \<open> HTTP\<close> is the one of the version.\<close>

lemma strstr_version:
  assumes "SP \<notin> set m" and "SP \<notin> set u" and "hd u = CHR ''/''" and "u \<noteq> []"
  shows "strstr (m @ '' '' @ u @ '' HTTP/1.1'') '' HTTP'' = Some (length m + 1 + length u)"
proof -
  obtain v where v: "u = CHR ''/'' # v" using assms(3,4) by (cases u) auto
  have "strstr (u @ '' HTTP'' @ ''/1.1'') '' HTTP'' = Some (length u)"
    by (rule strstr_first) (use assms(2) in simp_all)
  then have "std_search '' HTTP'' (u @ '' HTTP/1.1'') = length u"
    by (simp add: strstr_def Let_def split: if_splits)
  then have "strstr ('' '' @ u @ '' HTTP/1.1'') '' HTTP'' = Some (Suc (length u))"
    by (simp add: strstr_def v)
  then show ?thesis
    using strstr_skip [of "'' HTTP''" m "'' '' @ u @ '' HTTP/1.1''"] assms(1) by simp
qed

text \<open>The first line of a \<open>GET\<close> request.\<close>

lemma parseFirstLine_GET:
  assumes "m_bufFirstLine s = get_line (CHR ''/'' # path) q" and "plain path" and "plain q" and "CHR ''?'' \<notin> set path"
    and "length (m_bufFirstLine s) < 32767"
  obtains s' a where "CHttpParser_parseFirstLine s = Inr (True, s')" "CHttpParser_get_uri s' = CHR ''/'' # path"
    "m_pszActParam s' = Some a" "CHttpParser_at a s' = q" "m_nHttpMethod s' = HTTP_UTIL_METHOD_GET" "m_mapFields s' = m_mapFields s"
    "m_pszContent s' = m_pszContent s" "m_nExtraParamType s' = m_nExtraParamType s"
proof -
  let ?uri = "CHR ''/'' # path"
  define u where "u = ?uri @ ''?'' @ q"
  define line where "line = get_line ?uri q"
  have line: "line = ''GET '' @ u @ '' HTTP/1.1''" by (simp add: line_def get_line_def u_def)
  have nul: "NUL \<notin> set u" and sp: "SP \<notin> set u" using assms(2,3) by (auto simp: u_def plain_def)
  have c: "c_str line = line" using nul by (intro c_str_id) (simp add: line)
  have e: "strstr line '' HTTP'' = Some (4 + length u)"
    using strstr_version [of "''GET''" u] sp by (simp add: line u_def)
  let ?line' = "line[4 + length u := NUL]"
  have l': "?line' = ''GET '' @ u @ NUL # ''HTTP/1.1''"
    by (simp add: line list_update_append)
  have r: "drop 4 ?line' = u @ NUL # ''HTTP/1.1''" unfolding l' by simp
  have cr: "c_str (drop 4 ?line') = u" unfolding r using nul by (simp add: c_str_append)
  have sq: "strchr u CHR ''?'' = Some (length ?uri)"
    using strchr_eq(2) [of "CHR ''?''" ?uri q] assms(4) by (simp add: u_def)
  let ?line'' = "?line'[4 + length ?uri := NUL]"
  have l'': "?line'' = (''GET '' @ ?uri) @ NUL # q @ NUL # ''HTTP/1.1''"
    unfolding l' unfolding u_def by (simp add: list_update_append)
  have "drop (4 + length ?uri + 1) ?line'' = q @ NUL # ''HTTP/1.1''"
    unfolding l'' drop_append by simp
  then have act: "c_str (drop (4 + length ?uri + 1) ?line'') = q"
    using assms(3) by (simp add: c_str_append plain_def)
  have "drop 4 ?line'' = ?uri @ NUL # q @ NUL # ''HTTP/1.1''"
    unfolding l'' by simp
  then have uri: "c_str (drop 4 ?line'') = ?uri"
    using assms(2) by (simp add: c_str_append plain_def)
  have m: "CHttpParser_parseMethod ''GET '' HTTP_UTIL_METHOD_GET s
      = (True, s\<lparr>m_bufFirstLine := ?line', m_nHttpMethod := HTTP_UTIL_METHOD_GET\<rparr>)"
    using assms(1) e c unfolding line_def [symmetric] by (simp add: CHttpParser_parseMethod_def line [symmetric]) (simp add: line)
  have len: "\<not> length (c_str (m_bufFirstLine s)) < 10"
    unfolding assms(1) line_def [symmetric] c by (simp add: line)
  define s' where "s' = s\<lparr>m_nHttpMethod := HTTP_UTIL_METHOD_GET, m_bufFirstLine := ?line'',
    m_pszActParam := Some (4 + length ?uri + 1), m_pszUri := Some 4\<rparr>"
  show thesis
  proof (rule that)
    show "CHttpParser_parseFirstLine s = Inr (True, s')"
      using len cr sq assms(5)
      by (simp add: CHttpParser_parseFirstLine_def CHttpParser_at_def m Let_def s'_def HTTPUTIL_BUFFER_SIZE_def)
    show "CHttpParser_get_uri s' = ?uri" "CHttpParser_at (4 + length ?uri + 1) s' = q"
      using act uri by (simp_all add: CHttpParser_get_uri_def CHttpParser_at_def s'_def)
  qed (simp_all add: s'_def)
qed

text \<open>The first line of a \<open>POST\<close> request.\<close>

lemma parseFirstLine_POST:
  assumes "m_bufFirstLine s = post_line (CHR ''/'' # path)" and "plain path" and "CHR ''?'' \<notin> set path"
    and "length (m_bufFirstLine s) < 32767"
  obtains s' where "CHttpParser_parseFirstLine s = Inr (True, s')" "CHttpParser_get_uri s' = CHR ''/'' # path"
    "m_pszActParam s' = m_pszActParam s" "m_nHttpMethod s' = HTTP_UTIL_METHOD_POST" "m_mapFields s' = m_mapFields s"
    "m_pszContent s' = m_pszContent s" "m_nContentLen s' = m_nContentLen s" "m_nExtraParamType s' = m_nExtraParamType s"
proof -
  let ?u = "CHR ''/'' # path"
  define line where "line = post_line ?u"
  have line: "line = ''POST '' @ ?u @ '' HTTP/1.1''" by (simp add: line_def post_line_def)
  have nul: "NUL \<notin> set ?u" and sp: "SP \<notin> set ?u" using assms(2) by (auto simp: plain_def)
  have c: "c_str line = line" using nul by (intro c_str_id) (simp add: line)
  have e: "strstr line '' HTTP'' = Some (5 + length ?u)"
    using strstr_version [of "''POST''" ?u] sp by (simp add: line)
  let ?line' = "line[5 + length ?u := NUL]"
  have l': "?line' = ''POST '' @ ?u @ NUL # ''HTTP/1.1''"
    by (simp add: line list_update_append)
  have "drop 5 ?line' = ?u @ NUL # ''HTTP/1.1''" unfolding l' by simp
  then have cr: "c_str (drop 5 ?line') = ?u" using c_str_append [OF nul, of "NUL # ''HTTP/1.1''"] by simp
  have sq: "strchr ?u CHR ''?'' = None" using assms(3) by (simp add: strchr_eq)
  define s' where "s' = s\<lparr>m_nHttpMethod := HTTP_UTIL_METHOD_POST, m_bufFirstLine := ?line', m_pszUri := Some 5\<rparr>"
  have g: "CHttpParser_parseMethod ''GET '' HTTP_UTIL_METHOD_GET s = (False, s)"
    using assms(1) unfolding line_def [symmetric] by (simp add: CHttpParser_parseMethod_def line)
  have "take (length ''POST '') line = ''POST ''" by (simp add: line)
  then have m: "CHttpParser_parseMethod ''POST '' HTTP_UTIL_METHOD_POST s
      = (True, s\<lparr>m_bufFirstLine := ?line', m_nHttpMethod := HTTP_UTIL_METHOD_POST\<rparr>)"
    using assms(1) e c unfolding line_def [symmetric] by (simp add: CHttpParser_parseMethod_def)
  have len: "\<not> length (c_str (m_bufFirstLine s)) < 10"
    unfolding assms(1) line_def [symmetric] c by (simp add: line)
  show thesis
  proof (rule that)
    show "CHttpParser_parseFirstLine s = Inr (True, s')"
      using len cr sq assms(4)
      by (simp add: CHttpParser_parseFirstLine_def CHttpParser_at_def g m Let_def s'_def HTTPUTIL_BUFFER_SIZE_def)
    show "CHttpParser_get_uri s' = ?u"
      using cr by (simp add: CHttpParser_get_uri_def CHttpParser_at_def s'_def)
  qed (simp_all add: s'_def)
qed

lemma get_message_plain:
  assumes "plain path" and "plain q" and "host_ok host"
  shows "c \<in> {NUL, CHR 0x27} \<Longrightarrow> c \<notin> set (get_line (CHR ''/'' # path) q @ crlf
      @ concat (map render_header (get_fields host nPort)) @ crlf)"
    "CR \<notin> set (get_line (CHR ''/'' # path) q)"
    "list_all field_ok (get_fields host nPort)"
  using assms port_text_safe [of nPort]
  by (auto simp: get_line_def get_fields_def render_header_line crlf_def plain_def host_ok_def field_ok_def)

section \<open>Complete messages\<close>

abbreviation head_text :: "string \<Rightarrow> (string \<times> string) list \<Rightarrow> string" where
  "head_text line hs \<equiv> line @ crlf @ concat (map render_header hs) @ crlf"

lemma strstr_head_text:
  assumes "CR \<notin> set line" and "list_all field_ok hs"
  shows "strstr (head_text line hs @ body) (crlf @ crlf) = Some (length (head_text line hs) - 4)"
proof -
  let ?ls = "map (\<lambda>(k, v). k @ '': '' @ v) hs"
  have r: "head_text line hs = lines_text (line # ?ls) @ crlf" unfolding lines_text_simps lines_text_headers by simp
  have "\<forall>x\<in>set ?ls. CR \<notin> set x \<and> x \<noteq> []"
    using assms(2) by (auto simp: list_all_iff field_ok_def)
  then show ?thesis unfolding r using strstr_head_end [OF assms(1), of ?ls body] by simp
qed

lemma parseField_request:
  assumes "CR \<notin> set line" and "list_all field_ok hs" and "NUL \<notin> set (head_text line hs @ body)" and "length line < 32768"
    and "tot = int (length (head_text line hs) + n)" and "m_mapFields s = []"
  shows "CHttpParser_parseField (head_text line hs @ body) tot s
    = (True, s\<lparr>m_bufFirstLine := line, m_mapFields := insert_all hs [],
        m_pszContent := (if n = 0 then m_pszContent s else Some body)\<rparr>)"
proof -
  define data where "data = head_text line hs @ body"
  have d: "data = line @ crlf @ concat (map render_header hs) @ crlf @ body" by (simp add: data_def)
  have c: "c_str data = data" using assms(3) by (simp add: data_def)
  have s1: "strstr data crlf = Some (length line)"
    unfolding d by (rule strstr_first) (use assms(1) in \<open>simp_all add: crlf_def\<close>)
  have fl: "take 32767 (take (length line) data) = line" using assms(4) unfolding d by simp
  have f: "field_loop data tot (length line + 2) [] = (insert_all hs [],
      length (line @ crlf) + length (concat (map render_header hs)))"
    using field_loop_headers [OF assms(2), of data "line @ crlf" body tot "[]"] assms(5) by (simp add: d)
  have "drop (length (head_text line hs)) data = body" unfolding data_def by simp
  then have dr: "drop (length line + 2 + length (concat (map render_header hs)) + 2) data = body"
    by (simp add: add.commute add.left_commute)
  show ?thesis
    unfolding data_def [symmetric]
    using fl f dr assms(5,6) by (simp add: CHttpParser_parseField_def c s1 HTTPUTIL_BUFFER_SIZE_def)
qed

text \<open>
  The first \<open>Content-Length: \<close> of a \<open>POST\<close> request is its own header field. A pattern that ends with
  its only space is searched for word by word.
\<close>

lemma search_word:
  assumes "SP \<notin> set p" and "p \<noteq> []" and "SP \<notin> set w" and "drop (length w - length p) w \<noteq> p"
  shows "std_search (p @ [SP]) (w @ SP # s) = length w + 1 + std_search (p @ [SP]) s"
  using assms(3,4)
proof (induction w)
  case Nil
  then show ?case using assms(1,2) by (cases p) auto
next
  case (Cons c w)
  have ne: "take (Suc (length p)) (c # w @ SP # s) \<noteq> p @ [SP]"
  proof
    assume "take (Suc (length p)) (c # w @ SP # s) = p @ [SP]"
    then have "(c # w) @ SP # s = p @ SP # drop (Suc (length p)) (c # w @ SP # s)"
      by (metis append.assoc append_Cons append_Nil append_take_drop_id)
    from arg_cong [OF this, of "takeWhile (\<lambda>x. x \<noteq> SP)"]
    have "takeWhile (\<lambda>x. x \<noteq> SP) ((c # w) @ SP # s) = p"
      using assms(1) by (subst (asm) takeWhile_append2 [of p]) auto
    moreover have "takeWhile (\<lambda>x. x \<noteq> SP) ((c # w) @ SP # s) = c # w"
      using Cons.prems(1) by (subst takeWhile_append2 [of "c # w"]) auto
    ultimately show False using Cons.prems(2) by simp
  qed
  have "drop (length w - length p) w \<noteq> p"
    using Cons.prems(2) by (cases "length p \<le> length w") (auto simp: Suc_diff_le)
  with Cons ne show ?case by simp
qed

lemma search_content_length:
  assumes "SP \<notin> set path" and "CHR '':'' \<notin> set path" and "SP \<notin> set host"
  obtains u where "head_text (post_line (CHR ''/'' # path)) (post_fields host nPort n) @ body
      = u @ ''Content-Length: '' @ show_nat n @ crlf @ ''Connection: Keep-Alive'' @ crlf @ crlf @ body"
    "\<And>v. std_search ''Content-Length: '' (u @ ''Content-Length: '' @ v) = length u"
proof -
  define p where "p = ''Content-Length:''"
  define w0 w1 w2 w3 w4 w5 where "w0 = ''POST''" and "w1 = CHR ''/'' # path" and "w2 = ''HTTP/1.1'' @ crlf @ ''Host:''"
    and "w3 = host @ port_text nPort @ crlf @ ''Content-type:''" and "w4 = ''application/x-www-form-urlencoded;''"
    and "w5 = ''charset=UTF-8'' @ crlf"
  note w = w0_def w1_def w2_def w3_def w4_def w5_def
  define u where "u = w0 @ SP # w1 @ SP # w2 @ SP # w3 @ SP # w4 @ SP # w5"
  have port: "SP \<notin> set (port_text nPort)"
    by (auto simp: port_text_def isdigit_def dest!: show_nat_digits)
  have "drop (length w1 - length p) w1 \<noteq> p"
  proof
    assume "drop (length w1 - length p) w1 = p"
    then have "CHR '':'' \<in> set w1" by (metis in_set_dropD list.set_intros p_def)
    then show False using assms(2) by (simp add: w1_def)
  qed
  then have ends: "drop (length x - length p) x \<noteq> p" if "x \<in> {w0, w1, w2, w3, w4}" for x
    using that by (auto simp: w p_def crlf_def)
  have safe: "SP \<notin> set x" if "x \<in> {w0, w1, w2, w3, w4}" for x
    using that assms(1,3) port by (auto simp: w crlf_def)
  have "std_search (p @ [SP]) (x @ SP # s) = length x + 1 + std_search (p @ [SP]) s" if "x \<in> {w0, w1, w2, w3, w4}" for x s
    by (rule search_word) (use safe [OF that] ends [OF that] in \<open>simp_all add: p_def\<close>)
  then have "std_search (p @ [SP]) (u @ t) = length u - length w5 + std_search (p @ [SP]) (w5 @ t)" for t
    by (simp add: u_def)
  moreover have "std_search (p @ [SP]) (w5 @ t) = length w5 + std_search (p @ [SP]) t" for t
    by (rule std_search_skip) (simp_all add: w5_def p_def crlf_def)
  ultimately have "std_search (p @ [SP]) (u @ (p @ [SP]) @ v) = length u + std_search (p @ [SP]) ((p @ [SP]) @ v)" for v
    by (simp add: u_def)
  then have s: "std_search ''Content-Length: '' (u @ ''Content-Length: '' @ v) = length u" for v
    by (simp add: p_def)
  show thesis
  proof (rule that [OF _ s])
    show "head_text (post_line (CHR ''/'' # path)) (post_fields host nPort n) @ body
      = u @ ''Content-Length: '' @ show_nat n @ crlf @ ''Connection: Keep-Alive'' @ crlf @ crlf @ body"
      by (simp add: u_def w post_line_def post_fields_def render_header_line)
  qed
qed

text \<open>The length of a request, with anything behind it.\<close>

lemma length_ex_GET:
  assumes "CR \<notin> set line" and "list_all field_ok hs" and "take 4 line = ''GET ''" and "NUL \<notin> set (head_text line hs @ body)"
    and "length (head_text line hs) < 32768" and "int (length (head_text line hs)) \<le> n"
  shows "CHttpLengthAnaly_get_length_ex (head_text line hs @ body) n pos len = Inr (int (length (head_text line hs)), 0, 0)"
proof -
  define h where "h = head_text line hs"
  have "4 \<le> length line" using arg_cong [OF assms(3), of length] by simp
  moreover have "take 4 (h @ body) = ''GET ''" using assms(3) calculation by (simp add: h_def)
  moreover have "strstr (h @ body) (crlf @ crlf) = Some (length h - 4)"
    unfolding h_def by (rule strstr_head_text [OF assms(1,2)])
  moreover have "4 \<le> length h" by (simp add: h_def)
  ultimately show ?thesis
    using assms(4-6) unfolding h_def [symmetric]
    by (simp add: CHttpLengthAnaly_get_length_ex_def Let_def del: length_append)
qed

lemma length_ex_POST:
  fixes path host nPort len
  defines "h \<equiv> head_text (post_line (CHR ''/'' # path)) (post_fields host nPort len)"
  assumes "plain path" and "CHR '':'' \<notin> set path" and "SP \<notin> set host" and "host_ok host" and "NUL \<notin> set body"
    and "length h + len < 32768" and "int (length h + len) \<le> n"
  shows "CHttpLengthAnaly_get_length_ex (h @ body) n pos l = Inr (int (length h + len), int (length h), int len)"
    "list_all field_ok (post_fields host nPort len)" "CR \<notin> set (post_line (CHR ''/'' # path))"
    "NUL \<notin> set h" "CHR 0x27 \<notin> set h" "CR \<notin> set (show_nat len)"
proof -
  let ?pat = "''Content-Length: ''" and ?line = "post_line (CHR ''/'' # path)" and ?hs = "post_fields host nPort len"
  define tail where "tail = crlf @ ''Connection: Keep-Alive'' @ crlf @ crlf @ body"
  have safe: "c \<notin> set (show_nat len)" if "c \<in> {NUL, CR, CHR 0x27}" for c
    using show_nat_safe [of c len] that by (auto simp: isdigit_def)
  then show cr: "CR \<notin> set (show_nat len)" by simp
  show nul: "NUL \<notin> set h" "CHR 0x27 \<notin> set h" and f: "list_all field_ok ?hs" and l: "CR \<notin> set ?line"
    using assms(2,5) port_text_safe [of nPort] safe
    by (auto simp: h_def post_line_def post_fields_def render_header_line crlf_def plain_def host_ok_def field_ok_def)
  have sp: "SP \<notin> set path" using assms(2) by (simp add: plain_def)
  define data where "data = h @ body"
  have c: "c_str data = data" using nul(1) assms(6) by (intro c_str_id) (auto simp: data_def)
  have he: "strstr data (crlf @ crlf) = Some (length h - 4)"
    unfolding data_def h_def by (rule strstr_head_text [OF l f])
  have h4: "4 \<le> length h" by (simp add: h_def)
  obtain u where u: "data = u @ ?pat @ show_nat len @ tail"
    "\<And>v. std_search ?pat (u @ ?pat @ v) = length u"
    using search_content_length [OF sp assms(3,4), of nPort len body] unfolding h_def [symmetric] data_def tail_def by blast
  have s1: "strstr data ?pat = Some (length u)"
    unfolding u(1) strstr_def u(2) by simp
  have d: "drop (length u + 16) data = show_nat len @ tail" unfolding u(1) by simp
  have s2: "strstr (show_nat len @ tail) crlf = Some (length (show_nat len))"
    using strstr_first [of crlf "show_nat len" "''Connection: Keep-Alive'' @ crlf @ crlf @ body"] cr by (simp add: tail_def crlf_def)
  have at: "atoi (show_nat len) = Inr (int len)"
    using atoi_show_nat [of len "[]"] assms(7) by simp
  have hd: "take 4 data \<noteq> ''GET ''" "take 5 data = ''POST ''"
    by (simp_all add: data_def h_def post_line_def)
  have n: "length (show_nat len) \<le> 10" using assms(7) by (intro length_show_nat_le) simp_all
  show "CHttpLengthAnaly_get_length_ex (h @ body) n pos l = Inr (int (length h + len), int (length h), int len)"
    unfolding data_def [symmetric] using n assms(7,8) h4
    by (simp add: CHttpLengthAnaly_get_length_ex_def c hd he s1 d s2 at Let_def HTTPUTIL_BUFFER_SIZE_def)
qed

text \<open>A complete request is parsed to its fields, its path and its parameters.\<close>

lemma param_parse_prefix:
  "CHttpParamParser_parse junk (q @ rest) (int (length q)) = CHttpParamParser_parse junk q (int (length q))"
  by (simp add: CHttpParamParser_parse_def)

lemma parse_GET:
  fixes path q hs
  defines "h \<equiv> head_text (get_line (CHR ''/'' # path) q) hs"
  assumes "list_all field_ok hs" and "plain path" and "plain q" and "CHR ''?'' \<notin> set path"
    and "NUL \<notin> set (h @ rest)" and "CHR 0x27 \<notin> set (h @ rest)" and "length h < 32768"
    and "CHttpParamParser_parse junk q (int (length q)) = Inr m"
  obtains p where
    "CHttpParser_parse junk (h @ rest) (int (length (h @ rest))) HTTP_UTIL_PARAM_ALL CHttpParser_new = Inr (int (length h), p)"
    "CHttpParser_get_http_method p = HTTP_UTIL_METHOD_GET" "CHttpParser_get_uri p = CHR ''/'' # path"
    "m_mapFields p = insert_all hs []" "m_paramParser p = m" "CHttpParser_get_param_string p = q"
proof -
  let ?line = "get_line (CHR ''/'' # path) q"
  have cr: "CR \<notin> set ?line" using assms(3,4) by (auto simp: get_line_def plain_def)
  have sec: "check_security (h @ rest)" using assms(6,7) by (simp add: check_security_def strchr_eq)
  have lx: "CHttpLengthAnaly_get_length_ex (h @ rest) (int (length (h @ rest))) 0 0 = Inr (int (length h), 0, 0)"
    unfolding h_def by (rule length_ex_GET [OF cr assms(2)]) (use assms(6,8) in \<open>simp_all add: get_line_def h_def\<close>)
  define s where "s = CHttpParser_new\<lparr>m_nExtraParamType := HTTP_UTIL_PARAM_ALL, m_nContentLen := 0,
    m_bufFirstLine := ?line, m_mapFields := insert_all hs []\<rparr>"
  have pf: "CHttpParser_parseField (h @ rest) (int (length h))
      (CHttpParser_new\<lparr>m_nExtraParamType := HTTP_UTIL_PARAM_ALL, m_nContentLen := 0\<rparr>) = (True, s)"
    using parseField_request [OF cr assms(2), of rest _ 0] assms(6,8) unfolding h_def by (simp add: s_def CHttpParser_new_def)
  have "m_bufFirstLine s = ?line" "length (m_bufFirstLine s) < 32767"
    using assms(8) by (simp_all add: s_def h_def)
  then obtain p a where p: "CHttpParser_parseFirstLine s = Inr (True, p)" "CHttpParser_get_uri p = CHR ''/'' # path"
    "m_pszActParam p = Some a" "CHttpParser_at a p = q" "m_nHttpMethod p = HTTP_UTIL_METHOD_GET" "m_mapFields p = m_mapFields s"
    "m_nExtraParamType p = m_nExtraParamType s"
    using parseFirstLine_GET [OF _ assms(3-5)] by metis
  have "0 < length h" by (simp add: h_def)
  then have "CHttpParser_parse junk (h @ rest) (int (length (h @ rest))) HTTP_UTIL_PARAM_ALL CHttpParser_new
      = Inr (int (length h), p\<lparr>m_paramParser := m\<rparr>)"
    using lx pf p(1,3,4) assms(9) by (simp add: CHttpParser_parse_def sec CHttpParser_new_def)
  then show thesis
    by (rule that) (use p(2-7) in \<open>simp_all add: CHttpParser_get_http_method_def CHttpParser_get_uri_def
        CHttpParser_get_param_string_def CHttpParser_at_def s_def split: option.splits\<close>)
qed

lemma parse_POST:
  fixes path host nPort q
  defines "h \<equiv> head_text (post_line (CHR ''/'' # path)) (post_fields host nPort (length q))"
  assumes "plain path" and "CHR '':'' \<notin> set path" and "CHR ''?'' \<notin> set path" and "SP \<notin> set host" and "host_ok host"
    and "plain q" and "NUL \<notin> set rest" and "CHR 0x27 \<notin> set rest" and "q \<noteq> []" and "length h + length q < 32768"
    and "CHttpParamParser_parse junk q (int (length q)) = Inr m"
  obtains p where
    "CHttpParser_parse junk (h @ q @ rest) (int (length (h @ q @ rest))) HTTP_UTIL_PARAM_ALL CHttpParser_new
      = Inr (int (length h + length q), p)"
    "CHttpParser_get_http_method p = HTTP_UTIL_METHOD_POST" "CHttpParser_get_uri p = CHR ''/'' # path"
    "m_mapFields p = insert_all (post_fields host nPort (length q)) []" "m_paramParser p = m"
    "CHttpParser_get_param_string p = q @ rest"
proof -
  let ?line = "post_line (CHR ''/'' # path)" and ?hs = "post_fields host nPort (length q)"
  have body: "NUL \<notin> set (q @ rest)" "CHR 0x27 \<notin> set (q @ rest)" using assms(7-9) by (auto simp: plain_def)
  have le: "int (length h + length q) \<le> int (length (h @ q @ rest))" by simp
  note ex = length_ex_POST [OF assms(2,3,5,6) body(1) assms(11) [unfolded h_def] le [unfolded h_def], folded h_def]
  have nul: "NUL \<notin> set (h @ q @ rest)" "CHR 0x27 \<notin> set (h @ q @ rest)" using ex(4,5) body by auto
  have sec: "check_security (h @ q @ rest)" using nul by (simp add: check_security_def strchr_eq)
  define s where "s = CHttpParser_new\<lparr>m_nExtraParamType := HTTP_UTIL_PARAM_ALL, m_nContentLen := int (length q),
    m_bufFirstLine := ?line, m_mapFields := insert_all ?hs [], m_pszContent := Some (q @ rest)\<rparr>"
  have ll: "length ?line < 32766" using assms(11) by (simp add: h_def)
  have pf: "CHttpParser_parseField (h @ q @ rest) (int (length h + length q))
      (CHttpParser_new\<lparr>m_nExtraParamType := HTTP_UTIL_PARAM_ALL, m_nContentLen := int (length q)\<rparr>) = (True, s)"
    using parseField_request [OF ex(3,2), of "q @ rest" _ "length q"] nul(1) ll assms(10) unfolding h_def
    by (simp add: s_def CHttpParser_new_def)
  have "m_bufFirstLine s = ?line" "length (m_bufFirstLine s) < 32767" using ll by (simp_all add: s_def)
  then obtain p where p: "CHttpParser_parseFirstLine s = Inr (True, p)" "CHttpParser_get_uri p = CHR ''/'' # path"
    "m_pszActParam p = m_pszActParam s" "m_nHttpMethod p = HTTP_UTIL_METHOD_POST" "m_mapFields p = m_mapFields s"
    "m_pszContent p = m_pszContent s" "m_nContentLen p = m_nContentLen s" "m_nExtraParamType p = m_nExtraParamType s"
    using parseFirstLine_POST [OF _ assms(2,4)] by metis
  have q: "CHttpParamParser_parse junk (q @ rest) (int (length q)) = Inr m"
    using assms(12) by (simp add: param_parse_prefix)
  have pos: "(int (length h) + int (length q) \<le> 0) = False" using assms(10) by (cases q) simp_all
  have "CHttpParser_parse junk (h @ q @ rest) (int (length (h @ q @ rest))) HTTP_UTIL_PARAM_ALL CHttpParser_new
      = Inr (int (length h + length q), p\<lparr>m_paramParser := m\<rparr>)"
    using ex(1) [of 0 0] pf p(1,3,6,7) q
    by (simp add: CHttpParser_parse_def sec CHttpParser_new_def s_def Let_def pos)
  then show thesis
    by (rule that) (use p(2-8) body in \<open>simp_all add: CHttpParser_get_http_method_def CHttpParser_get_uri_def
        CHttpParser_get_param_string_def CHttpParser_at_def s_def CHttpParser_new_def split: option.splits\<close>)
qed

section \<open>Round trip\<close>

text \<open>The maker that a program picks for a method.\<close>

definition make_request ::
  "HttpMethodType \<Rightarrow> string \<Rightarrow> 16 word \<Rightarrow> string \<Rightarrow> CHttpParamStringMaker \<Rightarrow> string res" where
  "make_request t = (if t = HTTP_UTIL_METHOD_POST then CHttpPostMaker_make_string else CHttpGetMaker_make_string)"

text \<open>What a parser has found in a request.\<close>

definition found :: "HttpMethodType \<Rightarrow> string \<Rightarrow> 16 word \<Rightarrow> string \<Rightarrow> (string \<times> string) list \<Rightarrow> CHttpParser \<Rightarrow> bool" where
  "found t host nPort uri ps p \<longleftrightarrow>
     CHttpParser_get_http_method p = t \<and> CHttpParser_get_uri p = uri
     \<and> CHttpParser_get_head_field ''Host'' p = host @ port_text nPort
     \<and> (\<forall>k. CHttpParser_get_param k p = (case map_of ps k of Some v \<Rightarrow> v | None \<Rightarrow> []))"

lemma foundI:
  assumes "CHttpParser_get_http_method p = t" and "CHttpParser_get_uri p = uri"
    and "m_mapFields p = insert_all hs []" and "m_paramParser p = insert_all ps []"
    and "map_of hs ''Host'' = Some (host @ port_text nPort)"
  shows "found t host nPort uri ps p"
proof -
  have "map_find (insert_all hs' []) k = map_of hs' k" for hs' k
    by (simp add: find_insert_all [OF smap.valid_empty])
  with assms show ?thesis
    by (simp add: found_def CHttpParser_get_head_field_def CHttpParser_get_param_def CHttpParamParser_get_param_def
        del: insert_all_simps split: option.splits)
qed

text \<open>The parameters as the makers write them: without the \<open>&\<close> at the end.\<close>

lemma written_params:
  assumes "list_all param_ok ps" and "ps \<noteq> []"
  shows "plain (butlast (query_text ps))" "butlast (query_text ps) \<noteq> []"
    "length (butlast (query_text ps)) < 32767 \<Longrightarrow>
      CHttpParamParser_parse junk (butlast (query_text ps)) (int (length (butlast (query_text ps)))) = Inr (insert_all ps [])"
proof -
  obtain u where u: "query_text ps = u @ ''&''" "u \<noteq> []" using query_text_end [OF assms(2)] by metis
  show "plain (butlast (query_text ps))" "butlast (query_text ps) \<noteq> []"
    using query_text_plain [OF assms(1)] u by (simp_all add: plain_def)
  show "CHttpParamParser_parse junk (butlast (query_text ps)) (int (length (butlast (query_text ps)))) = Inr (insert_all ps [])"
    if "length (butlast (query_text ps)) < 32767"
    by (rule parse_query [OF assms]) (use that u in simp)
qed

lemma POST_roundtrip:
  assumes "CHttpMaker_POST_make_string host nPort (CHR ''/'' # path) (params_maker ps) = Inr req"
    and "list_all param_ok ps" and "ps \<noteq> []" and "host_ok host" and "plain path" and "CHR ''?'' \<notin> set path"
    and "NUL \<notin> set rest" and "CHR 0x27 \<notin> set rest" and "SP \<notin> set host" and "CHR '':'' \<notin> set path"
  obtains p where "CHttpParser_parse junk (req @ rest) (int (length (req @ rest))) HTTP_UTIL_PARAM_ALL CHttpParser_new
      = Inr (int (length req), p)" "found HTTP_UTIL_METHOD_POST host nPort (CHR ''/'' # path) ps p"
    "CHttpParser_get_param_string p = butlast (query_text ps) @ rest"
proof -
  define q where "q = butlast (query_text ps)"
  note q = written_params [OF assms(2,3), folded q_def]
  have "NUL \<notin> set (CHR ''/'' # path)" using assms(5) by (simp add: plain_def)
  from POST_make_string_eq [OF assms(1-4) this, folded q_def]
  have r: "req = head_text (post_line (CHR ''/'' # path)) (post_fields host nPort (length q)) @ q"
    and len: "length (head_text (post_line (CHR ''/'' # path)) (post_fields host nPort (length q))) + length q < 32768"
    by simp_all
  have lq: "length q < 32767" using len by simp
  obtain p where p: "CHttpParser_parse junk (req @ rest) (int (length (req @ rest))) HTTP_UTIL_PARAM_ALL CHttpParser_new
      = Inr (int (length req), p)" "CHttpParser_get_http_method p = HTTP_UTIL_METHOD_POST"
    "CHttpParser_get_uri p = CHR ''/'' # path"
    "m_mapFields p = insert_all (post_fields host nPort (length q)) []" "m_paramParser p = insert_all ps []"
    "CHttpParser_get_param_string p = q @ rest"
    using parse_POST [OF assms(5,10,6,9,4) q(1) assms(7,8) q(2) len q(3) [OF lq]] unfolding r by auto
  have "found HTTP_UTIL_METHOD_POST host nPort (CHR ''/'' # path) ps p"
    by (rule foundI [OF p(2-5)]) (simp add: post_fields_def)
  then show thesis by (rule that [OF p(1) _ p(6) [unfolded q_def]])
qed

lemma GET_roundtrip:
  assumes "CHttpMaker_GET_make_string host nPort (CHR ''/'' # path) (params_maker ps) = Inr req"
    and "list_all param_ok ps" and "ps \<noteq> []" and "host_ok host" and "plain path" and "CHR ''?'' \<notin> set path"
    and "NUL \<notin> set rest" and "CHR 0x27 \<notin> set rest"
  obtains p where "CHttpParser_parse junk (req @ rest) (int (length (req @ rest))) HTTP_UTIL_PARAM_ALL CHttpParser_new
      = Inr (int (length req), p)" "found HTTP_UTIL_METHOD_GET host nPort (CHR ''/'' # path) ps p"
    "CHttpParser_get_param_string p = butlast (query_text ps)"
proof -
  define q where "q = butlast (query_text ps)"
  note q = written_params [OF assms(2,3), folded q_def]
  have "NUL \<notin> set (CHR ''/'' # path)" using assms(5) by (simp add: plain_def)
  note r = GET_make_string_eq [OF assms(1-4) this, folded q_def]
  note plain = get_message_plain(1,3) [where nPort = nPort, OF assms(5) q(1) assms(4)]
  have len: "length q < 32767" using r(2) unfolding r(1) by (simp add: get_line_def)
  obtain p where p: "CHttpParser_parse junk (req @ rest) (int (length (req @ rest))) HTTP_UTIL_PARAM_ALL CHttpParser_new
      = Inr (int (length req), p)" "CHttpParser_get_http_method p = HTTP_UTIL_METHOD_GET"
    "CHttpParser_get_uri p = CHR ''/'' # path"
    "m_mapFields p = insert_all (get_fields host nPort) []" "m_paramParser p = insert_all ps []"
    "CHttpParser_get_param_string p = q"
    using parse_GET [OF plain(2) assms(5) q(1) assms(6), folded r(1), OF _ _ r(2) q(3) [OF len]]
      plain(1) [folded r(1)] assms(7,8) by auto
  have "found HTTP_UTIL_METHOD_GET host nPort (CHR ''/'' # path) ps p"
    by (rule foundI [OF p(2-5)]) (simp add: get_fields_def)
  then show thesis by (rule that [OF p(1) _ p(6) [unfolded q_def]])
qed

text \<open>
  C29. Round trip of a request between the two halves of the file. Let \<open>CHttpGetMaker\<close> or
  \<open>CHttpPostMaker\<close> write a request, which succeeds when it fits their buffers, for a path, a host and at least one
  parameter, none of them with NUL, CR or an apostrophe, path and parameters without a space; the path without a question
  mark; keys that begin with a letter, a percent sign or a plus and have no equals sign, and no ampersand in keys and
  values; and for \<open>POST\<close> no space in the host and no colon in the path. With anything behind it in the same block but NUL
  and apostrophe (\<open>check_security\<close> refuses every block with an apostrophe, also when it is in the next message),
  \<open>CHttpParser\<close> recognises it as a message of exactly its length, and finds in it the method, the path, the host
  with its port, and for every key the first value given for it. The string of parameters is that of the
  request only for \<open>GET\<close>; for \<open>POST\<close> it runs on over what is behind the request.
\<close>

theorem CHttpMaker_roundtrip:
  assumes "make_request t host nPort (CHR ''/'' # path) (params_maker ps) = Inr req"
    and "t \<in> {HTTP_UTIL_METHOD_GET, HTTP_UTIL_METHOD_POST}"
    and "list_all param_ok ps" and "ps \<noteq> []" and "host_ok host" and "plain path" and "CHR ''?'' \<notin> set path"
    and "NUL \<notin> set rest" and "CHR 0x27 \<notin> set rest"
    and "t = HTTP_UTIL_METHOD_POST \<longrightarrow> SP \<notin> set host \<and> CHR '':'' \<notin> set path"
  shows "\<exists>p. CHttpParser_parse junk (req @ rest) (int (length (req @ rest))) HTTP_UTIL_PARAM_ALL CHttpParser_new
      = Inr (int (length req), p)
    \<and> found t host nPort (CHR ''/'' # path) ps p
    \<and> CHttpParser_get_param_string p = butlast (query_text ps) @ (if t = HTTP_UTIL_METHOD_POST then rest else [])"
proof (cases "t = HTTP_UTIL_METHOD_POST")
  case True
  then have "CHttpMaker_POST_make_string host nPort (CHR ''/'' # path) (params_maker ps) = Inr req"
    using assms(1) by (simp add: make_request_def CHttpPostMaker_make_string_def)
  from POST_roundtrip [OF this assms(3-9)] assms(10) True obtain p where
    "CHttpParser_parse junk (req @ rest) (int (length (req @ rest))) HTTP_UTIL_PARAM_ALL CHttpParser_new = Inr (int (length req), p)"
    "found HTTP_UTIL_METHOD_POST host nPort (CHR ''/'' # path) ps p"
    "CHttpParser_get_param_string p = butlast (query_text ps) @ rest" by blast
  with True show ?thesis by auto
next
  case False
  then have "CHttpMaker_GET_make_string host nPort (CHR ''/'' # path) (params_maker ps) = Inr req"
    using assms(1) by (simp add: make_request_def CHttpGetMaker_make_string_def)
  from GET_roundtrip [OF this assms(3-9)] obtain p where
    "CHttpParser_parse junk (req @ rest) (int (length (req @ rest))) HTTP_UTIL_PARAM_ALL CHttpParser_new = Inr (int (length req), p)"
    "found HTTP_UTIL_METHOD_GET host nPort (CHR ''/'' # path) ps p"
    "CHttpParser_get_param_string p = butlast (query_text ps)" by blast
  with assms(2) False show ?thesis by auto
qed

section \<open>Examples\<close>

definition sample_post :: string where
  "sample_post = head_text (post_line ''/x'') (post_fields ''h'' 8080 6) @ ''a=1&b=''"

lemma sample_post_made:
  "make_request HTTP_UTIL_METHOD_POST ''h'' 8080 ''/x'' (params_maker [(''a'', ''1''), (''b'', [])]) = Inr sample_post"
  by (simp add: make_request_def CHttpPostMaker_make_string_def CHttpMaker_POST_make_string_def CHttpMaker_POST_make_def
    CHttpBuffer_new_def get_params_def params_maker_simps sprintf_to_def HTTPUTIL_BUFFER_SIZE_def sample_post_def
    post_line_def post_fields_def port_text_def crlf_def render_header_line show_nat.simps show_int_def)

theorem CHttpMaker_roundtrip_witness:
  "\<exists>p. CHttpParser_parse NUL (sample_post @ ''GET /'') (int (length (sample_post @ ''GET /''))) HTTP_UTIL_PARAM_ALL CHttpParser_new
      = Inr (int (length sample_post), p)
    \<and> CHttpParser_get_param ''a'' p = ''1'' \<and> CHttpParser_get_param_string p = ''a=1&b=GET /''"
proof -
  have "list_all param_ok [(''a'', ''1''), (''b'', [])]" "host_ok ''h''" "plain ''x''" by code_simp+
  from CHttpMaker_roundtrip [OF sample_post_made _ this(1) _ this(2,3), of "''GET /''" NUL] show ?thesis
    by (auto simp: found_def)
qed

end
