(* ===== verification/Http_Util_Memory.thy ===== *)
theory Http_Util_Memory
  imports Http_Util_Parser
begin

text \<open>
  \<open>CHttpParser::parseField\<close> works inside the message of its caller: \<open>CInsertTempZero\<close> writes a NUL where a
  C string shall end, for as long as the object lives, and its destructor puts the old character back.
  \<open>Http_Util_Parser\<close> searches in the parts of the message instead; here is the function as it is written,
  on the bytes in memory, and the proof that the two agree and that the message survives.
\<close>

section \<open>The function on memory\<close>

definition CInsertTempZero_construct :: "nat \<Rightarrow> char list \<Rightarrow> char \<times> char list" where
  "CInsertTempZero_construct p mem = (mem ! p, mem[p := NUL])"

definition CInsertTempZero_destruct :: "nat \<Rightarrow> char \<Rightarrow> char list \<Rightarrow> char list" where
  "CInsertTempZero_destruct p old mem = mem[p := old]"

text \<open>The C string that a pointer into the message refers to.\<close>

definition string_at :: "nat \<Rightarrow> char list \<Rightarrow> string" where
  "string_at p mem = c_str (drop p mem)"

function field_loop_mem ::
  "int \<Rightarrow> nat \<Rightarrow> (string, string) std_map \<Rightarrow> char list \<Rightarrow> ((string, string) std_map \<times> nat) \<times> char list" where
  "field_loop_mem nTotalLen ptr m mem =
     (if int ptr > nTotalLen - 4 then ((m, ptr), mem)
      else if take 2 (drop ptr mem) = crlf then ((m, ptr), mem)
      else
        (case strstr (string_at ptr mem) crlf of
           None \<Rightarrow> ((m, ptr), mem)
         | Some n \<Rightarrow>
             let pLineEnd = ptr + n;
                 (zLineEnd, mem) = CInsertTempZero_construct pLineEnd mem
             in (case strstr (string_at ptr mem) '': '' of
                   None \<Rightarrow> ((m, ptr), CInsertTempZero_destruct pLineEnd zLineEnd mem)
                 | Some n \<Rightarrow>
                     let p = ptr + n;
                         (zp, mem) = CInsertTempZero_construct p mem;
                         strFieldName = string_at ptr mem;
                         strValue = string_at (p + 2) mem;
                         m = map_insert_new strFieldName strValue m;
                         mem = CInsertTempZero_destruct pLineEnd zLineEnd (CInsertTempZero_destruct p zp mem)
                     in field_loop_mem nTotalLen (pLineEnd + 2) m mem)))"
  by pat_completeness auto
termination
  by (relation "measure (\<lambda>(n, ptr, m, mem). nat (n - int ptr))") auto

declare field_loop_mem.simps [simp del]

definition CHttpParser_parseField_mem :: "int \<Rightarrow> CHttpParser \<Rightarrow> char list \<Rightarrow> (bool \<times> CHttpParser) \<times> char list" where
  "CHttpParser_parseField_mem nTotalLen s mem =
     (case strstr (string_at 0 mem) crlf of
        None \<Rightarrow> ((False, s), mem)
      | Some line_end \<Rightarrow>
          let (z1, mem) = CInsertTempZero_construct line_end mem;
              s = s\<lparr>m_bufFirstLine := take (nat (HTTPUTIL_BUFFER_SIZE - 1)) (string_at 0 mem)\<rparr>;
              ((m, ptr), mem) = field_loop_mem nTotalLen (line_end + 2) (m_mapFields s) mem;
              ptr = ptr + 2;
              s = s\<lparr>m_mapFields := m\<rparr>;
              mem = CInsertTempZero_destruct line_end z1 mem
          in ((True, if int ptr < nTotalLen then s\<lparr>m_pszContent := Some (drop ptr mem)\<rparr> else s), mem))"

section \<open>The temporary NUL\<close>

lemma c_str_split: "\<exists>tail. xs = c_str xs @ tail \<and> c_str tail = []"
proof (intro exI conjI)
  show "xs = c_str xs @ dropWhile (\<lambda>c. c \<noteq> NUL) xs" by (simp only: c_str_def takeWhile_dropWhile_id)
  show "c_str (dropWhile (\<lambda>c. c \<noteq> NUL) xs) = []"
    by (induction xs) auto
qed

lemma c_str_cut: "NUL \<notin> set u \<Longrightarrow> c_str (u @ NUL # v) = u"
  by (simp add: c_str_append)

lemma insert_temp_zero:
  "CInsertTempZero_construct (length u) (u @ c # v) = (c, u @ NUL # v)"
  "CInsertTempZero_destruct (length u) c (u @ d # v) = u @ c # v"
  by (simp_all add: CInsertTempZero_construct_def CInsertTempZero_destruct_def)

lemma strstr_split:
  assumes "strstr s pat = Some n" and "pat \<noteq> []"
  obtains v where "s = take n s @ pat @ v" "n + length pat \<le> length s"
proof -
  have n: "n = std_search pat s" "n \<noteq> length s" using assms(1) by (auto simp: strstr_def Let_def split: if_splits)
  then have "n < length s" using std_search_le [of pat s] by linarith
  then have t: "take (length pat) (drop n s) = pat" using std_search_hit [of pat s] n(1) by simp
  then have "length pat \<le> length s - n" by (metis length_drop length_take min.cobounded1)
  moreover have "s = take n s @ pat @ drop (length pat) (drop n s)"
    using append_take_drop_id [of n s] append_take_drop_id [of "length pat" "drop n s"] t by metis
  moreover have "n + length pat \<le> length s" using calculation(1) \<open>n < length s\<close> by linarith
  ultimately show thesis by (intro that)
qed

section \<open>The loop\<close>

text \<open>
  \<open>pre\<close> is what lies before the pointer, \<open>d\<close> the rest of the C string and \<open>tail\<close> what is behind it.
\<close>

lemma field_loop_mem_eq:
  assumes "NUL \<notin> set d" and "c_str tail = []" and "length pre' = length pre"
  shows "field_loop_mem n (length pre) m (pre @ d @ tail) = (field_loop (pre' @ d) n (length pre) m, pre @ d @ tail)"
  using assms
proof (induction "length d" arbitrary: d pre pre' m rule: less_induct)
  case less
  have at: "string_at (length pre) (pre @ d @ tail) = d"
    using less.prems(1,2) by (simp add: string_at_def c_str_append)
  have dr: "drop (length pre) (pre' @ d) = d" using less.prems(3) by (metis append_eq_conv_conj)
  have dm: "drop (length pre) (pre @ d @ tail) = d @ tail" by simp
  have two: "take 2 (d @ tail) = crlf \<longleftrightarrow> take 2 d = crlf"
    using less.prems(2) by (cases d; cases "tl d"; cases tail; cases "tl tail") (auto simp: crlf_def c_str_def split: if_splits)
  show ?case
  proof (cases "int (length pre) > n - 4 \<or> take 2 d = crlf \<or> strstr d crlf = None")
    case True
    with at dr two show ?thesis by (subst field_loop_mem.simps, subst field_loop.simps) auto
  next
    case False
    then obtain e where e: "strstr d crlf = Some e" by auto
    obtain v where v: "d = take e d @ crlf @ v" "e + length crlf \<le> length d"
      by (rule strstr_split [OF e]) (simp_all add: crlf_def)
    define line where "line = take e d"
    have d: "d = line @ CR # LF # v" "length line = e" using v by (simp_all add: line_def crlf_def)
    have no: "NUL \<notin> set line" "NUL \<notin> set v" using less.prems(1) by (simp_all add: d(1))
    have c1: "CInsertTempZero_construct (length pre + e) (pre @ d @ tail) = (CR, pre @ line @ NUL # LF # v @ tail)"
      using insert_temp_zero(1) [of "pre @ line" CR "LF # v @ tail"] d by simp
    have d1: "CInsertTempZero_destruct (length pre + e) CR (pre @ line @ NUL # LF # v @ tail) = pre @ d @ tail"
      using insert_temp_zero(2) [of "pre @ line" CR NUL "LF # v @ tail"] d by simp
    have at1: "string_at (length pre) (pre @ line @ NUL # LF # v @ tail) = line"
      using no(1) by (simp add: string_at_def c_str_cut)
    show ?thesis
    proof (cases "strstr line '': ''")
      case None
      with False e show ?thesis
        by (subst field_loop_mem.simps, subst field_loop.simps) (simp add: at dr dm two c1 d1 at1 flip: line_def del: drop_append take_append)
    next
      case (Some q)
      obtain fval where q: "line = take q line @ '': '' @ fval" "q + length '': '' \<le> length line"
        by (rule strstr_split [OF Some]) simp_all
      define name where "name = take q line"
      have l: "line = name @ CHR '':'' # CHR '' '' # fval" "length name = q" using q by (simp_all add: name_def)
      have nv: "NUL \<notin> set name" "NUL \<notin> set fval" using no(1) by (simp_all add: l(1))
      let ?m2 = "pre @ name @ NUL # CHR '' '' # fval @ NUL # LF # v @ tail"
      have c2: "CInsertTempZero_construct (length pre + q) (pre @ line @ NUL # LF # v @ tail) = (CHR '':'', ?m2)"
        using insert_temp_zero(1) [of "pre @ name" "CHR '':''" "CHR '' '' # fval @ NUL # LF # v @ tail"] l by simp
      have d2: "CInsertTempZero_destruct (length pre + q) (CHR '':'') ?m2 = pre @ line @ NUL # LF # v @ tail"
        using insert_temp_zero(2) [of "pre @ name" "CHR '':''" NUL "CHR '' '' # fval @ NUL # LF # v @ tail"] l by simp
      have at2: "string_at (length pre) ?m2 = name" "string_at (length pre + q + 2) ?m2 = fval"
        using nv l(2) by (simp_all add: string_at_def c_str_cut)
      have dl: "drop (q + 2) line = fval" using l by simp
      have "field_loop_mem n (length (pre @ line @ crlf)) (map_insert_new name fval m) ((pre @ line @ crlf) @ v @ tail)
          = (field_loop ((pre' @ line @ crlf) @ v) n (length (pre @ line @ crlf)) (map_insert_new name fval m),
             (pre @ line @ crlf) @ v @ tail)"
        using less.prems(2,3) no(2) by (intro less.hyps) (simp_all add: d(1) crlf_def)
      then have rest: "field_loop_mem n (length pre + e + 2) (map_insert_new name fval m) (pre @ d @ tail)
          = (field_loop (pre' @ d) n (length pre + e + 2) (map_insert_new name fval m), pre @ d @ tail)"
        using d by (simp add: crlf_def)
      from False e Some rest show ?thesis
        by (subst field_loop_mem.simps, subst field_loop.simps)
          (simp add: at dr dm two c1 d1 at1 c2 d2 at2 dl flip: line_def name_def del: add_2_eq_Suc' drop_append take_append)
    qed
  qed
qed

section \<open>Property\<close>

text \<open>
  C32. \<open>parseField\<close> with its temporary NULs in the message of the caller does exactly what the model on the
  parts of the message does, for every message, and when it returns every byte of the message is what it
  was, on each way out of the loop.
\<close>

theorem CHttpParser_parseField_in_place:
  "CHttpParser_parseField_mem nTotalLen s mem = (CHttpParser_parseField mem nTotalLen s, mem)"
proof (cases "strstr (c_str mem) crlf")
  case None
  then show ?thesis by (simp add: CHttpParser_parseField_mem_def CHttpParser_parseField_def string_at_def)
next
  case (Some e)
  obtain tail where tail: "mem = c_str mem @ tail" "c_str tail = []" using c_str_split by blast
  obtain v where v: "c_str mem = take e (c_str mem) @ crlf @ v" "e + length crlf \<le> length (c_str mem)"
    by (rule strstr_split [OF Some]) (simp_all add: crlf_def)
  define line where "line = take e (c_str mem)"
  have c: "c_str mem = line @ CR # LF # v" "length line = e" using v by (simp_all add: line_def crlf_def)
  have no: "NUL \<notin> set line" "NUL \<notin> set v" using c_str_no_NUL [of mem] unfolding c(1) by simp_all
  have mem: "mem = line @ CR # LF # v @ tail" using tail(1) c(1) by simp
  let ?m = "line @ NUL # LF # v @ tail"
  have c1: "CInsertTempZero_construct e mem = (CR, ?m)" and d1: "CInsertTempZero_destruct e CR ?m = mem"
    using insert_temp_zero(1) [of line CR "LF # v @ tail"] insert_temp_zero(2) [of line CR NUL "LF # v @ tail"] c(2) mem
    by simp_all
  have at: "string_at 0 ?m = line" "take e mem = line"
    using no(1) c(2) mem by (simp_all add: string_at_def c_str_cut)
  have loop: "field_loop_mem nTotalLen (e + 2) m ?m = (field_loop (c_str mem) nTotalLen (e + 2) m, ?m)" for m
    using field_loop_mem_eq [OF no(2) tail(2), of "line @ crlf" "line @ [NUL, LF]" nTotalLen m] c by (simp add: crlf_def)
  obtain m p where fl: "field_loop (c_str mem) nTotalLen (e + 2) (m_mapFields s) = (m, p)" by fastforce
  show ?thesis
    by (simp add: CHttpParser_parseField_mem_def CHttpParser_parseField_def Some string_at_def [of 0 mem] c1 at loop fl d1 Let_def
        del: add_2_eq_Suc')
qed

end
