(* ===== verification/Threads.thy ===== *)
theory Threads
  imports Timestamps "HOL-Library.Word" "HOL-Library.Signed_Division"
begin

text \<open>
  \<open>base/Thread\<close>, \<open>base/Mutex.h\<close> and \<open>base/Condtion.h\<close>: the wrappers of POSIX threads, locks and
  condition variables. A thread is known by its id, a positive number. An operation that can
  block is split where it blocks, and the part behind it is \<open>None\<close> as long as it does. The
  calls of the library are inside \<open>assert\<close>, and are taken to be compiled in.
\<close>

section \<open>Locks\<close>

text \<open>\<open>pmutex\<close> is the thread that has locked the POSIX mutex, \<open>mutex_holder\<close> is \<open>holder_\<close>.\<close>

record MutexLock =
  pmutex :: "nat option"
  mutex_holder :: nat

definition MutexLock_new :: MutexLock where
  "MutexLock_new = \<lparr>pmutex = None, mutex_holder = 0\<rparr>"

text \<open>Destroying a locked mutex fails.\<close>

definition MutexLock_destroy :: "MutexLock \<Rightarrow> unit res" where
  "MutexLock_destroy m = assert_that (mutex_holder m = 0) (assert_that (pmutex m = None) (Inr ()))"

definition isLockedByThisThread :: "nat \<Rightarrow> MutexLock \<Rightarrow> bool" where
  "isLockedByThisThread t m \<longleftrightarrow> mutex_holder m = t"

definition assertLocked :: "nat \<Rightarrow> MutexLock \<Rightarrow> unit res" where
  "assertLocked t m = assert_that (isLockedByThisThread t m) (Inr ())"

definition unassignHolder :: "MutexLock \<Rightarrow> MutexLock" where
  "unassignHolder m = m\<lparr>mutex_holder := 0\<rparr>"

definition assignHolder :: "nat \<Rightarrow> MutexLock \<Rightarrow> MutexLock" where
  "assignHolder t m = m\<lparr>mutex_holder := t\<rparr>"

definition MutexLock_lock :: "nat \<Rightarrow> MutexLock \<Rightarrow> MutexLock option" where
  "MutexLock_lock t m = (if pmutex m = None then Some (assignHolder t (m\<lparr>pmutex := Some t\<rparr>)) else None)"

definition MutexLock_unlock :: "MutexLock \<Rightarrow> MutexLock" where
  "MutexLock_unlock m = (unassignHolder m)\<lparr>pmutex := None\<rparr>"

text \<open>The guards lock or unassign in their constructor and undo it in their destructor.\<close>

definition MutexLockGuard_construct :: "nat \<Rightarrow> MutexLock \<Rightarrow> MutexLock option" where
  "MutexLockGuard_construct t m = MutexLock_lock t m"

definition MutexLockGuard_destruct :: "MutexLock \<Rightarrow> MutexLock" where
  "MutexLockGuard_destruct m = MutexLock_unlock m"

definition UnassignGuard_construct :: "MutexLock \<Rightarrow> MutexLock" where
  "UnassignGuard_construct m = unassignHolder m"

definition UnassignGuard_destruct :: "nat \<Rightarrow> MutexLock \<Rightarrow> MutexLock" where
  "UnassignGuard_destruct t m = assignHolder t m"

lemmas guard_simps [simp] = MutexLockGuard_construct_def MutexLockGuard_destruct_def
  UnassignGuard_construct_def UnassignGuard_destruct_def

section \<open>Conditions\<close>

record Condition =
  cond_waiting :: "nat list"

definition Condition_new :: Condition where
  "Condition_new = \<lparr>cond_waiting = []\<rparr>"

definition Condition_destroy :: "Condition \<Rightarrow> unit res" where
  "Condition_destroy c = assert_that (cond_waiting c = []) (Inr ())"

text \<open>
  \<open>wait\<close> up to the point where the thread sleeps, without the lock, and from the point where it
  has been woken: the lock is taken again, and the guard assigns the holder.
\<close>

definition Condition_wait_begin :: "nat \<Rightarrow> MutexLock \<Rightarrow> Condition \<Rightarrow> MutexLock \<times> Condition" where
  "Condition_wait_begin t m c =
     ((UnassignGuard_construct m)\<lparr>pmutex := None\<rparr>, c\<lparr>cond_waiting := cond_waiting c @ [t]\<rparr>)"

definition Condition_wait_end :: "nat \<Rightarrow> MutexLock \<Rightarrow> Condition \<Rightarrow> MutexLock option" where
  "Condition_wait_end t m c =
     (if t \<in> set (cond_waiting c) \<or> pmutex m \<noteq> None then None
      else Some (UnassignGuard_destruct t (m\<lparr>pmutex := Some t\<rparr>)))"

text \<open>\<open>notify\<close> wakes the waiting thread the system chooses; without one it has no effect.\<close>

definition Condition_notify :: "nat \<Rightarrow> Condition \<Rightarrow> Condition" where
  "Condition_notify chosen c = c\<lparr>cond_waiting := take chosen (cond_waiting c) @ drop (chosen + 1) (cond_waiting c)\<rparr>"

definition Condition_notifyAll :: "Condition \<Rightarrow> Condition" where
  "Condition_notifyAll c = c\<lparr>cond_waiting := []\<rparr>"

text \<open>A thread may also be woken without a notification.\<close>

definition spurious_wakeup :: "nat \<Rightarrow> Condition \<Rightarrow> Condition" where
  "spurious_wakeup t c = c\<lparr>cond_waiting := removeAll t (cond_waiting c)\<rparr>"

text \<open>
  The point in time up to which \<open>waitForSeconds\<close> waits, from the clock's seconds and
  nanoseconds. The division of integers truncates towards zero.
\<close>

definition kNanoSecondsPerSecond :: int where
  "kNanoSecondsPerSecond = 1000000000"

definition wait_deadline :: "int \<Rightarrow> int \<Rightarrow> rat \<Rightarrow> (int \<times> int) res" where
  "wait_deadline tv_sec tv_nsec seconds =
     (let nanoseconds = truncate_double (seconds * of_int kNanoSecondsPerSecond);
          total_ns = tv_nsec + nanoseconds;
          sec = tv_sec + total_ns sdiv kNanoSecondsPerSecond
      in if \<bar>nanoseconds\<bar> \<ge> 2 ^ 63 \<or> \<bar>total_ns\<bar> \<ge> 2 ^ 63 \<or> \<bar>sec\<bar> \<ge> 2 ^ 63 then Inl IntegerOverflow
         else Inr (sec, total_ns smod kNanoSecondsPerSecond))"

text \<open>
  \<open>pthread_cond_timedwait\<close> refuses a time whose nanoseconds are not below a second (the value
  \<open>None\<close>: the function returns false at once, with the lock); otherwise it waits like \<open>wait\<close>.
\<close>

definition waitForSeconds_begin ::
  "int \<Rightarrow> int \<Rightarrow> rat \<Rightarrow> nat \<Rightarrow> MutexLock \<Rightarrow> Condition \<Rightarrow> (MutexLock \<times> Condition) option res" where
  "waitForSeconds_begin tv_sec tv_nsec seconds t m c =
     andThen (wait_deadline tv_sec tv_nsec seconds) (\<lambda>(sec, nsec).
       if 0 \<le> nsec \<and> nsec < kNanoSecondsPerSecond then Inr (Some (Condition_wait_begin t m c)) else Inr None)"

definition waitForSeconds_end :: "bool \<Rightarrow> nat \<Rightarrow> MutexLock \<Rightarrow> Condition \<Rightarrow> (bool \<times> MutexLock) option" where
  "waitForSeconds_end timedOut t m c = map_option (\<lambda>m. (timedOut, m)) (Condition_wait_end t m c)"

section \<open>Threads\<close>

record Thread =
  thread_started :: bool
  thread_joined :: bool
  thread_tid :: nat
  thread_label :: string

definition setDefaultName :: "Thread \<Rightarrow> 32 word \<Rightarrow> Thread \<times> 32 word" where
  "setDefaultName th numCreated =
     (let num = numCreated + 1
      in (if thread_label th = []
          then th\<lparr>thread_label := snprintf 32 (''Thread'' @ show_int (sint num))\<rparr> else th, num))"

definition Thread_new :: "string \<Rightarrow> 32 word \<Rightarrow> Thread \<times> 32 word" where
  "Thread_new n numCreated =
     setDefaultName \<lparr>thread_started = False, thread_joined = False, thread_tid = 0, thread_label = n\<rparr> numCreated"

text \<open>The destructor; the result tells whether the thread is detached.\<close>

definition Thread_destroy :: "Thread \<Rightarrow> bool" where
  "Thread_destroy th \<longleftrightarrow> thread_started th \<and> \<not> thread_joined th"

text \<open>\<open>created\<close> is the success of \<open>pthread_create\<close>; without it the program is aborted.\<close>

definition Thread_start :: "bool \<Rightarrow> Thread \<Rightarrow> Thread res" where
  "Thread_start created th =
     assert_that (\<not> thread_started th)
       (let th = th\<lparr>thread_started := True\<rparr>
        in if \<not> created then Inl ProcessAbort else Inr th)"

text \<open>\<open>join\<close> up to the call of \<open>pthread_join\<close>, which waits for the end of the thread.\<close>

definition Thread_join :: "Thread \<Rightarrow> Thread res" where
  "Thread_join th =
     assert_that (thread_started th) (assert_that (\<not> thread_joined th) (Inr (th\<lparr>thread_joined := True\<rparr>)))"

text \<open>
  What the new thread runs. \<open>alive\<close> tells whether the \<open>Thread\<close> object, which owns the place for
  the id, still exists. The results are the object and the name of the thread while the function
  runs and, when the function returned, afterwards.
\<close>

definition runInThread_begin :: "bool \<Rightarrow> nat \<Rightarrow> string \<Rightarrow> Thread \<Rightarrow> Thread \<times> string" where
  "runInThread_begin alive tid name th =
     (if alive then th\<lparr>thread_tid := tid\<rparr> else th, if name = [] then ''RabbitThread'' else name)"

definition runInThread_end :: "'a res \<Rightarrow> string res" where
  "runInThread_end r =
     (case r of
        Inr _ \<Rightarrow> Inr ''finished''
      | Inl e \<Rightarrow> if e = UncaughtException then Inl ProcessAbort else Inl e)"

section \<open>Lemmas\<close>

lemma lock_simps [simp]:
  "MutexLock_lock t m = Some m' \<longleftrightarrow> pmutex m = None \<and> m' = m\<lparr>mutex_holder := t, pmutex := Some t\<rparr>"
  "MutexLock_lock t m = None \<longleftrightarrow> pmutex m \<noteq> None"
  by (auto simp: MutexLock_lock_def assignHolder_def)

lemma unlock_simps [simp]:
  "pmutex (MutexLock_unlock m) = None" "mutex_holder (MutexLock_unlock m) = 0"
  by (simp_all add: MutexLock_unlock_def unassignHolder_def)

lemma wait_end_simps [simp]:
  "Condition_wait_end t m c = Some m' \<longleftrightarrow>
     t \<notin> set (cond_waiting c) \<and> pmutex m = None \<and> m' = m\<lparr>mutex_holder := t, pmutex := Some t\<rparr>"
  by (auto simp: Condition_wait_end_def assignHolder_def)

lemma thread_simps:
  "Thread_start created th = Inr th' \<longleftrightarrow> created \<and> \<not> thread_started th \<and> th' = th\<lparr>thread_started := True\<rparr>"
  "Thread_join th = Inr th' \<longleftrightarrow> thread_started th \<and> \<not> thread_joined th \<and> th' = th\<lparr>thread_joined := True\<rparr>"
  by (auto simp: Thread_start_def Thread_join_def assert_that_def Let_def)

section \<open>Properties\<close>

text \<open>
  The deadline of \<open>waitForSeconds\<close>: for a time that is not negative (and no overflow) it is the
  present plus the whole nanoseconds of that time, with nanoseconds below a second, and the
  thread waits. Only for a negative time can \<open>pthread_cond_timedwait\<close> refuse the deadline, and
  then \<open>waitForSeconds\<close> reports that the time did not run out.
\<close>

theorem Condition_deadline:
  assumes "0 \<le> nsec" and "nsec < 1000000000" and "wait_deadline sec nsec seconds = Inr (sec', nsec')"
  shows "sec' * 1000000000 + nsec' = sec * 1000000000 + nsec + truncate_double (seconds * 1000000000)
    \<and> (0 \<le> seconds \<longrightarrow> 0 \<le> nsec' \<and> nsec' < 1000000000)
    \<and> (waitForSeconds_begin sec nsec seconds t m c = Inr None \<longrightarrow> seconds < 0)"
proof -
  define n where "n = nsec + truncate_double (seconds * 1000000000)"
  from assms(3) have r: "sec' = sec + n sdiv 1000000000" "nsec' = n smod 1000000000"
    by (auto simp: wait_deadline_def kNanoSecondsPerSecond_def n_def Let_def split: if_splits)
  have "n sdiv 1000000000 * 1000000000 + n smod 1000000000 = n" by (rule sdiv_mult_smod_eq)
  then have total_eq: "sec' * 1000000000 + nsec' = sec * 1000000000 + n" using r by (simp add: algebra_simps)
  have range: "0 \<le> nsec' \<and> nsec' < 1000000000" if "0 \<le> seconds"
  proof -
    have "0 \<le> truncate_double (seconds * 1000000000)" using that by (simp add: truncate_double_def)
    with assms(1) have "0 \<le> n" by (simp add: n_def)
    then show ?thesis using smod_int_compares(1,2) [of n 1000000000] r by simp
  qed
  have "seconds < 0" if "waitForSeconds_begin sec nsec seconds t m c = Inr None"
    using that range assms(3)
    by (cases "0 \<le> seconds") (auto simp: waitForSeconds_begin_def kNanoSecondsPerSecond_def andThen_def)
  with total_eq range show ?thesis by (simp add: n_def)
qed

theorem Condition_deadline_witness:
  "wait_deadline 7 900000000 (3 / 10) = Inr (8, 200000000)
   \<and> (8::int) * 1000000000 + 200000000 = 7 * 1000000000 + 900000000 + truncate_double (3 / 10 * 1000000000)"
proof -
  have "wait_deadline 7 900000000 (3 / 10) = Inr (8, 200000000)" by code_simp
  with Condition_deadline [OF _ _ this] show ?thesis by simp
qed

end
