(* ===== verification/Thread_Lifetime.thy ===== *)
theory Thread_Lifetime
  imports Threads
begin

text \<open>
  Who frees what in \<open>base/Thread\<close>. A \<open>Thread\<close> object may be destroyed while its thread runs, so the two
  share: the place for the id, owned through \<open>shared_ptr\<close> by the object and for a moment by the thread,
  which finds it through a \<open>weak_ptr\<close>; and the \<open>ThreadData\<close>, which \<open>start\<close> allocates and the new thread
  deletes. Here the operations of \<open>Threads\<close> interleave with the steps of \<open>runInThread\<close>, over an explicit
  memory in which access to what has been deleted is a fault.
\<close>

section \<open>State\<close>

text \<open>
  \<open>wkTid_\<close> of a \<open>ThreadData\<close> can only refer to the one place for the id, and \<open>func_\<close> is given by what
  it does.
\<close>

record ThreadData =
  data_name :: string

datatype pthread_handle = NotCreated | Joinable | Joined | Detached

text \<open>The steps of the new thread: the lines of \<open>runInThread\<close> and \<open>startThread\<close> that touch shared memory.\<close>

datatype thread_pc = NotRunning | LocksTid | WritesTid | ResetsTid | SetsName | CallsFunc | DeletesData | Ended

text \<open>\<open>t_threadName\<close> is a literal or the pointer into the \<open>ThreadData\<close>.\<close>

datatype name_pointer = Literal string | NameOfData

text \<open>
  A deleted object, cell or \<open>ThreadData\<close> is \<open>None\<close>. \<open>thread_tid\<close> of the object is not used here, \<open>*tid_\<close>
  being \<open>tid_cell\<close>; \<open>tid_owners\<close> is the count of the shared pointers to it.
\<close>

record ThreadLife =
  life_object :: "Thread option"
  life_joining :: bool
  tid_cell :: "nat option"
  tid_owners :: nat
  life_data :: "ThreadData option"
  life_handle :: pthread_handle
  life_pc :: thread_pc
  thread_name_ptr :: name_pointer

definition ThreadLife_new :: "string \<Rightarrow> 32 word \<Rightarrow> ThreadLife" where
  "ThreadLife_new name numCreated = \<lparr>life_object = Some (fst (Thread_new name numCreated)), life_joining = False,
     tid_cell = Some 0, tid_owners = 1, life_data = None, life_handle = NotCreated, life_pc = NotRunning,
     thread_name_ptr = Literal ''unknown''\<rparr>"

section \<open>Operations\<close>

definition with_data :: "ThreadLife \<Rightarrow> (ThreadData \<Rightarrow> 'a res) \<Rightarrow> 'a res" where
  "with_data s f = (case life_data s of None \<Rightarrow> Inl NullPointer | Some d \<Rightarrow> f d)"

text \<open>A shared pointer to the id goes out of scope; the last one deletes it.\<close>

definition release_tid :: "ThreadLife \<Rightarrow> ThreadLife" where
  "release_tid s = s\<lparr>tid_owners := tid_owners s - 1, tid_cell := if tid_owners s = 1 then None else tid_cell s\<rparr>"

text \<open>A POSIX thread is joined or detached once; using the handle again is undefined.\<close>

definition use_handle :: "pthread_handle \<Rightarrow> ThreadLife \<Rightarrow> ThreadLife res" where
  "use_handle h s = (if life_handle s = Joinable then Inr (s\<lparr>life_handle := h\<rparr>) else Inl NullPointer)"

definition ThreadData_new :: "Thread \<Rightarrow> ThreadData" where
  "ThreadData_new th = \<lparr>data_name = thread_label th\<rparr>"

definition life_start :: "bool \<Rightarrow> Thread \<Rightarrow> ThreadLife \<Rightarrow> ThreadLife res" where
  "life_start created th s =
     andThen (Thread_start created th) (\<lambda>th.
       Inr (s\<lparr>life_object := Some th, life_data := Some (ThreadData_new th), life_handle := Joinable,
              life_pc := LocksTid\<rparr>))"

definition life_join :: "Thread \<Rightarrow> ThreadLife \<Rightarrow> ThreadLife res" where
  "life_join th s =
     andThen (Thread_join th) (\<lambda>th. Inr (s\<lparr>life_object := Some th, life_joining := True\<rparr>))"

definition life_join_returns :: "ThreadLife \<Rightarrow> ThreadLife res" where
  "life_join_returns s = use_handle Joined (s\<lparr>life_joining := False\<rparr>)"

definition life_destroy :: "Thread \<Rightarrow> ThreadLife \<Rightarrow> ThreadLife res" where
  "life_destroy th s =
     andThen (if Thread_destroy th then use_handle Detached s else Inr s) (\<lambda>s.
       Inr (release_tid (s\<lparr>life_object := None\<rparr>)))"

text \<open>The steps of the thread. \<open>r\<close> is what \<open>func_\<close> does: it returns, throws or faults.\<close>

fun run_in_thread :: "nat \<Rightarrow> unit res \<Rightarrow> thread_pc \<Rightarrow> ThreadLife \<Rightarrow> ThreadLife res" where
  "run_in_thread tid r LocksTid s = with_data s (\<lambda>d.
     if 0 < tid_owners s then Inr (s\<lparr>tid_owners := tid_owners s + 1, life_pc := WritesTid\<rparr>)
     else Inr (s\<lparr>life_pc := SetsName\<rparr>))"
| "run_in_thread tid r WritesTid s =
     (if tid_cell s = None then Inl NullPointer else Inr (s\<lparr>tid_cell := Some tid, life_pc := ResetsTid\<rparr>))"
| "run_in_thread tid r ResetsTid s = Inr ((release_tid s)\<lparr>life_pc := SetsName\<rparr>)"
| "run_in_thread tid r SetsName s = with_data s (\<lambda>d.
     Inr (s\<lparr>thread_name_ptr := if data_name d = [] then Literal ''RabbitThread'' else NameOfData,
            life_pc := CallsFunc\<rparr>))"
| "run_in_thread tid r CallsFunc s = with_data s (\<lambda>d.
     andThen (runInThread_end r) (\<lambda>name. Inr (s\<lparr>thread_name_ptr := Literal name, life_pc := DeletesData\<rparr>)))"
| "run_in_thread tid r pc s = Inr s"

text \<open>\<open>startThread\<close>: \<open>runInThread\<close>, and then the deletion.\<close>

definition startThread :: "nat \<Rightarrow> unit res \<Rightarrow> ThreadLife \<Rightarrow> ThreadLife res" where
  "startThread tid r s =
     (if life_pc s = DeletesData then with_data s (\<lambda>d. Inr (s\<lparr>life_data := None, life_pc := Ended\<rparr>))
      else run_in_thread tid r (life_pc s) s)"

text \<open>Reading \<open>t_threadName\<close> in the thread, and \<open>tid\<close> of the object.\<close>

definition current_name :: "ThreadLife \<Rightarrow> string res" where
  "current_name s =
     (case thread_name_ptr s of Literal name \<Rightarrow> Inr name | NameOfData \<Rightarrow> with_data s (\<lambda>d. Inr (data_name d)))"

definition Thread_tid :: "ThreadLife \<Rightarrow> nat res" where
  "Thread_tid s = (case tid_cell s of None \<Rightarrow> Inl NullPointer | Some t \<Rightarrow> Inr t)"

section \<open>Runs\<close>

text \<open>
  The operations of the owner come in any order, also the wrong ones, as long as the object exists and
  the owner is not inside \<open>join\<close>; \<open>pthread_join\<close> returns when the thread has ended. A step that cannot
  be taken changes nothing.
\<close>

datatype life_op = OwnerStarts bool | OwnerJoins | JoinReturns | OwnerDestroys | ThreadSteps "unit res"

definition by_owner :: "ThreadLife \<Rightarrow> (Thread \<Rightarrow> ThreadLife res) \<Rightarrow> ThreadLife res" where
  "by_owner s f = (case life_object s of Some th \<Rightarrow> if life_joining s then Inr s else f th | None \<Rightarrow> Inr s)"

fun life_step :: "nat \<Rightarrow> life_op \<Rightarrow> ThreadLife \<Rightarrow> ThreadLife res" where
  "life_step tid (OwnerStarts created) s = by_owner s (\<lambda>th. life_start created th s)"
| "life_step tid OwnerJoins s = by_owner s (\<lambda>th. life_join th s)"
| "life_step tid JoinReturns s = (if life_joining s \<and> life_pc s = Ended then life_join_returns s else Inr s)"
| "life_step tid OwnerDestroys s = by_owner s (\<lambda>th. life_destroy th s)"
| "life_step tid (ThreadSteps r) s = startThread tid r s"

fun life_run :: "nat \<Rightarrow> life_op list \<Rightarrow> ThreadLife \<Rightarrow> ThreadLife res" where
  "life_run tid [] s = Inr s"
| "life_run tid (op # ops) s = andThen (life_step tid op s) (life_run tid ops)"

section \<open>Invariant\<close>

definition holds_tid :: "ThreadLife \<Rightarrow> bool" where
  "holds_tid s \<longleftrightarrow> life_pc s = WritesTid \<or> life_pc s = ResetsTid"

definition life_inv :: "nat \<Rightarrow> ThreadLife \<Rightarrow> bool" where
  "life_inv tid s \<longleftrightarrow>
     tid_owners s = of_bool (life_object s \<noteq> None) + of_bool (holds_tid s)
   \<and> (tid_cell s = None \<longleftrightarrow> tid_owners s = 0)
   \<and> (life_data s = None \<longleftrightarrow> life_pc s = NotRunning \<or> life_pc s = Ended)
   \<and> (life_handle s = NotCreated \<longleftrightarrow> life_pc s = NotRunning)
   \<and> (thread_name_ptr s = NameOfData \<longrightarrow> life_pc s = CallsFunc)
   \<and> (life_handle s = Joined \<longrightarrow> life_pc s = Ended)
   \<and> (life_joining s \<longrightarrow> life_object s \<noteq> None \<and> life_handle s = Joinable)
   \<and> (case life_object s of
        None \<Rightarrow> life_handle s \<noteq> Joinable
      | Some th \<Rightarrow> (thread_started th \<longleftrightarrow> life_pc s \<noteq> NotRunning)
          \<and> (life_handle s = Joinable \<longleftrightarrow> thread_started th \<and> (thread_joined th \<longrightarrow> life_joining s))
          \<and> (thread_joined th \<longrightarrow> thread_started th)
          \<and> (life_joining s \<longrightarrow> thread_joined th)
          \<and> (life_pc s \<notin> {NotRunning, LocksTid, WritesTid} \<longrightarrow> tid_cell s = Some tid))"

lemmas life_defs = life_inv_def holds_tid_def by_owner_def life_start_def life_join_def life_join_returns_def life_destroy_def
  startThread_def use_handle_def release_tid_def with_data_def ThreadData_new_def Thread_start_def Thread_join_def
  Thread_destroy_def assert_that_def andThen_def Let_def

lemma new_life_inv: "life_inv tid (ThreadLife_new name n)"
  by (simp add: life_inv_def holds_tid_def ThreadLife_new_def Thread_new_def setDefaultName_def Let_def)

text \<open>What a step may stop with.\<close>

definition life_fault :: "life_op \<Rightarrow> fault \<Rightarrow> bool" where
  "life_fault op e \<longleftrightarrow> e = AssertionFailed \<or> e = ProcessAbort \<or> op = ThreadSteps (Inl e)"

lemma startThread_ok:
  assumes "life_inv tid s"
  shows "case startThread tid r s of Inl e \<Rightarrow> e = ProcessAbort \<or> r = Inl e | Inr t \<Rightarrow> life_inv tid t"
  using assms
  by (cases "life_pc s"; cases "life_object s"; cases "life_data s"; cases "tid_cell s"; cases r)
    (simp_all add: life_defs runInThread_end_def)

lemma life_step_ok:
  assumes "life_inv tid s"
  shows "case life_step tid op s of Inl e \<Rightarrow> life_fault op e | Inr t \<Rightarrow> life_inv tid t"
proof (cases op)
  case (ThreadSteps r)
  with startThread_ok [OF assms, of r] show ?thesis by (auto simp: life_fault_def split: sum.splits)
qed (use assms in \<open>cases "life_object s"; auto simp: life_defs life_fault_def split: sum.splits if_splits\<close>)+

lemma life_run_ok:
  assumes "life_inv tid s"
  shows "case life_run tid ops s of Inl e \<Rightarrow> \<exists>op\<in>set ops. life_fault op e | Inr t \<Rightarrow> life_inv tid t"
  using assms
proof (induction ops arbitrary: s)
  case (Cons op ops)
  from life_step_ok [OF Cons.prems, of op] show ?case
  proof (cases "life_step tid op s")
    case (Inr t)
    with life_step_ok [OF Cons.prems, of op] Cons.IH [of t] show ?thesis
      by (cases "life_run tid ops t") simp_all
  qed simp
qed simp

text \<open>Left to itself the thread ends; it has no more than six steps to take.\<close>

lemma thread_ends:
  assumes "life_inv tid s" and "life_pc s \<noteq> NotRunning"
  shows "\<exists>t. life_run tid (replicate 6 (ThreadSteps (Inr ()))) s = Inr t \<and> life_pc t = Ended
    \<and> life_object t = life_object s \<and> life_inv tid t"
proof -
  have "\<exists>t. life_run tid (replicate 6 (ThreadSteps (Inr ()))) s = Inr t \<and> life_pc t = Ended
      \<and> life_object t = life_object s"
    using assms
    by (cases "life_pc s"; cases "life_object s"; cases "life_data s"; cases "tid_cell s")
      (simp_all add: life_defs runInThread_end_def eval_nat_numeral)
  then obtain t where t: "life_run tid (replicate 6 (ThreadSteps (Inr ()))) s = Inr t" "life_pc t = Ended"
    "life_object t = life_object s" by blast
  with life_run_ok [OF assms(1), of "replicate 6 (ThreadSteps (Inr ()))"] show ?thesis by simp
qed

text \<open>
  The first steps of the thread, without a break, are \<open>runInThread_begin\<close> of \<open>Threads\<close>, with \<open>alive\<close> for the
  object that still exists.
\<close>

definition object_with_tid :: "ThreadLife \<Rightarrow> Thread option" where
  "object_with_tid s = map_option (\<lambda>th. th\<lparr>thread_tid := case_option 0 id (tid_cell s)\<rparr>) (life_object s)"

lemma steps_runInThread_begin:
  assumes "life_inv tid s" and "life_pc s = LocksTid" and "life_data s = Some d"
    and "life_run tid (replicate (if life_object s = None then 2 else 4) (ThreadSteps r)) s = Inr t"
  shows "life_pc t = CallsFunc
    \<and> current_name t = Inr (snd (runInThread_begin (life_object s \<noteq> None) tid (data_name d) th))
    \<and> object_with_tid t = map_option (\<lambda>th. fst (runInThread_begin True tid (data_name d) th)) (object_with_tid s)"
  using assms
  by (cases "life_object s"; cases "tid_cell s")
    (auto simp: life_defs runInThread_begin_def current_name_def object_with_tid_def eval_nat_numeral split: if_splits)

section \<open>Property\<close>

text \<open>
  C12. Whatever the owner does with a \<open>Thread\<close> (start, join and destroy it in any order, also while its
  thread runs), in any interleaving with the thread: nothing is used after it was deleted and no POSIX
  handle twice; a run stops only at an assertion about the order of calls, when the program is aborted
  because the thread cannot be created or lets an exception out, or by a fault of the thread's own
  function. The place of the id exists exactly as long as the object or the thread owns it, the
  \<open>ThreadData\<close> from \<open>start\<close> to the end of the thread, and reading \<open>t_threadName\<close> and \<open>tid\<close> is safe. If the
  function returns, the thread ends after at most six steps, and without its object nothing is left over: the
  id and the \<open>ThreadData\<close> are deleted, and the POSIX thread is joined or detached.
\<close>

theorem Thread_lifetime_safe:
  "case life_run tid ops (ThreadLife_new name n) of
     Inl e \<Rightarrow> \<exists>op\<in>set ops. e = AssertionFailed \<or> e = ProcessAbort \<or> op = ThreadSteps (Inl e)
   | Inr s \<Rightarrow> (tid_cell s \<noteq> None \<longleftrightarrow> life_object s \<noteq> None \<or> life_pc s = WritesTid \<or> life_pc s = ResetsTid)
       \<and> (life_data s \<noteq> None \<longleftrightarrow> life_pc s \<noteq> NotRunning \<and> life_pc s \<noteq> Ended)
       \<and> (\<exists>nm. current_name s = Inr nm)
       \<and> (life_object s \<noteq> None \<longrightarrow> (\<exists>i. Thread_tid s = Inr i))
       \<and> (life_pc s \<noteq> NotRunning \<longrightarrow> (\<exists>t. life_run tid (replicate 6 (ThreadSteps (Inr ()))) s = Inr t
            \<and> life_pc t = Ended \<and> life_data t = None
            \<and> (life_object s = None \<longrightarrow> tid_cell t = None \<and> (life_handle t = Joined \<or> life_handle t = Detached))))"
proof (cases "life_run tid ops (ThreadLife_new name n)")
  case (Inl e)
  with life_run_ok [OF new_life_inv [of tid name n], of ops] show ?thesis by (auto simp: life_fault_def)
next
  case (Inr s)
  with life_run_ok [OF new_life_inv [of tid name n], of ops] have i: "life_inv tid s" by simp
  have "tid_cell s \<noteq> None \<longleftrightarrow> life_object s \<noteq> None \<or> life_pc s = WritesTid \<or> life_pc s = ResetsTid"
    "life_data s \<noteq> None \<longleftrightarrow> life_pc s \<noteq> NotRunning \<and> life_pc s \<noteq> Ended"
    using i by (auto simp: life_inv_def holds_tid_def)
  moreover have "\<exists>nm. current_name s = Inr nm"
    using i by (auto simp: life_inv_def current_name_def with_data_def split: name_pointer.split option.split)
  moreover have "life_object s \<noteq> None \<longrightarrow> (\<exists>i. Thread_tid s = Inr i)"
    using calculation(1) by (auto simp: Thread_tid_def)
  moreover have "\<exists>t. life_run tid (replicate 6 (ThreadSteps (Inr ()))) s = Inr t \<and> life_pc t = Ended \<and> life_data t = None
      \<and> (life_object s = None \<longrightarrow> tid_cell t = None \<and> (life_handle t = Joined \<or> life_handle t = Detached))"
    if r: "life_pc s \<noteq> NotRunning"
  proof -
    obtain t where t: "life_run tid (replicate 6 (ThreadSteps (Inr ()))) s = Inr t" "life_pc t = Ended"
      "life_object t = life_object s" "life_inv tid t"
      using thread_ends [OF i r] by blast
    then show ?thesis by (cases "life_handle t") (auto simp: life_inv_def holds_tid_def)
  qed
  ultimately show ?thesis by (simp add: Inr)
qed

text \<open>The object is destroyed when the thread has taken hold of the id and not written it yet.\<close>

definition early_destruction :: "life_op list" where
  "early_destruction = [OwnerStarts True, ThreadSteps (Inr ()), OwnerDestroys]"

lemma early_destruction_run:
  "case life_run 9 early_destruction (ThreadLife_new ''io'' 0) of
     Inl e \<Rightarrow> False | Inr s \<Rightarrow> life_object s = None \<and> life_pc s = WritesTid"
  by (simp add: early_destruction_def ThreadLife_new_def Thread_new_def setDefaultName_def life_defs)

theorem Thread_lifetime_safe_witness:
  "\<exists>s t. life_run 9 early_destruction (ThreadLife_new ''io'' 0) = Inr s \<and> life_object s = None \<and> tid_cell s \<noteq> None
    \<and> life_run 9 (replicate 6 (ThreadSteps (Inr ()))) s = Inr t
    \<and> life_data t = None \<and> tid_cell t = None \<and> (life_handle t = Joined \<or> life_handle t = Detached)"
proof -
  obtain s where s: "life_run 9 early_destruction (ThreadLife_new ''io'' 0) = Inr s" "life_object s = None" "life_pc s = WritesTid"
    using early_destruction_run by (auto split: sum.splits)
  show ?thesis
    using Thread_lifetime_safe [where tid = 9 and ops = early_destruction and name = "''io''" and n = 0] s by (auto simp del: life_run.simps replicate.simps)
qed

end
