(* ===== verification/Loop_Thread.thy ===== *)
theory Loop_Thread
  imports Threads Event_Loop
begin

text \<open>
  \<open>net/EventLoopThread.h\<close> and \<open>net/EventLoopThread.cpp\<close>: a thread that runs a loop. Two threads
  interleave: the owner, which constructs the object, calls \<open>startLoop\<close> and destroys it, and the
  worker, which runs \<open>threadFunc\<close>. They share the lock, the condition and \<open>loop_\<close>; the loop itself
  is the one of \<open>Event_Loop\<close>, with its own steps and the calls of other threads.
\<close>

section \<open>The state\<close>

text \<open>
  Where the owner is: the object constructed; in \<open>startLoop\<close> in front of the lock, at the test of
  \<open>loop_\<close>, waiting, in front of the return, returned (the flag tells whether with a loop); in
  \<open>stopLoop\<close> in front of the lock, at the test, between the two steps of \<open>stop\<close>, in front of
  \<open>wait\<close>, waiting; in front of \<open>join\<close>, in \<open>join\<close>, done, or stopped by a fault.
\<close>

datatype owner_pc =
    Constructed
  | StartLock | StartTest | StartWaiting | StartReturn | Returned bool
  | StopLock | StopTest | StopWake | StopWait | StopWaiting
  | JoinCall | Joining | Destroyed
  | OwnerFault fault

text \<open>
  Where the worker is in \<open>threadFunc\<close>: for each of the two critical sections in front of the lock,
  inside, and in front of the unlock; in between in \<open>loop()\<close>.
\<close>

datatype worker_pc =
    NotCreated | Created
  | PublishLock | Publishing | PublishUnlock
  | InLoop
  | ClearLock | Clearing | ClearUnlock
  | Finished

text \<open>\<open>loop_ptr\<close> tells whether \<open>loop_\<close> is not NULL.\<close>

record 'f EventLoopThread =
  lt_thread :: Thread
  lt_mutex :: MutexLock
  lt_cond :: Condition
  loop_ptr :: bool
  exiting :: bool
  lt_loop :: "'f EventLoop"
  owner :: owner_pc
  worker :: worker_pc

definition owner_tid :: nat where
  "owner_tid = 1"

definition worker_tid :: nat where
  "worker_tid = 2"

definition EventLoopThread_new :: "string \<Rightarrow> 32 word \<Rightarrow> 'f EventLoopThread \<times> 32 word" where
  "EventLoopThread_new name numCreated =
     (let (th, num) = Thread_new name numCreated
      in (\<lparr>lt_thread = th, lt_mutex = MutexLock_new, lt_cond = Condition_new, loop_ptr = False, exiting = False,
           lt_loop = EventLoop_new, owner = Constructed, worker = NotCreated\<rparr>, num))"

section \<open>The operations\<close>

text \<open>\<open>startLoop\<close> up to the lock. The new thread constructs its loop.\<close>

definition EventLoopThread_startLoop :: "bool \<Rightarrow> 'f EventLoopThread \<Rightarrow> 'f EventLoopThread" where
  "EventLoopThread_startLoop created s =
     (case assert_that (\<not> thread_started (lt_thread s)) (Thread_start created (lt_thread s)) of
        Inl e \<Rightarrow> s\<lparr>owner := OwnerFault e\<rparr>
      | Inr th \<Rightarrow> s\<lparr>lt_thread := th, owner := StartLock, worker := Created\<rparr>)"

definition EventLoopThread_destroy :: "'f EventLoopThread \<Rightarrow> 'f EventLoopThread" where
  "EventLoopThread_destroy s = s\<lparr>exiting := True, owner := StopLock\<rparr>"

definition owner_locks :: "owner_pc \<Rightarrow> 'f EventLoopThread \<Rightarrow> 'f EventLoopThread option" where
  "owner_locks p s = map_option (\<lambda>m. s\<lparr>lt_mutex := m, owner := p\<rparr>) (MutexLockGuard_construct owner_tid (lt_mutex s))"

definition owner_waits :: "owner_pc \<Rightarrow> 'f EventLoopThread \<Rightarrow> 'f EventLoopThread" where
  "owner_waits p s =
     (let (m, c) = Condition_wait_begin owner_tid (lt_mutex s) (lt_cond s)
      in s\<lparr>lt_mutex := m, lt_cond := c, owner := p\<rparr>)"

definition owner_wakes :: "owner_pc \<Rightarrow> 'f EventLoopThread \<Rightarrow> 'f EventLoopThread option" where
  "owner_wakes p s =
     map_option (\<lambda>m. s\<lparr>lt_mutex := m, owner := p\<rparr>) (Condition_wait_end owner_tid (lt_mutex s) (lt_cond s))"

text \<open>
  The next step of the owner in \<open>startLoop\<close> and in the destructor, with \<open>stopLoop\<close>, \<open>join\<close> and the
  destruction of the members; \<open>None\<close> when it is blocked or in no call.
\<close>

definition owner_next :: "'f EventLoopThread \<Rightarrow> 'f EventLoopThread option" where
  "owner_next s =
     (case owner s of
        StartLock \<Rightarrow> owner_locks StartTest s
      | StartTest \<Rightarrow>
          Some (if \<not> loop_ptr s then owner_waits StartWaiting s
                else s\<lparr>lt_mutex := MutexLockGuard_destruct (lt_mutex s), owner := StartReturn\<rparr>)
      | StartWaiting \<Rightarrow> owner_wakes StartTest s
      | StartReturn \<Rightarrow> Some (s\<lparr>owner := Returned (loop_ptr s)\<rparr>)
      | StopLock \<Rightarrow> owner_locks StopTest s
      | StopTest \<Rightarrow>
          Some (if loop_ptr s then s\<lparr>lt_loop := stop_set (Other 0) (lt_loop s), owner := StopWake\<rparr>
                else s\<lparr>lt_mutex := MutexLockGuard_destruct (lt_mutex s), owner := JoinCall\<rparr>)
      | StopWake \<Rightarrow> Some (s\<lparr>lt_loop := stop_wake (Other 0) (lt_loop s), owner := StopWait\<rparr>)
      | StopWait \<Rightarrow> Some (owner_waits StopWaiting s)
      | StopWaiting \<Rightarrow> owner_wakes StopTest s
      | JoinCall \<Rightarrow>
          Some (case Thread_join (lt_thread s) of
                  Inl e \<Rightarrow> s\<lparr>owner := OwnerFault e\<rparr>
                | Inr th \<Rightarrow> s\<lparr>lt_thread := th, owner := Joining\<rparr>)
      | Joining \<Rightarrow>
          if worker s \<noteq> Finished then None
          else Some (case andThen (Condition_destroy (lt_cond s)) (\<lambda>_. MutexLock_destroy (lt_mutex s)) of
                       Inl e \<Rightarrow> s\<lparr>owner := OwnerFault e\<rparr>
                     | Inr _ \<Rightarrow> s\<lparr>owner := Destroyed\<rparr>)
      | _ \<Rightarrow> None)"

definition worker_locks :: "worker_pc \<Rightarrow> 'f EventLoopThread \<Rightarrow> 'f EventLoopThread option" where
  "worker_locks p s = map_option (\<lambda>m. s\<lparr>lt_mutex := m, worker := p\<rparr>) (MutexLockGuard_construct worker_tid (lt_mutex s))"

definition worker_notifies :: "bool \<Rightarrow> worker_pc \<Rightarrow> 'f EventLoopThread \<Rightarrow> 'f EventLoopThread" where
  "worker_notifies ptr p s = s\<lparr>loop_ptr := ptr, lt_cond := Condition_notify 0 (lt_cond s), worker := p\<rparr>"

text \<open>The next step of the worker outside \<open>loop()\<close>; only the owner can wait for its notifications.\<close>

definition worker_next :: "'f EventLoopThread \<Rightarrow> 'f EventLoopThread option" where
  "worker_next s =
     (case worker s of
        Created \<Rightarrow>
          Some (s\<lparr>lt_thread := fst (runInThread_begin True worker_tid (thread_label (lt_thread s)) (lt_thread s)),
                  worker := PublishLock\<rparr>)
      | PublishLock \<Rightarrow> worker_locks Publishing s
      | Publishing \<Rightarrow> Some (worker_notifies True PublishUnlock s)
      | PublishUnlock \<Rightarrow> Some (s\<lparr>lt_mutex := MutexLockGuard_destruct (lt_mutex s), worker := InLoop\<rparr>)
      | InLoop \<Rightarrow> if pc (lt_loop s) = Exited then Some (s\<lparr>worker := ClearLock\<rparr>) else None
      | ClearLock \<Rightarrow> worker_locks Clearing s
      | Clearing \<Rightarrow> Some (worker_notifies False ClearUnlock s)
      | ClearUnlock \<Rightarrow> Some (s\<lparr>lt_mutex := MutexLockGuard_destruct (lt_mutex s), worker := Finished\<rparr>)
      | _ \<Rightarrow> None)"

section \<open>The steps\<close>

fun handed_out :: "owner_pc \<Rightarrow> bool" where
  "handed_out Constructed = False"
| "handed_out StartLock = False"
| "handed_out StartTest = False"
| "handed_out StartWaiting = False"
| "handed_out StartReturn = False"
| "handed_out (OwnerFault _) = False"
| "handed_out _ = True"

definition halted :: "'f EventLoopThread \<Rightarrow> bool" where
  "halted s \<longleftrightarrow> (\<exists>e. owner s = OwnerFault e) \<or> pc (lt_loop s) = Aborted"

text \<open>
  Once the loop has been handed out, and while it lives, any thread can call it, the owner
  between \<open>startLoop\<close> and the destructor and the loop thread from its callbacks; in \<open>threadFunc\<close>
  nothing calls the loop before \<open>loop()\<close>.
\<close>

definition call_ok :: "'f EventLoopThread \<Rightarrow> 'f EventLoop \<Rightarrow> bool" where
  "call_ok s l \<longleftrightarrow> loop_ptr s \<and> handed_out (owner s) \<and> phase_of l \<noteq> phase_of (lt_loop s)
     \<and> ((\<exists>b. owner s = Returned b) \<or> phase_of l (Other 0) = phase_of (lt_loop s) (Other 0))
     \<and> (pc (lt_loop s) \<noteq> NotStarted \<or> phase_of l LoopThread = phase_of (lt_loop s) LoopThread)"

text \<open>
  With \<open>noise\<close> the owner may be woken from \<open>wait\<close> and the loop from \<open>epoll_wait\<close> although nobody
  notified them.
\<close>

inductive lt_step :: "bool \<Rightarrow> 'f EventLoopThread \<Rightarrow> 'f EventLoopThread \<Rightarrow> bool" for noise where
  Start: "\<not> halted s \<Longrightarrow> owner s = Constructed \<Longrightarrow> lt_step noise s (EventLoopThread_startLoop created s)"
| Destroy: "\<not> halted s \<Longrightarrow> owner s = Constructed \<or> owner s = Returned b \<Longrightarrow> phase_of (lt_loop s) (Other 0) = Idle \<Longrightarrow>
    lt_step noise s (EventLoopThread_destroy s)"
| Owner: "\<not> halted s \<Longrightarrow> owner_next s = Some s' \<Longrightarrow> lt_step noise s s'"
| Worker: "\<not> halted s \<Longrightarrow> worker_next s = Some s' \<Longrightarrow> lt_step noise s s'"
| Loop: "\<not> halted s \<Longrightarrow> worker s = InLoop \<Longrightarrow> el_step (lt_loop s) l \<Longrightarrow> phase_of l = phase_of (lt_loop s) \<Longrightarrow>
    noise \<or> \<not> (pc (lt_loop s) = Polling \<and> pc l = Handling False) \<Longrightarrow> lt_step noise s (s\<lparr>lt_loop := l\<rparr>)"
| Call: "\<not> halted s \<Longrightarrow> el_step (lt_loop s) l \<Longrightarrow> call_ok s l \<Longrightarrow> lt_step noise s (s\<lparr>lt_loop := l\<rparr>)"
| Spurious: "\<not> halted s \<Longrightarrow> noise \<Longrightarrow> owner s = StartWaiting \<or> owner s = StopWaiting \<Longrightarrow>
    lt_step noise s (s\<lparr>lt_cond := spurious_wakeup owner_tid (lt_cond s)\<rparr>)"

inductive_cases lt_stepE: "lt_step noise s s'"

definition lt_reachable :: "'f EventLoopThread \<Rightarrow> bool" where
  "lt_reachable s \<longleftrightarrow> (\<exists>name n. (lt_step True)\<^sup>*\<^sup>* (fst (EventLoopThread_new name n)) s)"

section \<open>The invariant\<close>

fun owner_holds :: "owner_pc \<Rightarrow> bool" where
  "owner_holds StartTest = True"
| "owner_holds StopTest = True"
| "owner_holds StopWake = True"
| "owner_holds StopWait = True"
| "owner_holds _ = False"

text \<open>The points of \<open>threadFunc\<close> in their order.\<close>

fun stage :: "worker_pc \<Rightarrow> nat" where
  "stage NotCreated = 0"
| "stage Created = 1"
| "stage PublishLock = 2"
| "stage Publishing = 3"
| "stage PublishUnlock = 4"
| "stage InLoop = 5"
| "stage ClearLock = 6"
| "stage Clearing = 7"
| "stage ClearUnlock = 8"
| "stage Finished = 9"

definition worker_holds :: "worker_pc \<Rightarrow> bool" where
  "worker_holds p \<longleftrightarrow> stage p \<in> {3, 4, 7, 8}"

definition locked_mutex :: "nat \<Rightarrow> MutexLock" where
  "locked_mutex t = \<lparr>pmutex = Some t, mutex_holder = t\<rparr>"

text \<open>
  Who holds the lock, and who waits; how far the worker can be for each point of the owner, with
  \<open>w\<close> the owner not notified yet and \<open>q\<close> the flag \<open>quit_\<close>; and the loop.
\<close>

definition lock_ok :: "owner_pc \<Rightarrow> worker_pc \<Rightarrow> MutexLock \<Rightarrow> nat list \<Rightarrow> bool" where
  "lock_ok own wrk m waiting \<longleftrightarrow>
     \<not> (owner_holds own \<and> worker_holds wrk)
     \<and> m = (if owner_holds own then locked_mutex owner_tid
            else if worker_holds wrk then locked_mutex worker_tid else MutexLock_new)
     \<and> (waiting = [] \<or> waiting = [owner_tid] \<and> (own = StartWaiting \<or> own = StopWaiting))"

fun owner_ok :: "owner_pc \<Rightarrow> nat \<Rightarrow> bool \<Rightarrow> bool \<Rightarrow> bool" where
  "owner_ok Constructed st w q \<longleftrightarrow> st = 0"
| "owner_ok StartLock st w q \<longleftrightarrow> 1 \<le> st \<and> st \<le> 5"
| "owner_ok StartTest st w q \<longleftrightarrow> 1 \<le> st \<and> st \<le> 5"
| "owner_ok StartWaiting st w q \<longleftrightarrow> 1 \<le> st \<and> st \<le> 5 \<and> (w \<longrightarrow> st < 4)"
| "owner_ok StartReturn st w q \<longleftrightarrow> 4 \<le> st \<and> st \<le> 5"
| "owner_ok (Returned b) st w q \<longleftrightarrow> b \<and> 4 \<le> st"
| "owner_ok StopLock st w q \<longleftrightarrow> st = 0 \<or> 4 \<le> st"
| "owner_ok StopTest st w q \<longleftrightarrow> st = 0 \<or> 4 \<le> st"
| "owner_ok StopWake st w q \<longleftrightarrow> 4 \<le> st \<and> st \<le> 7 \<and> q"
| "owner_ok StopWait st w q \<longleftrightarrow> 4 \<le> st \<and> st \<le> 7 \<and> q"
| "owner_ok StopWaiting st w q \<longleftrightarrow> 4 \<le> st \<and> (w \<longrightarrow> st \<le> 7 \<and> q)"
| "owner_ok JoinCall st w q \<longleftrightarrow> st = 0 \<or> 8 \<le> st"
| "owner_ok Joining st w q \<longleftrightarrow> 8 \<le> st"
| "owner_ok Destroyed st w q \<longleftrightarrow> st = 9"
| "owner_ok (OwnerFault e) st w q \<longleftrightarrow> st = 0 \<and> (e = ProcessAbort \<or> e = AssertionFailed)"

definition untouched :: "'f EventLoop \<Rightarrow> bool" where
  "untouched l \<longleftrightarrow> \<not> quit l \<and> (\<forall>t. phase_of l t = Idle) \<and> pc l \<noteq> Exited"

definition loop_ok :: "owner_pc \<Rightarrow> nat \<Rightarrow> 'f EventLoop \<Rightarrow> bool" where
  "loop_ok own st l \<longleftrightarrow>
     el_inv l
     \<and> (st \<le> 4 \<longrightarrow> pc l = NotStarted)
     \<and> (6 \<le> st \<longrightarrow> pc l = Exited)
     \<and> (pc l = NotStarted \<longrightarrow> phase_of l LoopThread = Idle)
     \<and> (pc l = Aborted \<longrightarrow> quit l)
     \<and> (\<not> handed_out own \<or> st = 0 \<longrightarrow> untouched l)
     \<and> (own = StopWake \<longrightarrow> phase_of l (Other 0) = QuitSet)
     \<and> (handed_out own \<and> own \<noteq> StopWake \<and> (\<forall>b. own \<noteq> Returned b) \<longrightarrow> phase_of l (Other 0) = Idle)"

definition lt_inv :: "'f EventLoopThread \<Rightarrow> bool" where
  "lt_inv s \<longleftrightarrow>
     lock_ok (owner s) (worker s) (lt_mutex s) (cond_waiting (lt_cond s))
     \<and> owner_ok (owner s) (stage (worker s)) (cond_waiting (lt_cond s) \<noteq> []) (quit (lt_loop s))
     \<and> loop_ok (owner s) (stage (worker s)) (lt_loop s)
     \<and> (loop_ptr s \<longleftrightarrow> 4 \<le> stage (worker s) \<and> stage (worker s) \<le> 7)
     \<and> (thread_started (lt_thread s) \<longleftrightarrow> 0 < stage (worker s))
     \<and> (thread_joined (lt_thread s) \<longleftrightarrow> owner s = Joining \<or> owner s = Destroyed)"

lemma tids [simp]: "owner_tid \<noteq> worker_tid" "worker_tid \<noteq> owner_tid" "owner_tid \<noteq> 0" "worker_tid \<noteq> 0"
  by (simp_all add: owner_tid_def worker_tid_def)

lemma worker_holds_simps [simp]:
  "worker_holds Publishing" "worker_holds PublishUnlock" "worker_holds Clearing" "worker_holds ClearUnlock"
  "\<not> worker_holds NotCreated" "\<not> worker_holds Created" "\<not> worker_holds PublishLock" "\<not> worker_holds InLoop"
  "\<not> worker_holds ClearLock" "\<not> worker_holds Finished"
  by (simp_all add: worker_holds_def)

lemma locked_mutex_simps [simp]:
  "pmutex (locked_mutex t) = Some t" "mutex_holder (locked_mutex t) = t"
  "pmutex MutexLock_new = None" "mutex_holder MutexLock_new = 0"
  "MutexLock_new\<lparr>mutex_holder := t, pmutex := Some t\<rparr> = locked_mutex t"
  "MutexLock_unlock m = MutexLock_new" "m\<lparr>mutex_holder := 0, pmutex := None\<rparr> = MutexLock_new"
  by (simp_all add: locked_mutex_def MutexLock_new_def MutexLock_unlock_def unassignHolder_def)

lemma stage_simps [simp]:
  "stage p = 0 \<longleftrightarrow> p = NotCreated" "stage p = 9 \<longleftrightarrow> p = Finished"
  by (cases p; simp)+

lemma owner_ok_quit: "owner_ok own st w q \<Longrightarrow> (q \<longrightarrow> q') \<Longrightarrow> owner_ok own st w q'"
  by (cases own) auto

lemma owner_ok_notified: "owner_ok own st w q \<Longrightarrow> owner_ok own st False q"
  by (cases own) auto

lemma lt_inv_new: "lt_inv (fst (EventLoopThread_new name n))"
  by (simp add: lt_inv_def lock_ok_def loop_ok_def untouched_def EventLoopThread_new_def Thread_new_def setDefaultName_def
      Condition_new_def el_inv_new Let_def split_def)
    (simp add: EventLoop_new_def)

lemmas lt_next_defs = owner_locks_def owner_waits_def owner_wakes_def worker_locks_def worker_notifies_def
  Condition_wait_begin_def Condition_notify_def unassignHolder_def runInThread_begin_def

text \<open>The steps of the loop itself, and the calls.\<close>

lemma el_step_internal:
  "el_step l l' \<Longrightarrow> phase_of l' = phase_of l \<Longrightarrow> quit l' = quit l \<and> pc l \<noteq> Exited \<and> pc l' \<noteq> NotStarted
    \<and> (pc l' = Exited \<or> pc l' = Aborted \<longrightarrow> quit l)"
  by (erule el_stepE) (auto simp: el_defs fun_upd_def fun_eq_iff may_call_def split: if_splits)

lemma el_step_call:
  "el_step l l' \<Longrightarrow> phase_of l' \<noteq> phase_of l \<Longrightarrow> pc l' = pc l \<and> (quit l \<longrightarrow> quit l')"
  by (erule el_stepE) (auto simp: el_defs)

lemma lt_invD:
  assumes "lt_inv s"
  shows "lock_ok (owner s) (worker s) (lt_mutex s) (cond_waiting (lt_cond s))"
    "owner_ok (owner s) (stage (worker s)) (cond_waiting (lt_cond s) \<noteq> []) (quit (lt_loop s))"
    "loop_ok (owner s) (stage (worker s)) (lt_loop s)"
    "loop_ptr s \<longleftrightarrow> 4 \<le> stage (worker s) \<and> stage (worker s) \<le> 7"
    "thread_started (lt_thread s) \<longleftrightarrow> 0 < stage (worker s)"
    "thread_joined (lt_thread s) \<longleftrightarrow> owner s = Joining \<or> owner s = Destroyed"
  using assms unfolding lt_inv_def by blast+

lemma inv_start:
  assumes "lt_inv s" and "owner s = Constructed"
  shows "lt_inv (EventLoopThread_startLoop created s)"
  using assms
  by (cases created)
    (auto simp: lt_inv_def lock_ok_def loop_ok_def EventLoopThread_startLoop_def Thread_start_def assert_that_def)

lemma inv_destroy:
  assumes "lt_inv s" and "owner s = Constructed \<or> owner s = Returned b" and "phase_of (lt_loop s) (Other 0) = Idle"
  shows "lt_inv (EventLoopThread_destroy s)"
proof -
  note i = lt_invD [OF assms(1)]
  have "lock_ok StopLock (worker s) (lt_mutex s) (cond_waiting (lt_cond s))"
    using i(1) assms(2) by (auto simp: lock_ok_def)
  moreover have "owner_ok StopLock (stage (worker s)) w q" for w q using i(2) assms(2) by auto
  moreover have "loop_ok StopLock (stage (worker s)) (lt_loop s)"
    using i(2,3) assms(2,3) by (auto simp: loop_ok_def)
  ultimately show ?thesis
    using i(4-6) assms(2) by (auto simp: lt_inv_def EventLoopThread_destroy_def)
qed

lemma inv_loop:
  assumes "lt_inv s" and "worker s = InLoop" and "el_step (lt_loop s) l" and "phase_of l = phase_of (lt_loop s)"
  shows "lt_inv (s\<lparr>lt_loop := l\<rparr>)"
proof -
  note i = el_step_internal [OF assms(3,4)]
  have "loop_ok (owner s) 5 (lt_loop s)" using lt_invD(3) [OF assms(1)] assms(2) by simp
  then have "loop_ok (owner s) 5 l"
    using assms(4) i el_inv_step [OF _ assms(3)] by (auto simp: loop_ok_def untouched_def)
  with assms(1,2) i show ?thesis by (simp add: lt_inv_def)
qed

lemma inv_call:
  assumes "lt_inv s" and "el_step (lt_loop s) l" and "call_ok s l"
  shows "lt_inv (s\<lparr>lt_loop := l\<rparr>)"
proof -
  have ne: "phase_of l \<noteq> phase_of (lt_loop s)" using assms(3) by (simp add: call_ok_def)
  note i = el_step_call [OF assms(2) ne] and I = lt_invD [OF assms(1)]
  have st: "0 < stage (worker s)" "handed_out (owner s)"
    "(\<exists>b. owner s = Returned b) \<or> phase_of l (Other 0) = phase_of (lt_loop s) (Other 0)"
    "pc (lt_loop s) \<noteq> NotStarted \<or> phase_of l LoopThread = phase_of (lt_loop s) LoopThread"
    using I(4) assms(3) by (auto simp: call_ok_def)
  have "loop_ok (owner s) (stage (worker s)) l"
    unfolding loop_ok_def
  proof (intro conjI)
    show "el_inv l" using I(3) el_inv_step [OF _ assms(2)] by (simp add: loop_ok_def)
    show "pc l = NotStarted \<longrightarrow> phase_of l LoopThread = Idle" using I(3) st(4) i by (auto simp: loop_ok_def)
    show "owner s = StopWake \<longrightarrow> phase_of l (Other 0) = QuitSet" using I(3) st(3) by (auto simp: loop_ok_def)
    show "handed_out (owner s) \<and> owner s \<noteq> StopWake \<and> (\<forall>b. owner s \<noteq> Returned b) \<longrightarrow> phase_of l (Other 0) = Idle"
      using I(3) st(3) by (auto simp: loop_ok_def)
    show "stage (worker s) \<le> 4 \<longrightarrow> pc l = NotStarted" "6 \<le> stage (worker s) \<longrightarrow> pc l = Exited"
      "pc l = Aborted \<longrightarrow> quit l"
      using I(3) i unfolding loop_ok_def by metis+
    show "\<not> handed_out (owner s) \<or> stage (worker s) = 0 \<longrightarrow> untouched l" using st(1,2) by (metis less_irrefl)
  qed
  moreover have "owner_ok (owner s) (stage (worker s)) (cond_waiting (lt_cond s) \<noteq> []) (quit l)"
    using I(2) i owner_ok_quit by blast
  ultimately show ?thesis using I by (simp add: lt_inv_def)
qed

lemma inv_spurious:
  assumes "lt_inv s"
  shows "lt_inv (s\<lparr>lt_cond := spurious_wakeup owner_tid (lt_cond s)\<rparr>)"
proof -
  have "cond_waiting (spurious_wakeup owner_tid (lt_cond s)) = []"
    using assms by (auto simp: lt_inv_def lock_ok_def spurious_wakeup_def)
  with assms owner_ok_notified show ?thesis
    by (auto simp: lt_inv_def lock_ok_def)
qed

lemma loop_ok_stage:
  "loop_ok own st l \<Longrightarrow> 0 < st \<Longrightarrow> st' \<le> 4 \<longrightarrow> pc l = NotStarted \<Longrightarrow> 6 \<le> st' \<longrightarrow> pc l = Exited \<Longrightarrow> 0 < st' \<Longrightarrow> loop_ok own st' l"
  by (auto simp: loop_ok_def)

lemma owner_ok_next:
  "owner_ok own st w q \<Longrightarrow> 0 < st \<Longrightarrow> st < 9 \<Longrightarrow> (st = 3 \<or> st = 7 \<longrightarrow> \<not> w' \<and> \<not> owner_holds own) \<Longrightarrow>
   (5 \<le> st \<longrightarrow> handed_out own) \<Longrightarrow> (w' \<longrightarrow> w) \<Longrightarrow> owner_ok own (Suc st) w' q"
  by (cases own) auto

lemma loop_ok_handed: "loop_ok own st l \<Longrightarrow> pc l = Exited \<Longrightarrow> handed_out own"
  by (auto simp: loop_ok_def untouched_def)

lemma worker_stepI:
  assumes "lt_inv s" and "owner s' = owner s" and "lt_loop s' = lt_loop s"
    and "0 < stage (worker s)" and "stage (worker s') = Suc (stage (worker s))"
    and "lock_ok (owner s) (worker s') (lt_mutex s') (cond_waiting (lt_cond s'))"
    and "cond_waiting (lt_cond s') \<noteq> [] \<longrightarrow> cond_waiting (lt_cond s) \<noteq> []"
    and "stage (worker s) = 3 \<or> stage (worker s) = 7 \<longrightarrow> cond_waiting (lt_cond s') = [] \<and> \<not> owner_holds (owner s)"
    and "stage (worker s) = 5 \<longrightarrow> pc (lt_loop s) = Exited"
    and "stage (worker s) = 4 \<longrightarrow> pc (lt_loop s) = NotStarted"
    and "loop_ptr s' \<longleftrightarrow> 4 \<le> stage (worker s') \<and> stage (worker s') \<le> 7"
    and "thread_started (lt_thread s') = thread_started (lt_thread s)"
    and "thread_joined (lt_thread s') = thread_joined (lt_thread s)"
  shows "lt_inv s'"
proof -
  let ?st = "stage (worker s)" and ?l = "lt_loop s"
  have lo: "loop_ok (owner s) ?st ?l" and ok: "owner_ok (owner s) ?st (cond_waiting (lt_cond s) \<noteq> []) (quit ?l)"
    using assms(1) by (simp_all add: lt_inv_def)
  have ex: "5 \<le> ?st \<longrightarrow> pc ?l = Exited" using lo assms(9) by (auto simp: loop_ok_def)
  then have "loop_ok (owner s) (Suc ?st) ?l"
    using lo assms(4) by (auto simp: loop_ok_def)
  moreover have "owner_ok (owner s) (Suc ?st) (cond_waiting (lt_cond s') \<noteq> []) (quit ?l)"
  proof (rule owner_ok_next [OF ok assms(4)])
    show "?st < 9" using assms(5) by (cases "worker s'") auto
  qed (use assms(7,8) ex loop_ok_handed [OF lo] in auto)
  ultimately show ?thesis
    using assms unfolding lt_inv_def by simp
qed

lemma lock_ok_free:
  "lock_ok own wrk m ws \<Longrightarrow> pmutex m = None \<longleftrightarrow> \<not> owner_holds own \<and> \<not> worker_holds wrk"
  by (auto simp: lock_ok_def)

lemma notify_waiting: "ws = [] \<or> ws = [t] \<Longrightarrow> take 0 ws @ drop (0 + 1) ws = []"
  by auto

lemma lock_ok_taken:
  "lock_ok own wrk m ws \<Longrightarrow> pmutex m = None \<Longrightarrow> worker_holds wrk' \<Longrightarrow>
   lock_ok own wrk' (m\<lparr>mutex_holder := worker_tid, pmutex := Some worker_tid\<rparr>) ws"
  "lock_ok own wrk m ws \<Longrightarrow> worker_holds wrk \<Longrightarrow> \<not> worker_holds wrk' \<Longrightarrow> lock_ok own wrk' MutexLock_new ws"
  "lock_ok own wrk m ws \<Longrightarrow> worker_holds wrk = worker_holds wrk' \<Longrightarrow> lock_ok own wrk' m ws"
  "lock_ok own wrk m ws \<Longrightarrow> worker_holds wrk = worker_holds wrk' \<Longrightarrow> lock_ok own wrk' m []"
  "lock_ok own wrk m ws \<Longrightarrow> worker_holds wrk \<Longrightarrow> \<not> owner_holds own"
  "lock_ok own wrk m ws \<Longrightarrow> take 0 ws @ drop (0 + 1) ws = []"
  by (auto simp: lock_ok_def split: if_splits)

lemma inv_worker:
  assumes "lt_inv s" and "worker_next s = Some s'"
  shows "lt_inv s'"
proof -
  note i = lt_invD [OF assms(1)]
  have lp: "stage (worker s) = 4 \<longrightarrow> pc (lt_loop s) = NotStarted"
    using i(3) by (simp add: loop_ok_def)
  note lock = lock_ok_taken [OF i(1)]
  show ?thesis
  proof (cases "worker s")
    case Created
    with assms(2) lock(3) i(4) show ?thesis
      by (intro worker_stepI [OF assms(1)]) (auto simp: worker_next_def lt_next_defs)
  next
    case PublishLock
    with assms(2) lock(1) i(4) show ?thesis
      by (intro worker_stepI [OF assms(1)]) (auto simp: worker_next_def lt_next_defs)
  next
    case Publishing
    with assms(2) lock(4,5,6) i(4) show ?thesis
      by (intro worker_stepI [OF assms(1)]) (auto simp: worker_next_def lt_next_defs)
  next
    case PublishUnlock
    with assms(2) lock(2) i(4) lp show ?thesis
      by (intro worker_stepI [OF assms(1)]) (auto simp: worker_next_def lt_next_defs)
  next
    case InLoop
    with assms(2) lock(3) i(4) show ?thesis
      by (intro worker_stepI [OF assms(1)]) (auto simp: worker_next_def lt_next_defs split: if_splits)
  next
    case ClearLock
    with assms(2) lock(1) i(4) show ?thesis
      by (intro worker_stepI [OF assms(1)]) (auto simp: worker_next_def lt_next_defs)
  next
    case Clearing
    with assms(2) lock(4,5,6) i(4) show ?thesis
      by (intro worker_stepI [OF assms(1)]) (auto simp: worker_next_def lt_next_defs)
  next
    case ClearUnlock
    with assms(2) lock(2) i(4) show ?thesis
      by (intro worker_stepI [OF assms(1)]) (auto simp: worker_next_def lt_next_defs)
  qed (use assms(2) in \<open>simp_all add: worker_next_def\<close>)
qed

lemma loop_ok_move:
  "loop_ok own st l \<Longrightarrow> handed_out own' = handed_out own \<Longrightarrow> (\<forall>b. own \<noteq> Returned b) \<Longrightarrow> own \<noteq> StopWake \<Longrightarrow> own' \<noteq> StopWake \<Longrightarrow>
   loop_ok own' st l"
  by (auto simp: loop_ok_def)

lemma lock_ok_owner:
  "lock_ok own wrk m ws \<Longrightarrow> pmutex m = None \<Longrightarrow> owner_holds own' \<Longrightarrow> ws = [] \<Longrightarrow>
   lock_ok own' wrk (m\<lparr>mutex_holder := owner_tid, pmutex := Some owner_tid\<rparr>) ws"
  "lock_ok own wrk m ws \<Longrightarrow> owner_holds own \<Longrightarrow> \<not> owner_holds own' \<Longrightarrow> lock_ok own' wrk MutexLock_new ws"
  "lock_ok own wrk m ws \<Longrightarrow> owner_holds own \<Longrightarrow> own' = StartWaiting \<or> own' = StopWaiting \<Longrightarrow>
   lock_ok own' wrk MutexLock_new (ws @ [owner_tid])"
  "lock_ok own wrk m ws \<Longrightarrow> owner_holds own = owner_holds own' \<Longrightarrow> own \<noteq> StartWaiting \<Longrightarrow> own \<noteq> StopWaiting \<Longrightarrow> lock_ok own' wrk m ws"
  "lock_ok own wrk m ws \<Longrightarrow> owner_tid \<notin> set ws \<Longrightarrow> ws = []"
  "lock_ok own wrk m ws \<Longrightarrow> own \<noteq> StartWaiting \<Longrightarrow> own \<noteq> StopWaiting \<Longrightarrow> ws = []"
  by (auto simp: lock_ok_def split: if_splits)

fun starting :: "owner_pc \<Rightarrow> bool" where
  "starting StartLock = True"
| "starting StartTest = True"
| "starting StartWaiting = True"
| "starting StartReturn = True"
| "starting _ = False"

fun stopping :: "owner_pc \<Rightarrow> bool" where
  "stopping StopLock = True"
| "stopping StopTest = True"
| "stopping StopWake = True"
| "stopping StopWait = True"
| "stopping StopWaiting = True"
| "stopping JoinCall = True"
| "stopping Joining = True"
| "stopping _ = False"

lemma owner_stepI:
  assumes "lt_inv s" and "worker s' = worker s" and "loop_ptr s' = loop_ptr s"
    and "thread_started (lt_thread s') = thread_started (lt_thread s)"
    and "lock_ok (owner s') (worker s) (lt_mutex s') (cond_waiting (lt_cond s'))"
    and "owner_ok (owner s') (stage (worker s)) (cond_waiting (lt_cond s') \<noteq> []) (quit (lt_loop s'))"
    and "loop_ok (owner s') (stage (worker s)) (lt_loop s')"
    and "thread_joined (lt_thread s') \<longleftrightarrow> owner s' = Joining \<or> owner s' = Destroyed"
  shows "lt_inv s'"
  using lt_invD(4,5) [OF assms(1)] assms(2-8) by (simp add: lt_inv_def)

lemma loop_ok_stop:
  "loop_ok StopTest st l \<Longrightarrow> 0 < st \<Longrightarrow> loop_ok StopWake st (stop_set (Other 0) l)"
  "loop_ok StopWake st l \<Longrightarrow> 0 < st \<Longrightarrow> loop_ok StopWait st (stop_wake (Other 0) l)"
  using inv_stop_set [of l "Other 0"] inv_stop_wake [of l "Other 0"]
  by (auto simp: loop_ok_def may_call_def stop_set_def stop_wake_def isInLoopThread_def)

lemma inv_owner_start:
  assumes "lt_inv s" and "owner_next s = Some s'" and "starting (owner s)"
  shows "lt_inv s'"
proof -
  note i = lt_invD [OF assms(1)] and lock = lock_ok_owner [OF lt_invD(1) [OF assms(1)]]
  note move = loop_ok_move [OF i(3)] and I = owner_stepI [OF assms(1)]
  show ?thesis
  proof (cases "owner s")
    case StartLock
    with assms(2) lock(1,6) i(2,6) move show ?thesis
      by (intro I) (auto simp: owner_next_def lt_next_defs)
  next
    case StartTest
    with assms(2) lock(2,3,6) i(2,4,6) move show ?thesis
      by (intro I; cases "loop_ptr s") (auto simp: owner_next_def lt_next_defs)
  next
    case StartWaiting
    with assms(2) lock(1,5) i(2,6) move show ?thesis
      by (intro I) (auto simp: owner_next_def lt_next_defs)
  next
    case StartReturn
    with assms(2) lock(4) i(2-4,6) show ?thesis
      by (intro I) (auto simp: owner_next_def loop_ok_def)
  qed (use assms(2,3) in \<open>simp_all add: owner_next_def\<close>)
qed

lemma inv_owner_stop:
  assumes "lt_inv s" and "owner_next s = Some s'" and "stopping (owner s) \<and> owner s \<noteq> JoinCall \<and> owner s \<noteq> Joining"
  shows "lt_inv s'"
proof -
  note i = lt_invD [OF assms(1)] and lock = lock_ok_owner [OF lt_invD(1) [OF assms(1)]]
  note move = loop_ok_move [OF i(3)] and I = owner_stepI [OF assms(1)]
  show ?thesis
  proof (cases "owner s")
    case StopLock
    with assms(2) lock(1,6) i(2,6) move show ?thesis
      by (intro I) (auto simp: owner_next_def lt_next_defs)
  next
    case StopTest
    show ?thesis
    proof (cases "loop_ptr s")
      case True
      with StopTest i(3,4) have "loop_ok StopWake (stage (worker s)) (stop_set (Other 0) (lt_loop s))"
        by (intro loop_ok_stop(1)) simp_all
      moreover have "quit (stop_set (Other 0) (lt_loop s))" by (simp add: stop_set_def)
      ultimately show ?thesis
        using assms(2) StopTest True lock(4,6) i(2,4,6) by (intro I) (auto simp: owner_next_def)
    next
      case False
      with assms(2) StopTest lock(2,6) i(2,4,6) move show ?thesis
        by (intro I) (auto simp: owner_next_def)
    qed
  next
    case StopWake
    with i(2,3) have "loop_ok StopWait (stage (worker s)) (stop_wake (Other 0) (lt_loop s))"
      by (intro loop_ok_stop(2)) simp_all
    moreover have "quit (stop_wake (Other 0) l) = quit l" for l :: "'a EventLoop" by (simp add: stop_wake_def)
    ultimately show ?thesis
      using assms(2) StopWake lock(4,6) i(2,6) by (intro I) (auto simp: owner_next_def)
  next
    case StopWait
    with assms(2) lock(3,6) i(2,6) move show ?thesis
      by (intro I) (auto simp: owner_next_def lt_next_defs)
  next
    case StopWaiting
    with assms(2) lock(1,5) i(2,6) move show ?thesis
      by (intro I) (auto simp: owner_next_def lt_next_defs)
  qed (use assms(2,3) in \<open>simp_all add: owner_next_def\<close>)
qed

lemma inv_owner_join:
  assumes "lt_inv s" and "owner_next s = Some s'" and "owner s = JoinCall \<or> owner s = Joining"
  shows "lt_inv s'"
proof -
  note i = lt_invD [OF assms(1)] and lock = lock_ok_owner [OF lt_invD(1) [OF assms(1)]]
  note move = loop_ok_move [OF i(3)] and I = owner_stepI [OF assms(1)]
  show ?thesis
  proof (cases "owner s")
    case JoinCall
    then have nj: "\<not> thread_joined (lt_thread s)" using i(6) by simp
    show ?thesis
    proof (cases "thread_started (lt_thread s)")
      case True
      then have "0 < stage (worker s)" using i(5) by blast
      then have "8 \<le> stage (worker s)" using JoinCall i(2) by (metis less_irrefl owner_ok.simps(12))
      then show ?thesis
        using assms(2) JoinCall True nj lock(4,6) move
        by (intro I) (auto simp: owner_next_def Thread_join_def assert_that_def)
    next
      case False
      then have "stage (worker s) = 0" using i(5) by blast
      moreover from this have "loop_ok (OwnerFault AssertionFailed) 0 (lt_loop s)"
        using i(3) by (auto simp: loop_ok_def)
      ultimately show ?thesis
        using assms(2) JoinCall False nj lock(4,6)
        by (intro I) (auto simp: owner_next_def Thread_join_def assert_that_def)
    qed
  next
    case Joining
    then have w: "worker s = Finished" using assms(2) by (auto simp: owner_next_def split: if_splits)
    with Joining i(1) have "lt_mutex s = MutexLock_new" "cond_waiting (lt_cond s) = []" by (simp_all add: lock_ok_def)
    then have "s' = s\<lparr>owner := Destroyed\<rparr>"
      using assms(2) Joining w
      by (simp add: owner_next_def Condition_destroy_def MutexLock_destroy_def assert_that_def andThen_def)
    with Joining w i(6) lock(4,6) move show ?thesis
      by (intro I) auto
  qed (use assms(2,3) in \<open>simp_all add: owner_next_def\<close>)
qed

lemma inv_owner:
  assumes "lt_inv s" and "owner_next s = Some s'"
  shows "lt_inv s'"
proof -
  have "starting (owner s) \<or> stopping (owner s)"
    using assms(2) by (cases "owner s") (auto simp: owner_next_def)
  then show ?thesis
    using inv_owner_start [OF assms] inv_owner_stop [OF assms] inv_owner_join [OF assms] by blast
qed

lemma lt_inv_step: "lt_inv s \<Longrightarrow> lt_step noise s s' \<Longrightarrow> lt_inv s'"
  by (erule lt_stepE) (auto intro: inv_start inv_destroy inv_owner inv_worker inv_loop inv_call inv_spurious)

lemma lt_reachable_inv: "lt_reachable s \<Longrightarrow> lt_inv s"
proof -
  have "(lt_step True)\<^sup>*\<^sup>* s0 s \<Longrightarrow> lt_inv s0 \<Longrightarrow> lt_inv s" for s0
    by (induction rule: rtranclp_induct) (auto intro: lt_inv_step)
  then show "lt_reachable s \<Longrightarrow> lt_inv s"
    unfolding lt_reachable_def using lt_inv_new by blast
qed

section \<open>Progress of the loop\<close>

text \<open>How far a loop with \<open>quit_\<close> set is from its exit.\<close>

fun pc_rank :: "nat \<Rightarrow> nat \<Rightarrow> 'f loop_pc \<Rightarrow> nat" where
  "pc_rank p w NotStarted = 9 + p"
| "pc_rank p w Polling = (if w = 0 then 8 + p else 7 + p)"
| "pc_rank p w (Handling b) = (if b then 6 + p else 5 + p)"
| "pc_rank p w AtDo = 4 + p"
| "pc_rank p w AtSwap = 3 + p"
| "pc_rank p w (Running fs) = 2 + length fs"
| "pc_rank p w AtTest = 1"
| "pc_rank p w _ = 0"

definition el_rank :: "'f EventLoop \<Rightarrow> nat" where
  "el_rank l = pc_rank (length (pendingFunctors l)) (wakeup_count l) (pc l) + (if phase_of l LoopThread = Idle then 0 else 1)"

definition quiet_step :: "'f EventLoop \<Rightarrow> 'f EventLoop \<Rightarrow> bool" where
  "quiet_step l l' \<longleftrightarrow> el_step l l' \<and>
     (if phase_of l' = phase_of l then \<not> (pc l = Polling \<and> pc l' = Handling False)
      else phase_of l' (Other 0) = phase_of l (Other 0))"

lemma pc_rank_woken: "pc_rank p (w + 1) q \<le> pc_rank p w q"
  by (cases q) auto

lemma wakeup_count_set_phase [simp]: "wakeup_count (set_phase t p l) = wakeup_count l"
  by (simp add: set_phase_def)

lemma call_ends:
  assumes "phase_of l t \<noteq> Idle" and "t \<noteq> Other 0"
  obtains l' where "quiet_step l l'" "phase_of l' = (phase_of l)(t := Idle)" "pc l' = pc l" "quit l' = quit l"
    "pendingFunctors l' = pendingFunctors l"
    "wakeup_count l' = wakeup_count l + (if t = LoopThread \<and> (phase_of l t = QuitSet \<or> \<not> callingPendingFunctors l) then 0 else 1)"
proof -
  consider "phase_of l t = Pushed" | "phase_of l t = QuitSet" using assms(1) by (cases "phase_of l t") auto
  then show thesis
  proof cases
    case 1
    have "phase_of l t \<noteq> Idle" using 1 by simp
    then show thesis
      using 1 assms(2) Wake [OF 1]
      by (intro that [of "QueueInLoop_wake t l"])
        (auto simp: quiet_step_def QueueInLoop_wake_def EventLoop_wakeup_def isInLoopThread_def set_phase_def fun_upd_idem_iff)
  next
    case 2
    have "phase_of l t \<noteq> Idle" using 2 by simp
    then show thesis
      using 2 assms(2) StopWake [OF 2]
      by (intro that [of "stop_wake t l"])
        (auto simp: quiet_step_def stop_wake_def EventLoop_wakeup_def isInLoopThread_def set_phase_def fun_upd_idem_iff)
  qed
qed

lemma polling_progress:
  assumes "el_inv l" and "quit l" and "pc l = Polling" and "phase_of l (Other 0) = Idle" and "phase_of l LoopThread = Idle"
  shows "\<exists>l'. quiet_step l l' \<and> el_rank l' < el_rank l \<and> quit l' \<and> (pc l' = Polling \<or> pc l' = Handling True)"
proof (cases "wakeup_count l = 0")
  case False
  then have "el_step l (l\<lparr>pc := Handling True\<rparr>)" using Poll [OF assms(3), of True] by simp
  with assms False show ?thesis
    by (intro exI [of _ "l\<lparr>pc := Handling True\<rparr>"]) (simp add: quiet_step_def el_rank_def)
next
  case True
  then obtain t where t: "waking t l"
    using assms(1-3) by (auto simp: el_inv_def woken_def)
  then have "phase_of l t \<noteq> Idle" "t \<noteq> LoopThread" using assms(5) by (auto simp: waking_def split: if_splits)
  moreover from this assms(4) have "t \<noteq> Other 0" by auto
  ultimately obtain l' where "quiet_step l l'" "phase_of l' = (phase_of l)(t := Idle)" "pc l' = pc l"
    "quit l' = quit l" "pendingFunctors l' = pendingFunctors l" "wakeup_count l' = wakeup_count l + 1"
    using call_ends [of l t] by auto
  then show ?thesis using assms(2,3,5) True by (intro exI [of _ l']) (auto simp: el_rank_def)
qed

lemma loop_progress:
  assumes "el_inv l" and "quit l" and "pc l \<notin> {NotStarted, Exited, Aborted}" and "phase_of l (Other 0) = Idle"
  shows "\<exists>l'. quiet_step l l' \<and> el_rank l' < el_rank l \<and> quit l' \<and> pc l' \<notin> {NotStarted, Aborted}"
proof (cases "phase_of l LoopThread = Idle")
  case False
  show ?thesis
  proof (rule call_ends [OF False])
    fix l' assume l': "quiet_step l l'" "phase_of l' = (phase_of l)(LoopThread := Idle)" "pc l' = pc l" "quit l' = quit l"
      "pendingFunctors l' = pendingFunctors l"
      "wakeup_count l' = wakeup_count l + (if LoopThread = LoopThread \<and> (phase_of l LoopThread = QuitSet
        \<or> \<not> callingPendingFunctors l) then 0 else 1)"
    have "pc_rank p (wakeup_count l') q \<le> pc_rank p (wakeup_count l) q" for p and q :: "'a loop_pc"
      unfolding l'(6) using pc_rank_woken [of p "wakeup_count l" q] by simp
    then have "el_rank l' < el_rank l"
      using l'(2,3,5) False unfolding el_rank_def by (simp add: le_imp_less_Suc)
    with l' assms(2,3) show ?thesis by auto
  qed simp
next
  case idle: True
  have own: "\<exists>l'. quiet_step l l' \<and> el_rank l' < el_rank l \<and> quit l' \<and> pc l' \<notin> {NotStarted, Aborted}"
    if "el_step l m" "phase_of m = phase_of l" "quit m" "pc m \<notin> {NotStarted, Aborted}" "el_rank m < el_rank l"
      "\<not> (pc l = Polling \<and> pc m = Handling False)" for m
    using that unfolding quiet_step_def by metis
  show ?thesis
  proof (cases "pc l")
    case AtTest
    show ?thesis using assms(2) AtTest idle
      by (intro own [OF Test [OF AtTest]]) (auto simp: loop_test_def el_rank_def)
  next
    case Polling
    with polling_progress [OF assms(1,2) _ assms(4) idle] assms(2) show ?thesis by fastforce
  next
    case (Handling b)
    show ?thesis
    proof (cases b)
      case True
      then have h: "pc l = Handling True" using Handling by simp
      then show ?thesis using assms(2) idle
        by (intro own [OF HandleWakeup [OF h idle]]) (auto simp: el_rank_def EventLoop_handleRead_def)
    next
      case False
      then have h: "pc l = Handling False" using Handling by simp
      then show ?thesis using assms(2) idle
        by (intro own [OF Handled [OF h idle]]) (auto simp: el_rank_def)
    qed
  next
    case AtDo
    then show ?thesis using assms(2) idle
      by (intro own [OF DoBegin [OF AtDo]]) (auto simp: el_rank_def pending_begin_def)
  next
    case AtSwap
    then show ?thesis using assms(2) idle
      by (intro own [OF Swap [OF AtSwap]]) (auto simp: el_rank_def pending_swap_def)
  next
    case (Running fs)
    show ?thesis
    proof (cases fs)
      case Nil
      with Running have h: "pc l = Running []" by simp
      then show ?thesis using assms(2) idle
        by (intro own [OF DoEnd [OF h]]) (auto simp: el_rank_def pending_end_def)
    next
      case (Cons f gs)
      with Running have h: "pc l = Running (f # gs)" by simp
      then show ?thesis using assms(2) idle
        by (intro own [OF Ran [OF h idle]]) (auto simp: el_rank_def)
    qed
  qed (use assms(3) in simp_all)
qed

section \<open>Progress of the handshake\<close>

text \<open>
  The points of the owner on its way to the end of \<open>startLoop\<close> and of the destructor; \<open>w\<close> tells
  that it waits and has not been notified yet.
\<close>

fun owner_rank :: "bool \<Rightarrow> owner_pc \<Rightarrow> nat" where
  "owner_rank w StartWaiting = (if w then 0 else 9)"
| "owner_rank w StopWaiting = (if w then 0 else 9)"
| "owner_rank w StartLock = 8"
| "owner_rank w StopLock = 8"
| "owner_rank w StartTest = 7"
| "owner_rank w StopTest = 7"
| "owner_rank w StopWake = 6"
| "owner_rank w StopWait = 5"
| "owner_rank w JoinCall = 4"
| "owner_rank w Joining = 3"
| "owner_rank w StartReturn = 2"
| "owner_rank w _ = 1"

definition handshake_order :: "('f EventLoopThread \<times> 'f EventLoopThread) set" where
  "handshake_order = measures [\<lambda>s. 9 - stage (worker s), \<lambda>s. el_rank (lt_loop s),
     \<lambda>s. owner_rank (cond_waiting (lt_cond s) \<noteq> []) (owner s)]"

lemma wf_handshake: "wf handshake_order"
  by (simp add: handshake_order_def)

lemma worker_next_stage: "worker_next s = Some s' \<Longrightarrow> stage (worker s') = Suc (stage (worker s)) \<and> owner s' = owner s
    \<and> lt_loop s' = lt_loop s"
  by (cases "worker s") (auto simp: worker_next_def lt_next_defs split: if_splits)

lemma worker_progress:
  assumes "lt_inv s" and "\<not> halted s" and "worker_next s \<noteq> None"
  shows "\<exists>s'. lt_step noise s s' \<and> lt_inv s' \<and> owner s' = owner s \<and> lt_loop s' = lt_loop s
    \<and> 0 < stage (worker s') \<and> (s', s) \<in> handshake_order"
proof -
  obtain s' where s': "worker_next s = Some s'" using assms(3) by blast
  have "stage (worker s') \<le> 9" by (cases "worker s'") auto
  with worker_next_stage [OF s'] Worker [OF assms(2) s'] inv_worker [OF assms(1) s'] show ?thesis
    by (intro exI [of _ s']) (auto simp: handshake_order_def)
qed

lemma worker_enabled:
  assumes "lt_inv s" and "worker s \<noteq> NotCreated" and "worker s \<noteq> Finished"
    and "worker_holds (worker s) \<or> \<not> owner_holds (owner s)" and "worker s = InLoop \<longrightarrow> pc (lt_loop s) = Exited"
  shows "worker_next s \<noteq> None"
  using lock_ok_free [OF lt_invD(1) [OF assms(1)]] assms(2-5)
  by (cases "worker s") (auto simp: worker_next_def worker_locks_def)

lemma owner_next_rank:
  assumes "lt_inv s" and "owner_next s = Some s'"
  shows "owner_rank (cond_waiting (lt_cond s') \<noteq> []) (owner s') < owner_rank (cond_waiting (lt_cond s) \<noteq> []) (owner s)
    \<and> worker s' = worker s \<and> el_rank (lt_loop s') \<le> el_rank (lt_loop s) \<and> pc (lt_loop s') = pc (lt_loop s)"
proof -
  have "el_rank (stop_set (Other 0) l) = el_rank l" for l :: "'a EventLoop"
    by (simp add: el_rank_def stop_set_def)
  moreover have "el_rank (stop_wake (Other 0) l) \<le> el_rank l" for l :: "'a EventLoop"
    using pc_rank_woken [of "length (pendingFunctors l)" "wakeup_count l" "pc l"]
    by (simp add: el_rank_def stop_wake_def isInLoopThread_def EventLoop_wakeup_def set_phase_def)
  moreover have "pc (stop_set t l) = pc l" "pc (stop_wake t l) = pc l" for t and l :: "'a EventLoop"
    by (simp_all add: stop_set_def stop_wake_def)
  moreover have "cond_waiting (lt_cond s) = [] \<or> cond_waiting (lt_cond s) = [owner_tid]"
    using lt_invD(1) [OF assms(1)] by (auto simp: lock_ok_def)
  ultimately show ?thesis
    using assms(2)
    by (cases "owner s")
      (auto simp: owner_next_def owner_locks_def owner_waits_def owner_wakes_def Condition_wait_begin_def Thread_join_def
        assert_that_def andThen_def split: if_splits sum.splits)
qed

lemma owner_progress:
  assumes "lt_inv s" and "\<not> halted s" and "owner_next s = Some s'"
  shows "lt_step noise s s' \<and> lt_inv s' \<and> worker s' = worker s \<and> pc (lt_loop s') = pc (lt_loop s) \<and> (s', s) \<in> handshake_order"
  using owner_next_rank [OF assms(1,3)] Owner [OF assms(2,3)] inv_owner [OF assms(1,3)]
  by (auto simp: handshake_order_def)

text \<open>\<open>startLoop\<close>.\<close>

lemma not_aborted: "lt_inv s \<Longrightarrow> \<not> handed_out (owner s) \<Longrightarrow> pc (lt_loop s) \<noteq> Aborted \<and> pc (lt_loop s) \<noteq> Exited"
  using lt_invD(3) [of s] by (auto simp: loop_ok_def untouched_def)

lemma starting_progress:
  assumes "lt_inv s" and "starting (owner s)"
  shows "\<exists>s'. lt_step noise s s' \<and> (lt_inv s' \<and> (starting (owner s') \<or> owner s' = Returned True)) \<and> (s', s) \<in> handshake_order"
proof -
  have nh: "\<not> halted s" "\<not> handed_out (owner s)"
    using assms(2) not_aborted [OF assms(1)] by (cases "owner s"; simp add: halted_def)+
  note i = lt_invD [OF assms(1)]
  show ?thesis
  proof (cases "owner_next s")
    case (Some s')
    from owner_progress [OF assms(1) nh(1) Some, of noise] have p: "lt_step noise s s'" "lt_inv s'" "(s', s) \<in> handshake_order"
      by blast+
    have "starting (owner s') \<or> (\<exists>b. owner s' = Returned b)"
      using Some assms(2) by (cases "owner s") (auto simp: owner_next_def owner_locks_def owner_waits_def owner_wakes_def Let_def split_def)
    moreover have "owner s' \<noteq> Returned False" using lt_invD(2) [OF p(2)] by auto
    ultimately show ?thesis using p by (metis (full_types))
  next
    case None
    have st: "1 \<le> stage (worker s)" "stage (worker s) \<le> 4" and nh': "worker_holds (worker s) \<or> \<not> owner_holds (owner s)"
      using None assms(2) i(2) lock_ok_free [OF i(1)]
      by (cases "owner s"; auto simp: owner_next_def owner_locks_def owner_wakes_def Condition_wait_end_def worker_holds_def
          split: if_splits)+
    then have "worker_next s \<noteq> None"
      by (intro worker_enabled [OF assms(1)]) auto
    from worker_progress [OF assms(1) nh(1) this, of noise] assms(2) show ?thesis by auto
  qed
qed

lemma startLoop_reaches:
  assumes "lt_inv s" and "starting (owner s)"
  shows "\<exists>s'. (lt_step noise)\<^sup>*\<^sup>* s s' \<and> owner s' = Returned True"
  using progress_reaches [OF wf_handshake, of "\<lambda>s. lt_inv s \<and> (starting (owner s) \<or> owner s = Returned True)" s
      "\<lambda>s. owner s = Returned True" "lt_step noise"] starting_progress assms by blast

text \<open>The destructor. A loop that was stopped in front of \<open>loop()\<close> can only abort.\<close>

definition doomed :: "'f EventLoop \<Rightarrow> bool" where
  "doomed l \<longleftrightarrow> quit l \<and> (pc l = NotStarted \<or> pc l = Aborted)"

definition stop_inv :: "'f EventLoopThread \<Rightarrow> bool" where
  "stop_inv s \<longleftrightarrow> lt_inv s \<and> 0 < stage (worker s) \<and> (stopping (owner s) \<or> owner s = Destroyed) \<and> \<not> doomed (lt_loop s)"

lemma stop_inv_not_halted:
  assumes "stop_inv s"
  shows "\<not> halted s \<and> pc (lt_loop s) \<noteq> Aborted"
proof -
  have "pc (lt_loop s) = Aborted \<longrightarrow> quit (lt_loop s)"
    using assms lt_invD(3) [of s] unfolding stop_inv_def loop_ok_def by blast
  then have "pc (lt_loop s) \<noteq> Aborted" using assms by (auto simp: stop_inv_def doomed_def)
  moreover have "owner s \<noteq> OwnerFault e" for e using assms by (auto simp: stop_inv_def)
  ultimately show ?thesis by (simp add: halted_def)
qed

lemma quiet_step_lifts:
  assumes "lt_inv s" and "\<not> halted s" and "worker s = InLoop" and "stopping (owner s)" and "quiet_step (lt_loop s) l"
    and "pc (lt_loop s) \<noteq> NotStarted"
  shows "lt_step noise s (s\<lparr>lt_loop := l\<rparr>) \<and> lt_inv (s\<lparr>lt_loop := l\<rparr>)"
proof (cases "phase_of l = phase_of (lt_loop s)")
  case True
  with assms(5) have e: "el_step (lt_loop s) l" "\<not> (pc (lt_loop s) = Polling \<and> pc l = Handling False)"
    by (simp_all add: quiet_step_def)
  show ?thesis
    using Loop [OF assms(2,3) e(1) True, of noise] e(2) inv_loop [OF assms(1,3) e(1) True] by simp
next
  case False
  with assms(5) have e: "el_step (lt_loop s) l" "phase_of l (Other 0) = phase_of (lt_loop s) (Other 0)"
    by (simp_all add: quiet_step_def)
  have "loop_ptr s" using lt_invD(4) [OF assms(1)] assms(3) by simp
  moreover have "handed_out (owner s)" using assms(4) by (cases "owner s") auto
  ultimately have "call_ok s l" using e(2) False assms(6) by (simp add: call_ok_def)
  with Call [OF assms(2) e(1)] inv_call [OF assms(1) e(1)] show ?thesis by blast
qed

lemma stopping_facts:
  assumes "stop_inv s" and "owner s \<noteq> Destroyed"
  shows "lt_inv s" "0 < stage (worker s)" "4 \<le> stage (worker s)" "stopping (owner s)" "\<not> doomed (lt_loop s)" "\<not> halted s"
    "pc (lt_loop s) \<noteq> Aborted" "loop_ok (owner s) (stage (worker s)) (lt_loop s)"
    "owner_ok (owner s) (stage (worker s)) (cond_waiting (lt_cond s) \<noteq> []) (quit (lt_loop s))"
proof -
  show "lt_inv s" "0 < stage (worker s)" "stopping (owner s)" "\<not> doomed (lt_loop s)"
    using assms by (auto simp: stop_inv_def)
  then show "loop_ok (owner s) (stage (worker s)) (lt_loop s)"
    "owner_ok (owner s) (stage (worker s)) (cond_waiting (lt_cond s) \<noteq> []) (quit (lt_loop s))"
    using lt_invD(2,3) by blast+
  with \<open>stopping (owner s)\<close> \<open>0 < stage (worker s)\<close> show "4 \<le> stage (worker s)" by (cases "owner s") auto
  show "\<not> halted s" "pc (lt_loop s) \<noteq> Aborted" using stop_inv_not_halted [OF assms(1)] by auto
qed

definition stop_progress :: "bool \<Rightarrow> 'f EventLoopThread \<Rightarrow> bool" where
  "stop_progress noise s \<longleftrightarrow> (\<exists>s'. lt_step noise s s' \<and> stop_inv s' \<and> (s', s) \<in> handshake_order)"

lemma stopping_worker:
  assumes "stop_inv s" and "owner s \<noteq> Destroyed" and "worker_next s \<noteq> None"
  shows "stop_progress noise s"
  using worker_progress [OF stopping_facts(1,6) [OF assms(1,2)] assms(3), of noise] stopping_facts(4,5) [OF assms(1,2)]
  by (auto simp: stop_inv_def stop_progress_def)

lemma stopping_loop:
  assumes "stop_inv s" and "owner s \<noteq> Destroyed" and "lt_step noise s (s\<lparr>lt_loop := l\<rparr>)"
    and "el_rank l < el_rank (lt_loop s)" and "pc l \<notin> {NotStarted, Aborted}"
  shows "stop_progress noise s"
proof -
  have "lt_inv (s\<lparr>lt_loop := l\<rparr>)" using lt_inv_step [OF _ assms(3)] stopping_facts(1) [OF assms(1,2)] by blast
  with assms(4,5) stopping_facts(2,4) [OF assms(1,2)] have "stop_inv (s\<lparr>lt_loop := l\<rparr>)"
    by (auto simp: stop_inv_def doomed_def)
  with assms(3,4) show ?thesis unfolding stop_progress_def by (intro exI [of _ "s\<lparr>lt_loop := l\<rparr>"]) (simp add: handshake_order_def)
qed

lemma stopping_enter:
  assumes "stop_inv s" and "owner s \<noteq> Destroyed" and "worker s = InLoop" and "pc (lt_loop s) = NotStarted"
  shows "stop_progress noise s"
proof -
  note f = stopping_facts [OF assms(1,2)]
  define l where "l = loop_start (lt_loop s)"
  have "\<not> quit (lt_loop s)" "phase_of (lt_loop s) LoopThread = Idle"
    using f(5,8) assms(4) by (auto simp: doomed_def loop_ok_def)
  then have l: "el_step (lt_loop s) l" "phase_of l = phase_of (lt_loop s)" "pc l = AtTest"
    using el_step.Start [OF assms(4)] by (simp_all add: l_def loop_start_def)
  have step: "lt_step noise s (s\<lparr>lt_loop := l\<rparr>)" using Loop [OF f(6) assms(3) l(1,2), of noise] assms(4) by simp
  have "el_rank l < el_rank (lt_loop s)" using l(2,3) assms(4) by (simp add: el_rank_def)
  then show ?thesis by (rule stopping_loop [OF assms(1,2) step]) (simp add: l(3))
qed

lemma stopping_owner:
  assumes "stop_inv s" and "owner s \<noteq> Destroyed" and "owner_next s = Some s'" and "pc (lt_loop s) \<noteq> NotStarted"
  shows "stop_progress noise s"
proof -
  note f = stopping_facts [OF assms(1,2)]
  from owner_progress [OF f(1,6) assms(3), of noise] have p: "lt_step noise s s'" "lt_inv s'" "worker s' = worker s"
    "pc (lt_loop s') = pc (lt_loop s)" "(s', s) \<in> handshake_order" by blast+
  have "owner_ok (owner s') (stage (worker s)) w q \<Longrightarrow> stopping (owner s') \<or> owner s' = Destroyed" for w q
    using assms(3) f(2,4) by (cases "owner s")
      (auto simp: owner_next_def owner_locks_def owner_waits_def owner_wakes_def Let_def split_def split: if_splits sum.splits)
  with lt_invD(2) [OF p(2)] p have "stop_inv s'"
    using f(2,7) assms(4) by (auto simp: stop_inv_def doomed_def)
  with p show ?thesis unfolding stop_progress_def by blast
qed

lemma stopping_blocked:
  assumes "stop_inv s" and "owner s \<noteq> Destroyed" and "owner_next s = None" and "pc (lt_loop s) \<noteq> NotStarted"
  shows "stop_progress noise s"
proof -
  note f = stopping_facts [OF assms(1,2)]
  have blocked: "worker_holds (worker s) \<or> \<not> owner_holds (owner s)"
    "owner s = StopWaiting \<and> cond_waiting (lt_cond s) \<noteq> [] \<or> worker_holds (worker s) \<or> owner s = Joining \<and> worker s \<noteq> Finished"
    using assms(3) f(4) lock_ok_free [OF lt_invD(1) [OF f(1)]]
    by (cases "owner s"; auto simp: owner_next_def owner_locks_def owner_wakes_def Condition_wait_end_def split: if_splits)+
  show ?thesis
  proof (cases "worker s = InLoop \<and> pc (lt_loop s) \<noteq> Exited")
    case True
    then have "owner s = StopWaiting \<and> cond_waiting (lt_cond s) \<noteq> []"
      using blocked(2) f(9) by (cases "owner s") auto
    then have "quit (lt_loop s)" "phase_of (lt_loop s) (Other 0) = Idle" "el_inv (lt_loop s)"
      using f(8,9) by (auto simp: loop_ok_def)
    from loop_progress [OF this(3,1) _ this(2)] obtain l where
      l: "quiet_step (lt_loop s) l" "el_rank l < el_rank (lt_loop s)" "pc l \<notin> {NotStarted, Aborted}"
      using True assms(4) f(7) by auto
    have "lt_step noise s (s\<lparr>lt_loop := l\<rparr>)"
      using True f(4) assms(4) quiet_step_lifts [OF f(1,6) _ _ l(1)] by simp
    from stopping_loop [OF assms(1,2) this l(2,3)] show ?thesis .
  next
    case False
    have "worker s \<noteq> Finished"
      using blocked(2) f(9) by (cases "owner s") auto
    then have "worker_next s \<noteq> None"
      using False blocked(1) f(2) by (intro worker_enabled [OF f(1)]) auto
    then show ?thesis by (rule stopping_worker [OF assms(1,2)])
  qed
qed

lemma stopping_progress:
  assumes "stop_inv s" and "owner s \<noteq> Destroyed"
  shows "stop_progress noise s"
proof (cases "pc (lt_loop s) = NotStarted")
  case False
  with stopping_owner [OF assms] stopping_blocked [OF assms] show ?thesis by (cases "owner_next s") auto
next
  case True
  note f = stopping_facts [OF assms]
  from True f(3,8) have "worker s = PublishUnlock \<or> worker s = InLoop"
    by (cases "worker s") (auto simp: loop_ok_def)
  then show ?thesis
  proof
    assume "worker s = PublishUnlock"
    then have "worker_next s \<noteq> None" by (intro worker_enabled [OF f(1)]) simp_all
    then show ?thesis by (rule stopping_worker [OF assms])
  qed (rule stopping_enter [OF assms _ True])
qed

lemma destructor_reaches: "stop_inv s \<Longrightarrow> \<exists>s'. (lt_step noise)\<^sup>*\<^sup>* s s' \<and> owner s' = Destroyed"
  using progress_reaches [OF wf_handshake, of stop_inv s "\<lambda>s. owner s = Destroyed" "lt_step noise"]
    stopping_progress unfolding stop_progress_def by blast

lemma el_step_NotStarted:
  "el_step l l' \<Longrightarrow> phase_of l' = phase_of l \<Longrightarrow> pc l = NotStarted \<Longrightarrow> quit l \<Longrightarrow> pc l' = Aborted"
  by (erule el_stepE) (auto simp: el_defs fun_upd_def fun_eq_iff may_call_def split: if_splits)

lemma doomed_step:
  assumes "lt_inv s" and "lt_step noise s s'" and "doomed (lt_loop s)"
  shows "doomed (lt_loop s')"
  using assms(2)
proof (cases rule: lt_step.cases)
  case Owner
  have "quit (lt_loop s) \<longrightarrow> quit (lt_loop s')"
    using Owner(2) by (cases "owner s")
      (auto simp: owner_next_def owner_locks_def owner_waits_def owner_wakes_def stop_set_def stop_wake_def
        split: if_splits sum.splits prod.splits)
  with owner_next_rank [OF assms(1) Owner(2)] assms(3) show ?thesis by (auto simp: doomed_def)
next
  case Worker
  with worker_next_stage assms(3) show ?thesis by metis
next
  case (Loop l)
  then have "pc (lt_loop s) = NotStarted" using assms(3) by (auto simp: doomed_def halted_def)
  with Loop el_step_NotStarted el_step_internal assms(3) show ?thesis by (auto simp: doomed_def)
next
  case (Call l)
  then have "phase_of l \<noteq> phase_of (lt_loop s)" by (simp add: call_ok_def)
  with el_step_call Call assms(3) show ?thesis by (fastforce simp: doomed_def)
qed (use assms(3) in \<open>auto simp: EventLoopThread_startLoop_def EventLoopThread_destroy_def split: sum.splits\<close>)

lemma doomed_never_destroyed:
  assumes "(lt_step noise)\<^sup>*\<^sup>* s s'" and "lt_inv s" and "doomed (lt_loop s)"
  shows "owner s' \<noteq> Destroyed"
proof -
  have "lt_inv s' \<and> doomed (lt_loop s')"
    using assms by (induction rule: rtranclp_induct) (auto intro: lt_inv_step doomed_step)
  then have inv: "lt_inv s'" and d: "doomed (lt_loop s')" by blast+
  have "pc (lt_loop s') \<noteq> Exited" using d by (auto simp: doomed_def)
  then have "\<not> 6 \<le> stage (worker s')" using lt_invD(3) [OF inv] by (auto simp: loop_ok_def)
  then show ?thesis using lt_invD(2) [OF inv] by auto
qed

text \<open>The order of steps in which the loop is stopped in front of \<open>loop()\<close>.\<close>

lemma stop_before_loop:
  assumes inv: "lt_inv a" and a: "worker a = InLoop" "owner a = Returned True" "pc (lt_loop a) = NotStarted"
    "phase_of (lt_loop a) (Other 0) = Idle"
  shows "\<exists>s'. (lt_step noise)\<^sup>*\<^sup>* a s' \<and> pc (lt_loop s') = Aborted"
proof -
  define b where "b = EventLoopThread_destroy a"
  define c where "c = b\<lparr>lt_mutex := locked_mutex owner_tid, owner := StopTest\<rparr>"
  define d where "d = c\<lparr>lt_loop := stop_set (Other 0) (lt_loop c), owner := StopWake\<rparr>"
  define e where "e = d\<lparr>lt_loop := loop_start (lt_loop d)\<rparr>"
  note defs = b_def c_def d_def EventLoopThread_destroy_def halted_def
  have m: "lt_mutex a = MutexLock_new" using lt_invD(1) [OF inv] a(1,2) by (simp add: lock_ok_def)
  have ptr: "loop_ptr a" using lt_invD(4) [OF inv] a(1) by simp
  have idle: "phase_of (lt_loop a) LoopThread = Idle" using lt_invD(3) [OF inv] a(3) by (simp add: loop_ok_def)
  have "lt_step noise a b"
    unfolding b_def using a(2-4) by (intro Destroy) (auto simp: halted_def)
  moreover have "lt_step noise b c"
    using a(3) m by (intro Owner) (auto simp: defs owner_next_def owner_locks_def MutexLock_lock_def
        assignHolder_def locked_mutex_def MutexLock_new_def)
  moreover have "lt_step noise c d"
    using a(3) ptr by (intro Owner) (auto simp: defs owner_next_def)
  moreover have "lt_step noise d e"
    unfolding e_def
  proof (rule Loop)
    show "el_step (lt_loop d) (loop_start (lt_loop d))"
      using a(3) idle by (intro el_step.Start) (auto simp: defs stop_set_def)
  qed (use a(1,3) in \<open>auto simp: defs stop_set_def loop_start_def\<close>)
  moreover have "pc (lt_loop e) = Aborted"
    by (simp add: e_def d_def loop_start_def stop_set_def)
  ultimately show ?thesis
    by (meson converse_rtranclp_into_rtranclp rtranclp.rtrancl_refl)
qed

section \<open>Properties\<close>

text \<open>
  C11. Safety of the handshake. However the owner, the worker, the loop and its callers interleave,
  and whatever wakeups are spurious: at most one of the two threads is in a critical section and
  \<open>holder_\<close> names it; \<open>startLoop\<close> never returns NULL; the loop on which the destructor calls \<open>stop\<close>
  still exists; once the thread runs no assertion of \<open>Thread\<close>, \<open>MutexLock\<close> or \<open>Condition\<close> fails; and
  the destructor returns only after \<open>threadFunc\<close> has.
\<close>

theorem EventLoopThread_safe:
  assumes "lt_reachable s"
  shows "\<not> (owner_holds (owner s) \<and> worker_holds (worker s))
    \<and> (owner_holds (owner s) \<longrightarrow> isLockedByThisThread owner_tid (lt_mutex s))
    \<and> (worker_holds (worker s) \<longrightarrow> isLockedByThisThread worker_tid (lt_mutex s))
    \<and> owner s \<noteq> Returned False
    \<and> (owner s = StopWake \<longrightarrow> loop_ptr s)
    \<and> ((\<exists>e. owner s = OwnerFault e) \<longrightarrow> worker s = NotCreated)
    \<and> (owner s = Destroyed \<longrightarrow> worker s = Finished)"
proof -
  note i = lt_invD [OF lt_reachable_inv [OF assms]]
  have "owner s = Returned False \<Longrightarrow> False" "owner s = StopWake \<Longrightarrow> loop_ptr s"
    "owner s = OwnerFault e \<Longrightarrow> worker s = NotCreated" "owner s = Destroyed \<Longrightarrow> worker s = Finished" for e
    using i(2,4) by simp_all
  with i(1) show ?thesis by (auto simp: lock_ok_def isLockedByThisThread_def split: if_splits)
qed

text \<open>
  C23. \<open>startLoop\<close> returns. From every reachable state in which the owner is in \<open>startLoop\<close> it can
  return the loop by steps of the two threads alone, without spurious wakeups: no notification is
  lost and the lock is never held for ever.
\<close>

theorem EventLoopThread_startLoop_returns:
  assumes "lt_reachable s" and "owner s \<in> {StartLock, StartTest, StartWaiting, StartReturn}"
  shows "\<exists>s'. (lt_step False)\<^sup>*\<^sup>* s s' \<and> owner s' = Returned True"
  using assms(2) by (intro startLoop_reaches [OF lt_reachable_inv [OF assms(1)]]) auto

text \<open>
  C24. When the destructor completes. While the owner destroys a started \<open>EventLoopThread\<close>, the
  destructor can still complete, without spurious wakeups, if and only if the loop has not been
  stopped in front of its \<open>loop()\<close>: in that case the assertion of \<open>loop()\<close> aborts the program.
\<close>

theorem EventLoopThread_destructor_completes_iff:
  assumes "lt_reachable s" and "thread_started (lt_thread s)"
    and "owner s \<in> {StopLock, StopTest, StopWake, StopWait, StopWaiting, JoinCall, Joining}"
  shows "(\<exists>s'. (lt_step False)\<^sup>*\<^sup>* s s' \<and> owner s' = Destroyed) \<longleftrightarrow>
    \<not> (quit (lt_loop s) \<and> pc (lt_loop s) \<in> {NotStarted, Aborted})"
proof -
  have inv: "lt_inv s" by (rule lt_reachable_inv [OF assms(1)])
  have "stop_inv s" if "\<not> doomed (lt_loop s)"
    using that inv assms(2,3) lt_invD(5) [OF inv] by (auto simp: stop_inv_def)
  then have "(\<exists>s'. (lt_step False)\<^sup>*\<^sup>* s s' \<and> owner s' = Destroyed) \<longleftrightarrow> \<not> doomed (lt_loop s)"
    using destructor_reaches doomed_never_destroyed inv by blast
  then show ?thesis by (auto simp: doomed_def)
qed

text \<open>
  Destroying the object right after \<open>startLoop\<close> can abort the program: if the worker has
  published its loop and not entered \<open>loop()\<close> yet, \<open>stopLoop\<close> sets \<open>quit_\<close> first, and \<open>loop()\<close> fails
  its assertion.
\<close>

theorem EventLoopThread_early_destructor_aborts:
  assumes "lt_reachable s" and "owner s = Returned True" and "pc (lt_loop s) = NotStarted"
    and "phase_of (lt_loop s) (Other 0) = Idle"
  shows "\<exists>s'. (lt_step False)\<^sup>*\<^sup>* s s' \<and> pc (lt_loop s') = Aborted"
proof -
  have inv: "lt_inv s" by (rule lt_reachable_inv [OF assms(1)])
  have "worker s = PublishUnlock \<or> worker s = InLoop"
    using lt_invD(2,3) [OF inv] assms(2,3) by (cases "worker s") (auto simp: loop_ok_def)
  then show ?thesis
  proof
    assume "worker s = InLoop"
    with stop_before_loop [OF inv] assms(2-4) show ?thesis by blast
  next
    assume w: "worker s = PublishUnlock"
    define a where "a = s\<lparr>lt_mutex := MutexLock_unlock (lt_mutex s), worker := InLoop\<rparr>"
    have "worker_next s = Some a" using w by (simp add: worker_next_def a_def)
    then have "lt_step False s a" "lt_inv a"
      using assms(2,3) inv_worker [OF inv] by (auto simp: halted_def intro: Worker)
    moreover from this(2) have "\<exists>s'. (lt_step False)\<^sup>*\<^sup>* a s' \<and> pc (lt_loop s') = Aborted"
      using assms(2-4) by (intro stop_before_loop) (simp_all add: a_def)
    ultimately show ?thesis by (meson converse_rtranclp_into_rtranclp)
  qed
qed

section \<open>Examples\<close>

text \<open>Steps of the worker (\<open>True\<close>) and the owner (\<open>False\<close>) in a given order, outside \<open>loop()\<close>.\<close>

fun interleave :: "bool list \<Rightarrow> 'f EventLoopThread \<Rightarrow> 'f EventLoopThread option" where
  "interleave [] s = Some s"
| "interleave (b # bs) s = (case (if b then worker_next s else owner_next s) of None \<Rightarrow> None | Some s' \<Rightarrow> interleave bs s')"

lemma interleave_steps:
  assumes "interleave bs s = Some s'" and "lt_inv s" and "pc (lt_loop s) = NotStarted" and "worker s \<noteq> NotCreated"
  shows "(lt_step noise)\<^sup>*\<^sup>* s s'"
  using assms
proof (induction bs arbitrary: s)
  case (Cons b bs)
  have nh: "\<not> halted s"
    using Cons.prems(3,4) lt_invD(2) [OF Cons.prems(2)] by (auto simp: halted_def)
  from Cons.prems(1) obtain t where t: "(if b then worker_next s else owner_next s) = Some t" "interleave bs t = Some s'"
    by (auto split: option.splits)
  have "lt_step noise s t" using t(1) nh by (auto intro: Owner Worker split: if_splits)
  moreover have "worker t \<noteq> NotCreated" "pc (lt_loop t) = NotStarted"
    using t(1) Cons.prems(3,4) worker_next_stage [of s t] owner_next_rank [OF Cons.prems(2), of t]
    by (auto split: if_splits)
  moreover have "lt_inv t" using lt_inv_step [OF Cons.prems(2)] \<open>lt_step noise s t\<close> by blast
  ultimately have "(lt_step noise)\<^sup>*\<^sup>* t s'" using Cons.IH t(2) by blast
  with \<open>lt_step noise s t\<close> show ?case by (rule converse_rtranclp_into_rtranclp)
qed simp

definition sample_started :: "nat EventLoopThread" where
  "sample_started = EventLoopThread_startLoop True (fst (EventLoopThread_new ''io'' 0))"

definition sample_waiting :: "nat EventLoopThread" where
  "sample_waiting = \<lparr>lt_thread = \<lparr>thread_started = True, thread_joined = False, thread_tid = 0, thread_label = ''io''\<rparr>,
     lt_mutex = MutexLock_new, lt_cond = \<lparr>cond_waiting = [owner_tid]\<rparr>, loop_ptr = False, exiting = False,
     lt_loop = EventLoop_new, owner = StartWaiting, worker = Created\<rparr>"

definition sample_running :: "nat EventLoopThread" where
  "sample_running = \<lparr>lt_thread = \<lparr>thread_started = True, thread_joined = False, thread_tid = worker_tid, thread_label = ''io''\<rparr>,
     lt_mutex = MutexLock_new, lt_cond = \<lparr>cond_waiting = []\<rparr>, loop_ptr = True, exiting = False,
     lt_loop = EventLoop_new, owner = Returned True, worker = InLoop\<rparr>"

lemmas sample_steps = owner_next_def worker_next_def lt_next_defs MutexLock_lock_def assignHolder_def Condition_wait_end_def
  MutexLock_new_def MutexLock_unlock_def

lemma sample_started_reachable: "lt_reachable sample_started"
proof -
  have "(lt_step True)\<^sup>*\<^sup>* (fst (EventLoopThread_new ''io'' 0)) sample_started"
    unfolding sample_started_def
    by (intro r_into_rtranclp Start)
      (simp_all add: EventLoopThread_new_def Thread_new_def setDefaultName_def Let_def halted_def EventLoop_new_def split_def)
  then show ?thesis unfolding lt_reachable_def by blast
qed

lemma sample_started_simps:
  "sample_started = \<lparr>lt_thread = \<lparr>thread_started = True, thread_joined = False, thread_tid = 0, thread_label = ''io''\<rparr>,
     lt_mutex = MutexLock_new, lt_cond = Condition_new, loop_ptr = False, exiting = False,
     lt_loop = EventLoop_new, owner = StartLock, worker = Created\<rparr>"
  by (simp add: sample_started_def EventLoopThread_startLoop_def EventLoopThread_new_def Thread_new_def setDefaultName_def
    Thread_start_def assert_that_def Let_def split_def)

lemma EventLoop_new_pc [simp]: "pc EventLoop_new = NotStarted" "quit EventLoop_new = False"
    "phase_of EventLoop_new t = Idle"
  by (simp_all add: EventLoop_new_def)

lemma interleave_reachable: "interleave bs sample_started = Some s \<Longrightarrow> lt_reachable s"
  using interleave_steps [of bs sample_started s True] lt_reachable_inv [OF sample_started_reachable] sample_started_reachable
  unfolding lt_reachable_def by (auto simp: sample_started_simps intro: rtranclp_trans)

lemma sample_waiting_reachable: "lt_reachable sample_waiting"
  by (rule interleave_reachable [of "[False, False]"])
    (simp add: sample_started_simps sample_waiting_def sample_steps Condition_new_def)

lemma sample_running_reachable: "lt_reachable sample_running"
  by (rule interleave_reachable [of "[False, False, True, True, True, True, False, False, False]"])
    (simp add: sample_started_simps sample_running_def sample_steps Condition_new_def)

theorem EventLoopThread_safe_witness:
  "worker sample_running = InLoop \<and> owner sample_running \<noteq> Returned False"
  using EventLoopThread_safe [OF sample_running_reachable] by (simp add: sample_running_def)

theorem EventLoopThread_startLoop_returns_witness:
  "\<exists>s'. (lt_step False)\<^sup>*\<^sup>* sample_waiting s' \<and> owner s' = Returned True"
  by (rule EventLoopThread_startLoop_returns [OF sample_waiting_reachable]) (simp add: sample_waiting_def)

lemma sample_stopping_reachable: "lt_reachable (EventLoopThread_destroy sample_running)"
proof -
  have "lt_step True sample_running (EventLoopThread_destroy sample_running)"
    by (rule Destroy) (simp_all add: sample_running_def halted_def)
  with sample_running_reachable show ?thesis unfolding lt_reachable_def by (meson rtranclp.rtrancl_into_rtrancl)
qed

theorem EventLoopThread_destructor_completes_iff_witness:
  "\<exists>s'. (lt_step False)\<^sup>*\<^sup>* (EventLoopThread_destroy sample_running) s' \<and> owner s' = Destroyed"
  using EventLoopThread_destructor_completes_iff [OF sample_stopping_reachable]
  by (simp add: sample_running_def EventLoopThread_destroy_def)

theorem EventLoopThread_early_destructor_aborts_witness:
  "\<exists>s'. (lt_step False)\<^sup>*\<^sup>* sample_running s' \<and> pc (lt_loop s') = Aborted"
  by (rule EventLoopThread_early_destructor_aborts [OF sample_running_reachable]) (simp_all add: sample_running_def)

end
