(* ===== verification/Loop_Setup.thy ===== *)
theory Loop_Setup
  imports Channels
begin

text \<open>
  The construction and destruction of a loop: \<open>EventLoop\<close>, \<open>Poller\<close> and \<open>TimerQueue\<close> with the
  descriptors they open, the two channels of the loop itself and the variable of the thread that
  points to its loop. What the system calls return is an argument. The running loop is in
  \<open>Event_Loop\<close>, the timers are in \<open>Timer_Queue\<close>.
\<close>

section \<open>The state\<close>

datatype loop_callback = TimerQueue_tick | EventLoop_wakeup_read

text \<open>\<open>lr_timer\<close> is the setting of the timer descriptor: first expiry and interval in nanoseconds.\<close>

record LoopResources =
  lr_wakeup_fd :: int
  lr_epoll_fd :: int
  lr_timer_fd :: int
  lr_interest :: epoll
  lr_timer :: "(int \<times> int) option"
  lr_wakeup_channel :: "loop_callback Channel"
  lr_timer_channel :: "loop_callback Channel"

text \<open>The pointer of the thread and the open descriptors of the process.\<close>

record ThreadEnv =
  t_loopInThisThread :: "nat option"
  open_fds :: "int set"

definition open_fd :: "int \<Rightarrow> ThreadEnv \<Rightarrow> ThreadEnv" where
  "open_fd fd e = (if fd < 0 then e else e\<lparr>open_fds := insert fd (open_fds e)\<rparr>)"

definition close_fd :: "int \<Rightarrow> ThreadEnv \<Rightarrow> ThreadEnv" where
  "close_fd fd e = e\<lparr>open_fds := open_fds e - {fd}\<rparr>"

section \<open>The operations\<close>

definition Poller_new :: "int \<Rightarrow> epoll res" where
  "Poller_new epollfd = (if epollfd < 0 then Inl ProcessAbort else Inr Map.empty)"

definition TimerQueue_construct :: "nat \<Rightarrow> int \<Rightarrow> epoll \<Rightarrow> loop_callback Channel \<times> epoll" where
  "TimerQueue_construct ptr timerFD ep =
     Channel_enableReading (Channel_setReadCallBack TimerQueue_tick (Channel_new ptr timerFD)) ep"

definition NANOITER :: int where
  "NANOITER = 100000000"

definition TimerQueueStart ::
  "loop_callback Channel \<Rightarrow> epoll \<Rightarrow> (int \<times> int) option \<times> loop_callback Channel \<times> epoll" where
  "TimerQueueStart timerChannel ep =
     (let (timerChannel, ep) = Channel_update timerChannel ep
      in (if chan_fd timerChannel < 0 then None else Some (NANOITER, NANOITER), timerChannel, ep))"

text \<open>
  The constructor: the members in the order of their declaration, then the body. \<open>loop\<close>, \<open>pw\<close> and
  \<open>pt\<close> are the addresses of the loop and of its two channels.
\<close>

definition EventLoop_construct ::
  "nat \<Rightarrow> nat \<Rightarrow> nat \<Rightarrow> int \<Rightarrow> int \<Rightarrow> int \<Rightarrow> ThreadEnv \<Rightarrow> LoopResources res \<times> ThreadEnv" where
  "EventLoop_construct loop pw pt wakeup_fd epollfd timerFD e =
     (let e = open_fd wakeup_fd e
      in case Poller_new epollfd of
           Inl f \<Rightarrow> (Inl f, e)
         | Inr ep \<Rightarrow>
             let e = open_fd timerFD (open_fd epollfd e);
                 (timerChannel, ep) = TimerQueue_construct pt timerFD ep;
                 wakeupChannel = Channel_new pw wakeup_fd
             in if t_loopInThisThread e \<noteq> None then (Inl UncaughtException, e)
                else
                  let e = e\<lparr>t_loopInThisThread := Some loop\<rparr>;
                      (timer, timerChannel, ep) = TimerQueueStart timerChannel ep;
                      wakeupChannel = Channel_setReadCallBack EventLoop_wakeup_read wakeupChannel;
                      (wakeupChannel, ep) = Channel_enableReading wakeupChannel ep;
                      (wakeupChannel, ep) = Channel_update wakeupChannel ep
                  in (Inr \<lparr>lr_wakeup_fd = wakeup_fd, lr_epoll_fd = epollfd, lr_timer_fd = timerFD, lr_interest = ep,
                        lr_timer = timer, lr_wakeup_channel = wakeupChannel, lr_timer_channel = timerChannel\<rparr>, e))"

text \<open>
  The destructor. Of the members only the channels, the poller and the timer queue are left; none
  of their destructors closes a descriptor or removes a channel.
\<close>

definition EventLoop_destruct :: "LoopResources \<Rightarrow> ThreadEnv \<Rightarrow> LoopResources \<times> ThreadEnv" where
  "EventLoop_destruct l e =
     (let (wakeupChannel, ep) = Channel_remove (lr_wakeup_channel l) (lr_interest l);
          e = close_fd (lr_wakeup_fd l) e
      in (l\<lparr>lr_wakeup_channel := wakeupChannel, lr_interest := ep\<rparr>, e\<lparr>t_loopInThisThread := None\<rparr>))"

section \<open>Lemmas\<close>

lemmas setup_defs = EventLoop_construct_def Poller_new_def TimerQueue_construct_def TimerQueueStart_def Channel_new_def
  chan_defs open_fd_def

lemma open_fd_simps [simp]: "t_loopInThisThread (open_fd fd e) = t_loopInThisThread e"
  by (simp add: open_fd_def)

definition ready_loop :: "nat \<Rightarrow> nat \<Rightarrow> int \<Rightarrow> int \<Rightarrow> int \<Rightarrow> LoopResources" where
  "ready_loop pw pt w p t =
     \<lparr>lr_wakeup_fd = w, lr_epoll_fd = p, lr_timer_fd = t, lr_interest = [w \<mapsto> (pw, ReadEvent), t \<mapsto> (pt, ReadEvent)],
      lr_timer = Some (NANOITER, NANOITER),
      lr_wakeup_channel = (Channel_new pw w)\<lparr>chan_index := kAdded, chan_events := ReadEvent,
        readCallback := Some EventLoop_wakeup_read\<rparr>,
      lr_timer_channel = (Channel_new pt t)\<lparr>chan_index := kAdded, chan_events := ReadEvent,
        readCallback := Some TimerQueue_tick\<rparr>\<rparr>"

lemma construct_ok:
  assumes "t_loopInThisThread e = None" and "0 \<le> w" and "0 \<le> p" and "0 \<le> t" and "w \<noteq> t"
  shows "EventLoop_construct loop pw pt w p t e =
    (Inr (ready_loop pw pt w p t), e\<lparr>t_loopInThisThread := Some loop, open_fds := open_fds e \<union> {w, p, t}\<rparr>)"
  using assms by (cases e) (auto simp: setup_defs ready_loop_def insert_commute)

lemma construct_second:
  assumes "t_loopInThisThread e = Some l" and "0 \<le> w" and "0 \<le> p" and "0 \<le> t"
  shows "EventLoop_construct loop pw pt w p t e = (Inl UncaughtException, e\<lparr>open_fds := open_fds e \<union> {w, p, t}\<rparr>)"
  using assms by (cases e) (auto simp: setup_defs split_def Let_def insert_commute)

lemma destruct_ready:
  assumes "w \<noteq> t"
  shows "EventLoop_destruct (ready_loop pw pt w p t) e =
    ((ready_loop pw pt w p t)\<lparr>lr_wakeup_channel := (Channel_new pw w)\<lparr>readCallback := Some EventLoop_wakeup_read\<rparr>,
        lr_interest := [t \<mapsto> (pt, ReadEvent)]\<rparr>,
     e\<lparr>open_fds := open_fds e - {w}, t_loopInThisThread := None\<rparr>)"
  using assms by (auto simp: EventLoop_destruct_def ready_loop_def Channel_new_def chan_defs close_fd_def NoEvent_def fun_eq_iff)

section \<open>Properties\<close>

text \<open>
  C36. The life of a loop. In a thread without a loop, with fresh descriptors, the constructor
  registers exactly the wakeup descriptor and the timer descriptor for reading, both channels in
  step with \<open>epoll\<close>, arms the timer, and input on either descriptor calls its handler; a second loop
  in the thread is refused with an exception, which leaves three more descriptors open; and the
  destructor makes room for another loop, but of the three descriptors it closes only one, and the
  timer stays registered.
\<close>

theorem EventLoop_lifecycle:
  assumes "t_loopInThisThread e = None" and "0 \<le> w" and "0 \<le> p" and "0 \<le> t" and "distinct [w, p, t]"
    and "{w, p, t} \<inter> open_fds e = {}" and "0 \<le> w2" and "0 \<le> p2" and "0 \<le> t2"
  shows "\<exists>l e'. EventLoop_construct loop pw pt w p t e = (Inr l, e')
    \<and> lr_interest l = [w \<mapsto> (pw, ReadEvent), t \<mapsto> (pt, ReadEvent)] \<and> lr_timer l = Some (NANOITER, NANOITER)
    \<and> in_step (lr_wakeup_channel l) (lr_interest l) \<and> in_step (lr_timer_channel l) (lr_interest l)
    \<and> Channel_handleEvent alive ((lr_wakeup_channel l)\<lparr>chan_revents := EPOLLIN\<rparr>) = [EventLoop_wakeup_read]
    \<and> Channel_handleEvent alive ((lr_timer_channel l)\<lparr>chan_revents := EPOLLIN\<rparr>) = [TimerQueue_tick]
    \<and> EventLoop_construct loop2 pw2 pt2 w2 p2 t2 e'
        = (Inl UncaughtException, e'\<lparr>open_fds := open_fds e' \<union> {w2, p2, t2}\<rparr>)
    \<and> t_loopInThisThread (snd (EventLoop_destruct l e')) = None
    \<and> open_fds (snd (EventLoop_destruct l e')) = open_fds e \<union> {p, t}
    \<and> lr_interest (fst (EventLoop_destruct l e')) = [t \<mapsto> (pt, ReadEvent)]"
proof -
  have ne: "w \<noteq> t" using assms(5) by auto
  define e' where "e' = e\<lparr>t_loopInThisThread := Some loop, open_fds := open_fds e \<union> {w, p, t}\<rparr>"
  let ?l = "ready_loop pw pt w p t"
  have c: "EventLoop_construct loop pw pt w p t e = (Inr ?l, e')"
    unfolding e'_def by (rule construct_ok [OF assms(1-4) ne])
  have s: "in_step (lr_wakeup_channel ?l) (lr_interest ?l)" "in_step (lr_timer_channel ?l) (lr_interest ?l)"
    using ne by (simp_all add: in_step_def ready_loop_def Channel_new_def ReadEvent_def WriteEvent_def mask_defs)
  have h: "Channel_handleEvent alive ((lr_wakeup_channel ?l)\<lparr>chan_revents := EPOLLIN\<rparr>) = [EventLoop_wakeup_read]"
    "Channel_handleEvent alive ((lr_timer_channel ?l)\<lparr>chan_revents := EPOLLIN\<rparr>) = [TimerQueue_tick]"
    by (simp_all add: Channel_handleEvent_def Channel_handleEventWithGuard_def ready_loop_def Channel_new_def mask_defs calls_def)
  have second: "EventLoop_construct loop2 pw2 pt2 w2 p2 t2 e'
      = (Inl UncaughtException, e'\<lparr>open_fds := open_fds e' \<union> {w2, p2, t2}\<rparr>)"
    using construct_second [of e' loop w2 p2 t2] assms(7-9) by (simp add: e'_def)
  have fds: "open_fds e' - {w} = open_fds e \<union> {p, t}"
    using assms(5,6) by (auto simp: e'_def)
  show ?thesis
    using c s h second fds
    by (intro exI [of _ ?l] exI [of _ e']) (simp add: destruct_ready [OF ne], simp add: ready_loop_def)
qed

theorem EventLoop_lifecycle_witness:
  "\<exists>l e'. EventLoop_construct 1 2 3 5 6 7 \<lparr>t_loopInThisThread = None, open_fds = {0, 1, 2}\<rparr> = (Inr l, e')
    \<and> open_fds (snd (EventLoop_destruct l e')) = {0, 1, 2} \<union> {6, 7}"
proof -
  let ?e = "\<lparr>t_loopInThisThread = None, open_fds = {0, 1, 2}\<rparr>"
  have "t_loopInThisThread ?e = None" "distinct [5, 6, 7::int]" "{5, 6, 7} \<inter> open_fds ?e = {}" by simp_all
  from EventLoop_lifecycle [OF this(1) _ _ _ this(2,3), of 8 9 10 1 2 3] show ?thesis by fastforce
qed

end
