(* ===== verification/Http_Traffic.thy ===== *)
theory Http_Traffic
  imports Http_Server
begin

text \<open>
  A request on its way through the whole server: the connections of a server do not disturb each
  other, and a request that reaches the server in pieces, among any other traffic, is answered
  once, when its last piece has come.
\<close>

section \<open>What a step for one connection leaves of another\<close>

definition undisturbed :: "nat \<Rightarrow> 'x TcpServer \<Rightarrow> 'x TcpServer \<Rightarrow> bool" where
  "undisturbed c s t \<longleftrightarrow> conns t c = conns s c \<and> next_conn s \<le> next_conn t
     \<and> (\<forall>l f. f \<in> set (pendings t l) \<and> functor_conn f = c \<longrightarrow> f \<in> set (pendings s l))"

lemma undisturbed_refl [simp]: "undisturbed c s s"
  by (simp add: undisturbed_def)

lemma undisturbed_trans: "undisturbed c s t \<Longrightarrow> undisturbed c t u \<Longrightarrow> undisturbed c s u"
  unfolding undisturbed_def by (metis order_trans)

lemma undisturbed_put: "d \<noteq> c \<Longrightarrow> undisturbed c s (put_conn d D s)"
  by (simp add: undisturbed_def)

lemma undisturbed_queue: "functor_conn f \<noteq> c \<Longrightarrow> undisturbed c s (EventLoop_QueueInLoop l f s)"
  by (auto simp: undisturbed_def)

lemma undisturbed_table: "undisturbed c s (s\<lparr>connections := m\<rparr>)"
  by (simp add: undisturbed_def)

lemma undisturbed_queue_all: "d \<noteq> c \<Longrightarrow> undisturbed c s (queue_all l d fs s)"
proof (induction fs arbitrary: s)
  case (Cons f fs)
  have "undisturbed c s (EventLoop_QueueInLoop l (ConnFunctor d f) s)"
    using Cons.prems by (intro undisturbed_queue) simp
  with Cons.IH [OF Cons.prems] show ?case by (auto simp: queue_all_def intro: undisturbed_trans)
qed (simp add: queue_all_def)

lemma undisturbed_removeInLoop:
  "d \<noteq> c \<Longrightarrow> TcpServer_removeConnectionInLoop cur d s = Inr t \<Longrightarrow> undisturbed c s t"
  by (auto simp: TcpServer_removeConnectionInLoop_def assertInLoopThread_def assert_that_def Let_def
      split: if_splits option.splits intro!: undisturbed_trans [OF undisturbed_table undisturbed_queue])

lemma undisturbed_removeFromMapInLoop:
  "TcpServer_removeConnectionFromMapInLoop cur d s = Inr t \<Longrightarrow> undisturbed c s t"
  by (auto simp: TcpServer_removeConnectionFromMapInLoop_def assertInLoopThread_def assert_that_def
      split: if_splits option.splits intro: undisturbed_table)

lemma undisturbed_effect:
  assumes "d \<noteq> c" and "do_effect cb cur d e s = Inr t"
  shows "undisturbed c s t"
proof -
  have r: "TcpServer_removeConnection cur d s = Inr t \<Longrightarrow> undisturbed c s t"
    "TcpServer_removeConnectionFromMap cur d s = Inr t \<Longrightarrow> undisturbed c s t"
    using assms(1) undisturbed_removeInLoop undisturbed_removeFromMapInLoop
    by (auto simp: TcpServer_removeConnection_def TcpServer_removeConnectionFromMap_def EventLoop_RunInLoop_def
        undisturbed_queue split: if_splits)
  have u: "undisturbed c s t"
    if "(case conns s d of None \<Rightarrow> Inl NullPointer
      | Some C \<Rightarrow> andThen (cb k C) (\<lambda>(C, fs). Inr (queue_all (conn_loop C) d fs (put_conn d C s)))) = Inr t" for k
    using that assms(1)
    by (auto simp: andThen_eq_Inr split: option.splits
        intro!: undisturbed_trans [OF undisturbed_put undisturbed_queue_all])
  show ?thesis
  proof (cases e)
    case (Call k)
    with assms(2) r u show ?thesis by (cases k) simp_all
  next
    case (Queue f)
    with assms show ?thesis by (auto split: option.splits intro!: undisturbed_queue)
  qed
qed

lemma undisturbed_effects:
  assumes "d \<noteq> c" and "do_effects cb cur d es s = Inr t"
  shows "undisturbed c s t"
  using assms(2)
proof (induction es arbitrary: s)
  case (Cons e es)
  then show ?case by (auto simp: andThen_eq_Inr intro: undisturbed_trans undisturbed_effect [OF assms(1)])
qed simp

lemma undisturbed_on_conn:
  assumes "d \<noteq> c" and "on_conn cb cur d f s = Inr t"
  shows "undisturbed c s t"
  using assms by (auto simp: on_conn_def andThen_eq_Inr split: option.splits
      intro!: undisturbed_trans [OF undisturbed_put undisturbed_effects])

lemma undisturbed_accept:
  assumes "c < next_conn s" and "server_step env cb (Accept r writes) s = Inr t"
  shows "undisturbed c s t"
proof -
  obtain fd peer where n: "TcpServer_newConnetion env cb (server_loop s) fd peer writes s = Inr t"
    using assms(2) by (auto simp: Acceptor_handleRead_def assertInLoopThread_def Let_def split: prod.splits)
  let ?c = "next_conn s"
  obtain u cur f C where u: "on_conn cb cur ?c f (put_conn ?c C u) = Inr t"
    "conns u = conns s" "next_conn u = Suc ?c" "pendings u = pendings s"
    using n by (auto simp: TcpServer_newConnetion_def Let_def andThen_eq_Inr assertInLoopThread_def split: if_splits prod.splits)
  have d: "?c \<noteq> c" using assms(1) by simp
  have "undisturbed c s (put_conn ?c C u)" using d u(2-4) by (simp add: undisturbed_def)
  then show ?thesis by (rule undisturbed_trans) (rule undisturbed_on_conn [OF d u(1)])
qed

section \<open>A request in pieces\<close>

text \<open>
  An operation concerns a connection if it delivers input to it or is a call of a user on it; that
  the socket has become writable is left out, as it can happen at any time.
\<close>

definition concerns :: "nat \<Rightarrow> server_op \<Rightarrow> bool" where
  "concerns c op = (case op of
     Event d h r now \<Rightarrow> d = c \<and> h \<noteq> HandleWrite
   | CallSend cur d data \<Rightarrow> d = c
   | CallClose cur d \<Rightarrow> d = c
   | _ \<Rightarrow> False)"

definition arrival :: "nat \<Rightarrow> string \<times> Timestamp \<Rightarrow> server_op" where
  "arrival c p = Event c HandleRead (ReadBytes (fst p)) (snd p)"

text \<open>
  A request as a client writes it, what the handler is given for it, and the bytes it answers.
\<close>

type_synonym client_request = "Method \<times> string \<times> Version \<times> (string \<times> string) list"

fun request_text :: "client_request \<Rightarrow> string" where
  "request_text (m, target, v, hs) = render_request m target v hs"

fun request_ok :: "client_request \<Rightarrow> bool" where
  "request_ok (m, target, v, hs) \<longleftrightarrow> m \<noteq> kInvalid \<and> SP \<notin> set target \<and> CR \<notin> set target
     \<and> (v = kHttp10 \<or> v = kHttp11) \<and> list_all header_ok hs \<and> length (render_request m target v hs) \<le> 1024"

fun represents :: "client_request \<Rightarrow> HttpRequest \<Rightarrow> bool" where
  "represents (m, target, v, hs) r \<longleftrightarrow> req_method r = m \<and> req_version r = v
     \<and> req_path r @ req_query r = target \<and> CHR ''?'' \<notin> set (req_path r)
     \<and> (req_query r = [] \<or> hd (req_query r) = CHR ''?'')
     \<and> (\<forall>k. map_find (req_headers r) k = map_of (rev hs) k)"

definition response_bytes :: "http_callback \<Rightarrow> HttpRequest \<Rightarrow> string" where
  "response_bytes h r = contents (HttpResponse_appendToBuffer (HttpServer_response h r) (Buffer_new DEFAULTINITSIZE))"

definition keeps_alive :: "http_callback \<Rightarrow> client_request \<Rightarrow> bool" where
  "keeps_alive h x \<longleftrightarrow> (\<forall>r. represents x r \<longrightarrow> \<not> resp_closeConnection (HttpServer_response h r))"

text \<open>
  An established connection that has received the bytes \<open>d\<close> of the next request and was sent
  \<open>out\<close> so far.
\<close>

definition fresh_conn :: "string \<Rightarrow> string \<Rightarrow> HttpContext TcpConnection \<Rightarrow> bool" where
  "fresh_conn d out C \<longleftrightarrow> conn_inv C \<and> conn_state C = kConnected
     \<and> (\<exists>x. conn_context C = Some (HttpContext_reset x)) \<and> Buffer_inv (inBuffer C) \<and> readIndex (inBuffer C) = 0
     \<and> fits (1024 - length d) (inBuffer C) \<and> contents (inBuffer C) = d \<and> sent_log C = out"

definition waiting :: "nat \<Rightarrow> string \<Rightarrow> string \<Rightarrow> HttpContext TcpServer \<Rightarrow> bool" where
  "waiting c d out s \<longleftrightarrow> c < next_conn s \<and> (\<forall>l. \<forall>f \<in> set (pendings s l). functor_conn f \<noteq> c)
     \<and> (\<exists>C. conns s c = Some C \<and> fresh_conn d out C)"

definition answered :: "nat \<Rightarrow> string \<Rightarrow> HttpContext TcpServer \<Rightarrow> bool" where
  "answered c out s \<longleftrightarrow> c < next_conn s \<and> (\<forall>l data. ConnFunctor c (SendInLoop data) \<notin> set (pendings s l))
     \<and> (\<exists>C. conns s c = Some C \<and> sent_log C = out)"

lemma waiting_undisturbed: "waiting c d out s \<Longrightarrow> undisturbed c s t \<Longrightarrow> waiting c d out t"
  unfolding waiting_def undisturbed_def by (metis order_less_le_trans)

lemma answered_undisturbed: "answered c out s \<Longrightarrow> undisturbed c s t \<Longrightarrow> answered c out t"
  unfolding answered_def undisturbed_def by (metis functor_conn.simps(1) order_less_le_trans)

lemma undisturbed_step:
  assumes "\<not> concerns c op" and "c < next_conn s" and "server_step env cb op s = Inr t"
    and "\<And>h r now. op \<noteq> Event c h r now"
    and "\<And>l f fs. op = RunFunctor l \<Longrightarrow> pendings s l = f # fs \<Longrightarrow> functor_conn f \<noteq> c"
  shows "undisturbed c s t"
proof (cases op)
  case (Accept r writes)
  with assms undisturbed_accept show ?thesis by blast
next
  case (Event d h r now)
  have "d \<noteq> c" using assms(4) [of h r now] Event by blast
  with assms(3) Event show ?thesis
    by (auto split: option.splits if_splits intro: undisturbed_on_conn)
next
  case (RunFunctor l)
  show ?thesis
  proof (cases "pendings s l")
    case Nil
    with RunFunctor assms(3) show ?thesis by simp
  next
    case (Cons f fs)
    let ?u = "s\<lparr>pendings := (pendings s)(l := fs)\<rparr>"
    have u: "undisturbed c s ?u" by (auto simp: undisturbed_def Cons)
    have r: "run_functor cb l f ?u = Inr t" and d: "functor_conn f \<noteq> c"
      using RunFunctor Cons assms(3,5) by simp_all
    have "undisturbed c ?u t"
      using r d by (cases f) (auto intro: undisturbed_on_conn undisturbed_removeInLoop undisturbed_removeFromMapInLoop)
    with u show ?thesis by (rule undisturbed_trans)
  qed
next
  case (CallSend cur d data)
  with assms(1,3) show ?thesis
    by (auto simp: concerns_def split: if_splits intro: undisturbed_on_conn)
next
  case (CallClose cur d)
  with assms(1,3) show ?thesis
    by (auto simp: concerns_def split: if_splits intro: undisturbed_on_conn)
qed

text \<open>\<open>handleWrite\<close> of a connection that is not to be closed only moves bytes to the kernel.\<close>

lemma handleWrite_fresh:
  assumes "fresh_conn d out C"
  obtains C' where "TcpConnection_handleWrite (conn_loop C) C = Inr (C', [])" "fresh_conn d out C'"
proof -
  have i: "conn_inv C" "conn_state C = kConnected" using assms by (simp_all add: fresh_conn_def)
  obtain C' es where r: "TcpConnection_handleWrite (conn_loop C) C = Inr (C', es)" "conn_inv C'"
    using conn_step_ok [OF i(1), of "Handle HandleWrite (ReadErr 0) (Timestamp 0)"]
    by (metis conn_step.simps(1) run_handler.simps(4) step_ok_def prod.collapse)
  have w: "conn_state D = conn_state C \<and> inBuffer D = inBuffer C \<and> conn_context D = conn_context C \<and> sent_log D = sent_log C"
    if "sys_write data C = (n, D)" for data n D
    using that by (auto simp: sys_write_def split: list.splits write_result.splits)
  have "es = [] \<and> conn_state C' = conn_state C \<and> inBuffer C' = inBuffer C \<and> conn_context C' = conn_context C
      \<and> sent_log C' = sent_log C"
    using r(1) i(2) w
    by (auto simp: TcpConnection_handleWrite_def assertInLoopThread_def Let_def split: if_splits prod.splits)
  with assms r that [of C'] show thesis by (simp add: fresh_conn_def)
qed

lemma waiting_other:
  assumes "waiting c d out s" and "\<not> concerns c op" and "server_step env cb op s = Inr t"
  shows "waiting c d out t"
proof (cases "\<exists>h r now. op = Event c h r now")
  case True
  then obtain r now where op: "op = Event c HandleWrite r now"
    using assms(2) by (auto simp: concerns_def)
  obtain C where C: "conns s c = Some C" "fresh_conn d out C" using assms(1) by (auto simp: waiting_def)
  obtain C' where C': "TcpConnection_handleWrite (conn_loop C) C = Inr (C', [])" "fresh_conn d out C'"
    by (rule handleWrite_fresh [OF C(2)])
  from C'(1) assms(3) C(1) have "t = s \<or> t = put_conn c C' s"
    by (auto simp: op on_conn_def split: if_splits)
  moreover have "waiting c d out (put_conn c C' s)" using assms(1) C'(2) by (simp add: waiting_def)
  ultimately show ?thesis using assms(1) by auto
next
  case False
  have "undisturbed c s t"
  proof (rule undisturbed_step [OF assms(2) _ assms(3)])
    show "c < next_conn s" using assms(1) by (simp add: waiting_def)
    show "functor_conn f \<noteq> c" if "pendings s l = f # fs" for l f fs
      using assms(1) that unfolding waiting_def by (metis list.set_intros(1))
  qed (use False in blast)
  with assms(1) show ?thesis by (rule waiting_undisturbed)
qed

lemma waiting_idle:
  "waiting c d out s \<Longrightarrow> filter (concerns c) ops = [] \<Longrightarrow> server_run env cb ops s = Inr t \<Longrightarrow> waiting c d out t"
proof (induction ops arbitrary: s)
  case (Cons op ops)
  then show ?case
    by (auto simp: andThen_eq_Inr simp del: server_step.simps split: if_splits intro: waiting_other)
qed simp

text \<open>The steps that answer nothing: those that write, close or destroy.\<close>

definition silent :: "'x TcpConnection \<Rightarrow> ('x TcpConnection \<times> effect list) res \<Rightarrow> bool" where
  "silent C r \<longleftrightarrow> (case r of Inl e \<Rightarrow> True
     | Inr (C', es) \<Rightarrow> sent_log C' = sent_log C \<and> (es = [] \<or> es = [Call CloseCallback]))"

lemma silent_simps [simp]:
  "silent C (Inl e)" "silent C (Inr (D, [])) \<longleftrightarrow> sent_log D = sent_log C"
  by (simp_all add: silent_def)

lemma silent_handleClose: "sent_log D = sent_log C \<Longrightarrow> silent C (TcpConnection_handleClose cur D)"
  by (simp add: silent_def TcpConnection_handleClose_def assertInLoopThread_def assert_that_def Let_def)

lemma silent_handleWrite: "silent C (TcpConnection_handleWrite cur C)"
proof -
  have "sent_log D = sent_log C" if "sys_write data C = (n, D)" for data n D
    using that by (auto simp: sys_write_def split: list.splits write_result.splits)
  then show ?thesis
    by (auto simp: TcpConnection_handleWrite_def assertInLoopThread_def assert_that_def Let_def
        intro: silent_handleClose split: prod.splits)
qed

lemma silent_functors:
  "silent C (TcpConnection_closeConnectionInLoop cur C)"
  "sent_log (TcpConnection_connectionDestroyed C) = sent_log C"
  by (auto simp: TcpConnection_closeConnectionInLoop_def assertInLoopThread_def assert_that_def
      TcpConnection_connectionDestroyed_def Let_def intro: silent_handleClose)

lemma answered_on_conn:
  assumes "answered c out s" and "\<And>C. silent C (f C)" and "on_conn cb cur c f s = Inr t"
  shows "answered c out t"
proof -
  obtain C C' es where C: "conns s c = Some C" "sent_log C = out" "f C = Inr (C', es)"
    "do_effects cb cur c es (put_conn c C' s) = Inr t"
    using assms(1,3) by (auto simp: answered_def on_conn_def andThen_eq_Inr)
  have e: "sent_log C' = out" "es = [] \<or> es = [Call CloseCallback]"
    using assms(2) [of C] C(2,3) by (simp_all add: silent_def)
  have a: "answered c out (put_conn c C' s)" using assms(1) e(1) by (simp add: answered_def)
  from e(2) show ?thesis
  proof
    assume "es = []"
    with C(4) a show ?thesis by simp
  next
    assume "es = [Call CloseCallback]"
    with C(4) a show ?thesis
      by (auto simp: TcpServer_removeConnection_def EventLoop_RunInLoop_def TcpServer_removeConnectionInLoop_def
          assertInLoopThread_def assert_that_def Let_def answered_def split: if_splits option.splits)
  qed
qed

lemma answered_other:
  assumes "answered c out s" and "\<not> concerns c op" and "server_step env cb op s = Inr t"
  shows "answered c out t"
proof -
  consider (hw) r now where "op = Event c HandleWrite r now"
    | (run) l f fs where "op = RunFunctor l" "pendings s l = f # fs" "functor_conn f = c"
    | (other) "\<And>h r now. op \<noteq> Event c h r now"
        "\<And>l f fs. op = RunFunctor l \<Longrightarrow> pendings s l = f # fs \<Longrightarrow> functor_conn f \<noteq> c"
    using assms(2) by (cases op) (auto simp: concerns_def)
  then show ?thesis
  proof cases
    case hw
    then obtain cur where "t = s \<or> on_conn cb cur c (TcpConnection_handleWrite cur) s = Inr t"
      using assms(3) by (auto simp: on_conn_def split: option.splits if_splits)
    then show ?thesis using assms(1) answered_on_conn [OF assms(1), of "TcpConnection_handleWrite cur"]
      by (auto simp: silent_handleWrite)
  next
    case run
    let ?u = "s\<lparr>pendings := (pendings s)(l := fs)\<rparr>"
    have u: "answered c out ?u" using assms(1) run(2) by (auto simp: answered_def) (metis list.set_intros(2))
    have r: "run_functor cb l f ?u = Inr t" using run(1,2) assms(3) by simp
    show ?thesis
    proof (cases f)
      case (ConnFunctor d g)
      with run(3) have d: "d = c" by simp
      have g: "silent C (run_conn_functor l g C)" for C :: "HttpContext TcpConnection"
      proof (cases g)
        case (SendInLoop data)
        with run(2) ConnFunctor d assms(1) show ?thesis unfolding answered_def by (metis list.set_intros(1))
      qed (simp_all add: silent_functors)
      show ?thesis by (rule answered_on_conn [OF u g]) (use r ConnFunctor d in simp)
    next
      case (RemoveConnectionInLoop d)
      with r u show ?thesis
        by (auto simp: TcpServer_removeConnectionInLoop_def assertInLoopThread_def assert_that_def Let_def answered_def
            split: if_splits option.splits)
    next
      case (RemoveConnectionFromMapInLoop d)
      with r have "undisturbed c ?u t" by (auto intro: undisturbed_removeFromMapInLoop)
      with u show ?thesis by (rule answered_undisturbed)
    qed
  next
    case other
    have "undisturbed c s t"
      by (rule undisturbed_step [OF assms(2) _ assms(3) other]) (use assms(1) in \<open>simp add: answered_def\<close>)
    with assms(1) show ?thesis by (rule answered_undisturbed)
  qed
qed

text \<open>
  A request has an empty line only at its end, so none of its proper prefixes looks complete. The
  lines of a message without an empty one:
\<close>

lemma first_CR:
  "CR \<notin> set l \<Longrightarrow> CR \<notin> set p \<Longrightarrow> l @ CR # x = p @ CR # y \<Longrightarrow> l = p \<and> x = y"
  by (induction l arbitrary: p) (auto simp: Cons_eq_append_conv)

lemma no_empty_line:
  assumes "\<forall>l \<in> set ls. CR \<notin> set l \<and> l \<noteq> []"
    and "concat (map (\<lambda>l. l @ crlf) ls) @ crlf = p @ crlf @ crlf @ q"
  shows "q = []"
  using assms
proof (induction ls arbitrary: p)
  case Nil
  then have "length (crlf :: string) = length (p @ crlf @ crlf @ q)" by simp
  then show ?case by (simp add: crlf_def)
next
  case (Cons l ls)
  let ?rest = "concat (map (\<lambda>l. l @ crlf) ls) @ crlf"
  have e: "l @ CR # LF # ?rest = p @ CR # LF # crlf @ q" using Cons.prems(2) by (simp add: crlf_Cons)
  have l: "CR \<notin> set l" and ls: "\<forall>l \<in> set ls. CR \<notin> set l \<and> l \<noteq> []" using Cons.prems(1) by simp_all
  show ?case
  proof (cases "CR \<in> set p")
    case False
    from first_CR [OF l False e] have r: "?rest = crlf @ q" by simp
    show ?thesis
    proof (cases ls)
      case Nil
      with r show ?thesis by simp
    next
      case (Cons l' ls')
      with ls have "CR \<noteq> hd l'" "l' \<noteq> []" using hd_in_set by fastforce+
      then have "hd ?rest \<noteq> CR" by (simp add: Cons)
      with r show ?thesis by (simp add: crlf_Cons)
    qed
  next
    case True
    then obtain p1 p2 where p: "p = p1 @ CR # p2" "CR \<notin> set p1" by (meson split_list_first)
    from first_CR [OF l p(2), of "LF # ?rest"] e have r: "LF # ?rest = p2 @ CR # LF # crlf @ q"
      by (simp add: p(1))
    then obtain p3 where "p2 = LF # p3" by (cases p2) auto
    with r have "?rest = p3 @ crlf @ crlf @ q" by (simp add: crlf_Cons)
    with Cons.IH [OF ls] show ?thesis by blast
  qed
qed

lemma complete_prefix:
  assumes "CR \<notin> set target" and "list_all header_ok hs" and "m \<noteq> kInvalid" and "v = kHttp10 \<or> v = kHttp11"
    and "d @ q = render_request m target v hs" and "complete d"
  shows "q = []"
proof -
  let ?ls = "(methodString m @ SP # target @ SP # ''HTTP/1.'' @ [version_digit v]) # map (\<lambda>kv. fst kv @ '': '' @ snd kv) hs"
  obtain p where p: "d = p @ crlf @ crlf" using assms(6) by (auto simp: complete_def)
  have h: "concat (map render_header hs) = concat (map (\<lambda>l. l @ crlf) (map (\<lambda>kv. fst kv @ '': '' @ snd kv) hs))"
    by (induction hs) (simp_all add: render_header_def)
  have "CR \<notin> set (methodString m)" by (cases m) (simp_all add: methodString_def)
  moreover have "version_digit v \<noteq> CR" using assms(4) by (auto simp: version_digit_def)
  ultimately have "\<forall>l \<in> set ?ls. CR \<notin> set l \<and> l \<noteq> []"
    using assms(1,2) by (auto simp: list_all_iff header_ok_def)
  moreover have "concat (map (\<lambda>l. l @ crlf) ?ls) @ crlf = p @ crlf @ crlf @ q"
    using assms(5) by (simp add: render_request_def p h)
  ultimately show ?thesis by (rule no_empty_line)
qed

section \<open>The arrival of a piece\<close>

lemma complete_request: "request_ok x \<Longrightarrow> d @ q = request_text x \<Longrightarrow> complete d \<Longrightarrow> q = []"
  by (cases x) (auto intro: complete_prefix)

lemma request_text_long: "4 \<le> length (request_text x)"
proof -
  obtain m target v hs where x: "x = (m, target, v, hs)" by (cases x)
  obtain p where "render_request m target v hs = p @ crlf @ crlf" using render_request_end by blast
  then show ?thesis by (simp add: x crlf_def)
qed

lemma handleRead_piece:
  assumes "fresh_conn d out C" and "bs \<noteq> []" and "length (d @ bs) \<le> 1024"
  shows "TcpConnection_handleRead cur (ReadBytes bs) now C
      = Inr (C\<lparr>inBuffer := Buffer_append bs (inBuffer C)\<rparr>, [Call (MessageCallback now)])"
    and "fresh_conn (d @ bs) out (C\<lparr>inBuffer := Buffer_append bs (inBuffer C)\<rparr>)"
proof -
  have i: "Buffer_inv (inBuffer C)" "contents (inBuffer C) = d" "fits (1024 - length d) (inBuffer C)"
    using assms(1) by (simp_all add: fresh_conn_def)
  have f: "fits (length bs) (inBuffer C)" "fits (length bs + (1024 - length (d @ bs))) (inBuffer C)"
    using i(3) assms(3) by (simp_all add: fits_def)
  obtain n e b where r: "Buffer_readFd (ReadBytes bs) (inBuffer C) = (n, e, b)"
    by (cases "Buffer_readFd (ReadBytes bs) (inBuffer C)")
  have "n = int (length bs)" "b = Buffer_append bs (inBuffer C)"
    using readFd_count [of bs "inBuffer C"] readFd_fitting [OF i(1) f(1)] by (simp_all add: r)
  with r assms(2) show "TcpConnection_handleRead cur (ReadBytes bs) now C
      = Inr (C\<lparr>inBuffer := Buffer_append bs (inBuffer C)\<rparr>, [Call (MessageCallback now)])"
    by (simp add: TcpConnection_handleRead_def)
  show "fresh_conn (d @ bs) out (C\<lparr>inBuffer := Buffer_append bs (inBuffer C)\<rparr>)"
    using assms(1) append_fitting(1,2,6) [OF i(1) f(1)] append_fits [OF i(1) f(2)] i(2)
    by (simp add: fresh_conn_def conn_inv_inBuffer)
qed

lemma range_complete:
  assumes "fresh_conn d out C" and "Buffer_range (inBuffer C) (Buffer_peek (inBuffer C) + Buffer_readbleBytes (inBuffer C) - 4)
      (Buffer_peek (inBuffer C) + Buffer_readbleBytes (inBuffer C) - 4 + 4) = crlf @ crlf"
  shows "complete d"
proof -
  let ?b = "inBuffer C"
  let ?i = "Buffer_peek ?b + Buffer_readbleBytes ?b - 4"
  have r: "readIndex ?b = 0" and d: "contents ?b = d" using assms(1) by (simp_all add: fresh_conn_def)
  have e: "?i + 4 = writeIndex ?b" by (simp add: Buffer_peek_def Buffer_readbleBytes_def)
  have "Rabbit_Prelude.slice (nat ?i) (nat (writeIndex ?b)) (elems (buffer ?b)) = crlf @ crlf"
    using assms(2) unfolding e Buffer_range_def .
  then have "drop (nat ?i) d = crlf @ crlf"
    using r by (simp add: d [symmetric] contents_def Buffer_range_def drop_slice)
  then have "d = take (nat ?i) d @ crlf @ crlf" by (metis append_take_drop_id)
  then show ?thesis unfolding complete_def by blast
qed

lemma onMessage_incomplete:
  assumes "fresh_conn d out C" and "\<not> complete d"
  shows "HttpServer_onMessage h t C = (if length d < 4 then Inl OutOfBounds else Inr (C, []))"
proof -
  have "Buffer_inv (inBuffer C)" "contents (inBuffer C) = d" "readIndex (inBuffer C) = 0"
    using assms(1) by (simp_all add: fresh_conn_def)
  then have "Buffer_peek (inBuffer C) + Buffer_readbleBytes (inBuffer C) - 4 < 0 \<longleftrightarrow> length d < 4"
    using contents_readble [of "inBuffer C"] by (auto simp: Buffer_peek_def)
  with range_complete [OF assms(1)] assms(2) show ?thesis by (auto simp: HttpServer_onMessage_def Let_def)
qed

text \<open>
  A complete request is answered, and the input buffer is empty again, with both indices at its
  beginning.
\<close>

lemma onMessage_request:
  assumes "fresh_conn (request_text x) out C" and "request_ok x"
  obtains r C' where "HttpServer_onMessage h t C =
      Inr (C', if resp_closeConnection (HttpServer_response h r) then [CloseConnectionInLoop] else [])"
    "represents x r" "fresh_conn [] (out @ response_bytes h r) C'"
proof -
  obtain m target v hs where x: "x = (m, target, v, hs)" by (cases x)
  obtain c where C: "conn_inv C" "conn_state C = kConnected" "conn_context C = Some (HttpContext_reset c)"
    "Buffer_inv (inBuffer C)" "contents (inBuffer C) = render_request m target v hs @ []" "sent_log C = out"
    "fits (1024 - length (request_text x)) (inBuffer C)" "readIndex (inBuffer C) = 0"
    using assms(1) by (auto simp: fresh_conn_def x)
  have ok: "m \<noteq> kInvalid" "SP \<notin> set target" "CR \<notin> set target" "v = kHttp10 \<or> v = kHttp11" "list_all header_ok hs"
    "length (request_text x) \<le> 1024"
    using assms(2) by (simp_all add: x)
  let ?r = "rendered_request m target v hs t"
  obtain C' c' where C': "HttpServer_onMessage h t C =
      Inr (C', if resp_closeConnection (HttpServer_response h ?r) then [CloseConnectionInLoop] else [])"
    "sent_log C' = out @ response_bytes h ?r" "contents (inBuffer C') = []"
    "conn_context C' = Some (HttpContext_reset c')" "conn_state C' = kConnected" "conn_inv C'"
    "Buffer_inv (inBuffer C')" "buf_drained (inBuffer C) (inBuffer C')"
    using answers_request [OF C(1-5) _ ok(1-5), of h t] C(6) unfolding response_bytes_def by blast
  have l: "length (contents (inBuffer C)) = length (request_text x)" by (simp add: C(5) x)
  have "contents (inBuffer C) \<noteq> []" using l request_text_long [of x] by auto
  then have "inBuffer C' \<noteq> inBuffer C" using C'(3) by metis
  moreover have "\<not> readIndex (inBuffer C') < writeIndex (inBuffer C')"
    using contents_readble [OF C'(7)] C'(3) by (simp add: Buffer_readbleBytes_def)
  ultimately have b: "readIndex (inBuffer C') = 0" "writeIndex (inBuffer C') = 0" "buffer (inBuffer C') = buffer (inBuffer C)"
    using C'(8) by (auto simp: buf_drained_def)
  have "writeIndex (inBuffer C) = int (length (request_text x))"
    using contents_readble [OF C(4)] l C(8) by (simp add: Buffer_readbleBytes_def)
  then have "fits 1024 (inBuffer C')"
    using C(7) ok(6) b by (simp add: fits_def Buffer_writeableBytes_def)
  with C' b have "fresh_conn [] (out @ response_bytes h ?r) C'" by (auto simp: fresh_conn_def)
  moreover have "represents x ?r" by (simp add: x rendered_request_parts)
  ultimately show thesis using C'(1) that by blast
qed

text \<open>A piece that does not complete the request is kept; the piece that does is answered.\<close>

lemma piece_step:
  assumes "waiting c d out s" and "bs \<noteq> []" and "d @ bs @ q = request_text x" and "request_ok x"
  obtains D where "fresh_conn (d @ bs) out D"
    and "server_step env (http_callbacks h) (arrival c (bs, now)) s
      = andThen (HttpServer_onMessage h now D) (\<lambda>(C, fs). Inr (queue_all (conn_loop C) c fs (put_conn c C s)))"
proof -
  obtain C where C: "conns s c = Some C" "fresh_conn d out C" using assms(1) by (auto simp: waiting_def)
  have "length (request_text x) \<le> 1024" using assms(4) by (cases x) simp
  moreover have "length (d @ bs) + length q = length (request_text x)" using assms(3) by (metis append.assoc length_append)
  ultimately have "length (d @ bs) \<le> 1024" by simp
  note r = handleRead_piece [OF C(2) assms(2) this]
  have reg: "registered C"
    using C(2) by (auto simp: fresh_conn_def conn_inv_def listening_def chan_inv_def in_step_def registered_def)
  show thesis
    by (rule that [OF r(2)]) (use C(1) reg in \<open>simp add: arrival_def on_conn_def r(1) andThen_def split: sum.splits prod.splits\<close>)
qed

text \<open>After a request was answered: the connection is ready for the next one, if it stays open.\<close>

definition served :: "http_callback \<Rightarrow> nat \<Rightarrow> client_request \<Rightarrow> string \<Rightarrow> HttpContext TcpServer \<Rightarrow> bool" where
  "served h c x out s \<longleftrightarrow> (\<exists>r. represents x r \<and> answered c (out @ response_bytes h r) s
     \<and> (\<not> resp_closeConnection (HttpServer_response h r) \<longrightarrow> waiting c [] (out @ response_bytes h r) s))"

lemma waiting_piece:
  assumes "waiting c d out s" and "bs \<noteq> []" and "d @ bs @ q = request_text x" and "request_ok x"
    and "server_step env (http_callbacks h) (arrival c (bs, now)) s = Inr t"
  shows "if q = [] then served h c x out t else waiting c (d @ bs) out t"
proof -
  obtain D where D: "fresh_conn (d @ bs) out D" "server_step env (http_callbacks h) (arrival c (bs, now)) s
      = andThen (HttpServer_onMessage h now D) (\<lambda>(C, fs). Inr (queue_all (conn_loop C) c fs (put_conn c C s)))"
    by (rule piece_step [OF assms(1-4)])
  have nc: "c < next_conn s" "\<forall>l. \<forall>f \<in> set (pendings s l). functor_conn f \<noteq> c"
    using assms(1) by (auto simp: waiting_def)
  show ?thesis
  proof (cases "q = []")
    case False
    have "\<not> complete (d @ bs)" using complete_request [OF assms(4), of "d @ bs" q] assms(3) False by auto
    from D(2) assms(5) onMessage_incomplete [OF D(1) this, of h now] have "t = put_conn c D s"
      by (auto simp: queue_all_def split: if_splits)
    with nc D(1) False show ?thesis by (simp add: waiting_def)
  next
    case True
    with D(1) assms(3) have "fresh_conn (request_text x) out D" by simp
    from onMessage_request [OF this assms(4), of h now] obtain r C' where r: "HttpServer_onMessage h now D =
        Inr (C', if resp_closeConnection (HttpServer_response h r) then [CloseConnectionInLoop] else [])"
      "represents x r" "fresh_conn [] (out @ response_bytes h r) C'" .
    have n: "ConnFunctor c (SendInLoop data) \<notin> set (pendings s l)" for l data
      using nc(2) by (metis functor_conn.simps(1))
    have t: "t = queue_all (conn_loop C') c (if resp_closeConnection (HttpServer_response h r) then [CloseConnectionInLoop] else []) (put_conn c C' s)"
      using assms(5) D(2) r(1) by simp
    have "sent_log C' = out @ response_bytes h r" using r(3) by (simp add: fresh_conn_def)
    with nc(1) n have "answered c (out @ response_bytes h r) t"
      unfolding t by (auto simp: answered_def queue_all_def split: if_splits)
    moreover have "waiting c [] (out @ response_bytes h r) t" if "\<not> resp_closeConnection (HttpServer_response h r)"
      using nc r(3) that unfolding t by (simp add: waiting_def queue_all_def)
    ultimately show ?thesis using True r(2) by (auto simp: served_def)
  qed
qed

lemma answered_run:
  "answered c out s \<Longrightarrow> filter (concerns c) ops = [] \<Longrightarrow> server_run env cb ops s = Inr t \<Longrightarrow> answered c out t"
proof (induction ops arbitrary: s)
  case (Cons op ops)
  then show ?case
    by (auto simp: andThen_eq_Inr simp del: server_step.simps split: if_splits intro: answered_other)
qed simp

lemma served_run:
  "served h c x out s \<Longrightarrow> filter (concerns c) ops = [] \<Longrightarrow> server_run env cb ops s = Inr t \<Longrightarrow> served h c x out t"
  unfolding served_def by (metis answered_run waiting_idle)

lemma concerns_arrival: "concerns c (arrival c p)"
  by (simp add: concerns_def arrival_def)

lemma waiting_run:
  assumes "waiting c d out s" and "filter (concerns c) ops = map (arrival c) ps" and "\<forall>p \<in> set ps. fst p \<noteq> []"
    and "d @ concat (map fst ps) @ q = request_text x" and "d \<noteq> request_text x" and "request_ok x"
    and "server_run env (http_callbacks h) ops s = Inr t"
  shows "if q = [] then served h c x out t else waiting c (d @ concat (map fst ps)) out t"
  using assms(1-5,7)
proof (induction ops arbitrary: s d ps)
  case Nil
  then show ?case by (cases "q = []") auto
next
  case (Cons op ops)
  obtain u where u: "server_step env (http_callbacks h) op s = Inr u" "server_run env (http_callbacks h) ops u = Inr t"
    using Cons.prems(6) by (auto simp: andThen_eq_Inr)
  show ?case
  proof (cases "concerns c op")
    case False
    then have f: "filter (concerns c) ops = map (arrival c) ps" using Cons.prems(2) by simp
    show ?thesis
      by (rule Cons.IH [OF waiting_other [OF Cons.prems(1) False u(1)] f Cons.prems(3-5) u(2)])
  next
    case True
    then obtain bs now ps' where ps: "ps = (bs, now) # ps'" "op = arrival c (bs, now)"
      "filter (concerns c) ops = map (arrival c) ps'"
      using Cons.prems(2) by (cases ps) auto
    have ne: "bs \<noteq> []" "\<forall>p \<in> set ps'. fst p \<noteq> []" using Cons.prems(3) by (simp_all add: ps)
    have e: "d @ bs @ (concat (map fst ps') @ q) = request_text x"
      using Cons.prems(4) by (simp add: ps)
    note piece = waiting_piece [OF Cons.prems(1) ne(1) e assms(6) u(1) [unfolded ps(2)]]
    show ?thesis
    proof (cases "concat (map fst ps') @ q = []")
      case True
      then have "ps' = []" using ne(2) by (cases ps') auto
      with True piece served_run [OF _ _ u(2)] ps(3) show ?thesis by auto
    next
      case False
      then have w: "waiting c (d @ bs) out u" using piece by auto
      have "d @ bs \<noteq> request_text x" using e False by (metis append.assoc append_self_conv)
      from Cons.IH [OF w ps(3) ne(2) _ this u(2)] e show ?thesis by (auto simp: ps split: if_splits)
    qed
  qed
qed

text \<open>Requests one after the other, on a connection that is kept alive.\<close>

lemma filter_append_split:
  "filter P xs = ys @ zs \<Longrightarrow> \<exists>us vs. xs = us @ vs \<and> filter P us = ys \<and> filter P vs = zs"
proof (induction xs arbitrary: ys)
  case (Cons x xs)
  show ?case
  proof (cases "P x \<and> ys \<noteq> []")
    case True
    then obtain ys' where "ys = x # ys'" "filter P xs = ys' @ zs" using Cons.prems by (cases ys) auto
    with Cons.IH [of ys'] True show ?thesis by (metis append_Cons filter.simps(2))
  next
    case False
    show ?thesis
    proof (cases "P x")
      case True
      with False Cons.prems show ?thesis by (intro exI [of _ "[]"] exI [of _ "x # xs"]) simp
    next
      case False
      with Cons obtain us vs where "xs = us @ vs" "filter P us = ys" "filter P vs = zs" by auto
      with False show ?thesis by (intro exI [of _ "x # us"] exI [of _ vs]) simp
    qed
  qed
qed simp

lemma requests_run:
  assumes "waiting c [] out s" and "filter (concerns c) ops = map (arrival c) (concat pss)"
    and "\<forall>p \<in> set (concat pss). fst p \<noteq> []" and "map (\<lambda>ps. concat (map fst ps)) pss = map request_text xs"
    and "list_all request_ok xs" and "\<forall>x \<in> set xs. keeps_alive h x"
    and "server_run env (http_callbacks h) ops s = Inr t"
  shows "\<exists>rs. list_all2 represents xs rs \<and> waiting c [] (out @ concat (map (response_bytes h) rs)) t"
  using assms
proof (induction pss arbitrary: xs out ops s)
  case Nil
  then show ?case using waiting_idle by auto
next
  case (Cons ps pss)
  obtain x xs' where xs: "xs = x # xs'" "concat (map fst ps) = request_text x"
    "map (\<lambda>ps. concat (map fst ps)) pss = map request_text xs'"
    using Cons.prems(4) by (cases xs) auto
  obtain us vs where ops: "ops = us @ vs" "filter (concerns c) us = map (arrival c) ps"
    "filter (concerns c) vs = map (arrival c) (concat pss)"
    using filter_append_split [of "concerns c" ops "map (arrival c) ps"] Cons.prems(2) by auto
  obtain u where u: "server_run env (http_callbacks h) us s = Inr u" "server_run env (http_callbacks h) vs u = Inr t"
    using Cons.prems(7) by (auto simp: ops(1) server_run_append andThen_eq_Inr)
  have n: "[] \<noteq> request_text x" using request_text_long [of x] by auto
  have "\<forall>p \<in> set ps. fst p \<noteq> []" "request_ok x" using Cons.prems(3,5) by (simp_all add: xs(1))
  with waiting_run [OF Cons.prems(1) ops(2) _ _ n _ u(1), of "[]"] xs(2) have "served h c x out u" by simp
  then obtain r where r: "represents x r" "waiting c [] (out @ response_bytes h r) u"
    using Cons.prems(6) by (auto simp: served_def keeps_alive_def xs(1))
  obtain rs where "list_all2 represents xs' rs" "waiting c [] ((out @ response_bytes h r) @ concat (map (response_bytes h) rs)) t"
    using Cons.IH [OF r(2) ops(3) _ xs(3) _ _ u(2)] Cons.prems(3,5,6) by (auto simp: xs(1))
  with r(1) show ?case by (intro exI [of _ "r # rs"]) (simp add: xs(1))
qed

text \<open>Accepting gives a connection that waits for its first byte.\<close>

lemma establish_eq:
  "TcpConnection_connectionEstablish (TcpConnection_new ptr loop name fd local peer writes)
    = (established ptr loop name fd local peer writes, [Call ConnectionCallback])"
  by (simp add: established_def TcpConnection_connectionEstablish_def Let_def)

lemma accepted_fresh:
  assumes "0 \<le> fd"
  shows "fresh_conn [] [] (HttpServer_onConnection (established ptr loop name fd local peer writes))"
proof -
  let ?C = "established ptr loop name fd local peer writes :: HttpContext TcpConnection"
  have n: "\<exists>x. HttpContext_new = HttpContext_reset x"
    by (rule exI [of _ HttpContext_new])
      (simp add: HttpContext_new_def HttpContext_reset_def HttpRequest_swap_def HttpRequest_new_def)
  have "HttpServer_onConnection ?C = ?C\<lparr>inBuffer := inBuffer ?C, conn_context := Some HttpContext_new\<rparr>"
    by (simp add: HttpServer_onConnection_def establlished_def setContext_def established_simps)
  moreover have "conn_inv (?C\<lparr>inBuffer := inBuffer ?C, conn_context := Some HttpContext_new\<rparr>)"
    by (rule conn_inv_consume [OF established_inv [OF assms]])
  moreover have "readIndex (Buffer_new DEFAULTINITSIZE) = 0" by (simp add: Buffer_new_def)
  ultimately show ?thesis
    by (simp add: fresh_conn_def established_simps n new_fits)
qed

lemma accept_waiting:
  assumes "server_inv (\<lambda>_. 0) s" and "0 \<le> fd"
    and "server_step env (http_callbacks h) (Accept (Inr (fd, peer)) writes) s = Inr t"
  shows "waiting (next_conn s) [] [] t"
proof -
  let ?c = "next_conn s"
  note i = server_invD [OF assms(1)]
  obtain u l name local peer' where u: "t = put_conn ?c (HttpServer_onConnection (established ?c l name fd local peer' writes)) u"
    "next_conn u = Suc ?c" "pendings u = pendings s"
    using assms(2,3)
    by (auto simp: Acceptor_handleRead_def assertInLoopThread_def TcpServer_newConnetion_def Let_def andThen_eq_Inr
        on_conn_def queue_all_def establish_eq Socket_acceptConnection_def split: if_splits prod.splits)
  have "functor_conn f \<noteq> ?c" if "f \<in> set (pendings s l')" for l' f
    using i(10) [OF that] i(5) [of ?c] by (cases f) (auto split: option.splits)
  with accepted_fresh [OF assms(2)] u show ?thesis by (simp add: waiting_def)
qed

section \<open>Properties\<close>

lemma http_run_append:
  "http_run env (ops @ ops') S = andThen (http_run env ops S) (server_run env (http_callbacks (httpCallback S)) ops')"
  by (simp add: http_run_def server_run_append)

lemma http_allowed_append:
  "http_allowed env (ops @ ops') S \<longleftrightarrow> http_allowed env ops S
     \<and> (case http_run env ops S of Inl e \<Rightarrow> True | Inr t \<Rightarrow> run_allowed env (http_callbacks (httpCallback S)) ops' t)"
  by (simp add: http_allowed_def http_run_def run_allowed_append)

lemma serves_requests:
  assumes "HttpServer_start env startLoop base
      (HttpServer_setThreadNum n (HttpServer_setHttpCallback h (HttpServer_new env ptr base addr name))) = Inr S"
    and "http_allowed env (pre @ Accept (Inr (fd, peer)) writes # ops) S"
    and "http_run env pre S = Inr s"
    and "http_run env (pre @ Accept (Inr (fd, peer)) writes # ops) S = Inr t"
    and "filter (concerns (next_conn s)) ops = map (arrival (next_conn s)) (concat pss @ ps)"
    and "\<forall>p \<in> set (concat pss @ ps). fst p \<noteq> []"
    and "map (\<lambda>ps. concat (map fst ps)) pss = map request_text xs" and "concat (map fst ps) @ rest = request_text x"
    and "list_all request_ok (xs @ [x])" and "\<forall>y \<in> set xs. keeps_alive h y"
  shows "\<exists>C rs r. conns t (next_conn s) = Some C \<and> list_all2 represents xs rs \<and> represents x r
    \<and> sent_log C = concat (map (response_bytes h) rs) @ (if rest = [] then response_bytes h r else [])
    \<and> (out_peak C < 1024 \<longrightarrow> sock_wire C @ contents (outBuffer C) = sent_log C)"
proof -
  let ?c = "next_conn s" and ?cb = "http_callbacks h"
  have h: "httpCallback S = h"
    using assms(1) by (auto simp: HttpServer_start_def HttpServer_setThreadNum_def HttpServer_setHttpCallback_def
        HttpServer_new_def andThen_eq_Inr)
  have a: "http_allowed env pre S" "op_allowed (Accept (Inr (fd, peer)) writes) s"
    using assms(2,3) by (simp_all add: http_allowed_append)
  have i: "server_inv (\<lambda>_. 0) s" using http_run_ok [OF assms(1) a(1)] assms(3) by simp
  obtain us vs where ops: "ops = us @ vs" "filter (concerns ?c) us = map (arrival ?c) (concat pss)"
    "filter (concerns ?c) vs = map (arrival ?c) ps"
    using filter_append_split [of "concerns ?c" ops "map (arrival ?c) (concat pss)"] assms(5) by auto
  obtain u v where u: "server_step env ?cb (Accept (Inr (fd, peer)) writes) s = Inr u"
    "server_run env ?cb us u = Inr v" "server_run env ?cb vs v = Inr t"
    using assms(3,4) by (auto simp: ops(1) http_run_append server_run_append h andThen_eq_Inr simp del: server_step.simps)
  have w: "waiting ?c [] [] u"
    by (rule accept_waiting [OF i _ u(1)]) (use a(2) in \<open>simp add: op_allowed_def\<close>)
  obtain rs where rs: "list_all2 represents xs rs" "waiting ?c [] (concat (map (response_bytes h) rs)) v"
    using requests_run [OF w ops(2) _ assms(7) _ assms(10) u(2)] assms(6,9) by auto
  let ?out = "concat (map (response_bytes h) rs)"
  have n: "[] \<noteq> request_text x" using request_text_long [of x] by auto
  have run: "if rest = [] then served h ?c x ?out t else waiting ?c ([] @ concat (map fst ps)) ?out t"
    by (rule waiting_run [OF rs(2) ops(3) _ _ n _ u(3)]) (use assms(6,8,9) in simp_all)
  obtain C r where C: "conns t ?c = Some C" "represents x r"
    "sent_log C = ?out @ (if rest = [] then response_bytes h r else [])"
  proof (cases "rest = []")
    case True
    with run that show thesis by (auto simp: served_def answered_def)
  next
    case False
    obtain m target v hs where x: "x = (m, target, v, hs)" by (cases x)
    have "represents x (rendered_request m target v hs (Timestamp 0))" by (simp add: x rendered_request_parts)
    with False run that show thesis by (auto simp: waiting_def fresh_conn_def)
  qed
  have "server_inv (\<lambda>_. 0) t" using http_run_ok [OF assms(1,2)] assms(4) by simp
  then have "conn_inv C" using C(1) by (rule inv_conn)
  then have "out_peak C < 1024 \<longrightarrow> sock_wire C @ contents (outBuffer C) = sent_log C"
    by (simp add: conn_inv_def stream_inv_def)
  with C rs(1) show ?thesis by blast
qed

text \<open>
  C1. A server answers through any traffic. A client sends requests, each when the one before was
  answered, in any number of pieces, while the server accepts and serves other connections in any
  interleaving of its loops and the socket takes what it likes. As long as the handler does not
  close the connection, the client is sent exactly the serialised responses of the handler to exactly
  those requests, each once, in order; and nothing for a request before its last piece has come.
  What the kernel took of them and what still waits in the output buffer are these responses, if
  fewer than 1024 bytes ever waited. A request may have at most 1024 bytes, the size of a new buffer. The run does not
  fault; its accepts succeed, and it has no hang-up on a closed connection.
\<close>

theorem HttpServer_serves_requests:
  assumes "HttpServer_start env startLoop base
      (HttpServer_setThreadNum n (HttpServer_setHttpCallback h (HttpServer_new env ptr base addr name))) = Inr S"
    and "http_allowed env (pre @ Accept (Inr (fd, peer)) writes # ops) S"
    and "http_run env pre S = Inr s"
    and "http_run env (pre @ Accept (Inr (fd, peer)) writes # ops) S = Inr t"
    and "filter (concerns (next_conn s)) ops = map (arrival (next_conn s)) (concat pss @ ps)"
    and "\<forall>p \<in> set (concat pss @ ps). fst p \<noteq> []"
    and "map (\<lambda>ps. concat (map fst ps)) pss = map request_text xs" and "concat (map fst ps) @ rest = request_text x"
    and "list_all request_ok (xs @ [x])" and "\<forall>y \<in> set xs. keeps_alive h y"
  shows "\<exists>C rs r. conns t (next_conn s) = Some C \<and> list_all2 represents xs rs \<and> represents x r
    \<and> sent_log C = concat (map (response_bytes h) rs) @ (if rest = [] then response_bytes h r else [])
    \<and> (out_peak C < 1024 \<longrightarrow> sock_wire C @ contents (outBuffer C) = sent_log C)"
  by (rule serves_requests [OF assms])

text \<open>A piece never makes the server fault when the connection then has at least four unread bytes.\<close>

lemma waiting_piece_returns:
  assumes "waiting c d out s" and "bs \<noteq> []" and "d @ bs @ q = request_text x" and "request_ok x"
    and "4 \<le> length (d @ bs)"
  obtains t where "server_step env (http_callbacks h) (arrival c (bs, now)) s = Inr t"
proof -
  obtain D where D: "fresh_conn (d @ bs) out D" "server_step env (http_callbacks h) (arrival c (bs, now)) s
      = andThen (HttpServer_onMessage h now D) (\<lambda>(C, fs). Inr (queue_all (conn_loop C) c fs (put_conn c C s)))"
    by (rule piece_step [OF assms(1-4)])
  obtain p where p: "HttpServer_onMessage h now D = Inr p"
  proof (cases "q = []")
    case True
    with D(1) assms(3) have "fresh_conn (request_text x) out D" by simp
    from onMessage_request [OF this assms(4), of h now] that show thesis by metis
  next
    case False
    have "\<not> complete (d @ bs)" using complete_request [OF assms(4), of "d @ bs" q] assms(3) False by auto
    with onMessage_incomplete [OF D(1)] assms(5) that show thesis by simp
  qed
  obtain C fs where "p = (C, fs)" by (cases p)
  with p D(2) that show thesis by simp
qed

text \<open>A client that is alone, with its request in one piece.\<close>

lemma lone_client:
  assumes "HttpServer_start env startLoop base
      (HttpServer_setThreadNum n (HttpServer_setHttpCallback h (HttpServer_new env ptr base addr name))) = Inr S"
    and "0 \<le> fd" and "server_step env (http_callbacks (httpCallback S)) (Accept (Inr (fd, peer)) writes) (http_tcp S) = Inr u"
    and "next_conn (http_tcp S) = 0" and "request_ok x"
  obtains t where "http_run env ([] @ Accept (Inr (fd, peer)) writes # [arrival 0 (request_text x, now)]) S = Inr t"
    "http_allowed env ([] @ Accept (Inr (fd, peer)) writes # [arrival 0 (request_text x, now)]) S"
proof -
  have "server_inv (\<lambda>_. 0) (http_tcp S)"
    using http_run_ok [OF assms(1), where ops = "[]"] by (simp add: http_allowed_def http_run_def)
  from accept_waiting [OF this assms(2,3)] assms(4) have w: "waiting 0 [] [] u" by simp
  have b: "request_text x \<noteq> []" "4 \<le> length ([] @ request_text x)" using request_text_long [of x] by auto
  obtain t where t: "server_step env (http_callbacks (httpCallback S)) (arrival 0 (request_text x, now)) u = Inr t"
    by (rule waiting_piece_returns [OF w b(1) _ assms(5) b(2), where q = "[]"]) simp_all
  have "http_run env ([] @ Accept (Inr (fd, peer)) writes # [arrival 0 (request_text x, now)]) S = Inr t"
    using assms(3) t by (simp add: http_run_def del: server_step.simps)
  moreover have "http_allowed env ([] @ Accept (Inr (fd, peer)) writes # [arrival 0 (request_text x, now)]) S"
    using assms(2,3) t by (simp add: http_allowed_def op_allowed_def arrival_def del: server_step.simps split: sum.splits)
  ultimately show thesis by (rule that)
qed

lemma http_sample_accepted:
  obtains s u where
    "http_run sample_env [Accept (Inr (4, sample_peer)) []] sample_http_server = Inr s" "next_conn s = 1"
    "server_step sample_env (http_callbacks (httpCallback sample_http_server)) (Accept (Inr (5, sample_peer)) []) s = Inr u"
    "waiting 0 [] [] u" "waiting 1 [] [] u"
proof -
  let ?cb = "http_callbacks (httpCallback sample_http_server)"
  let ?a = "Accept (Inr (4, sample_peer)) []" and ?b = "Accept (Inr (5, sample_peer)) []"
  have al: "http_allowed sample_env [?a, ?b] sample_http_server"
    by (simp add: http_allowed_def op_allowed_def del: server_step.simps split: sum.splits)
  obtain s where s: "http_run sample_env [?a] sample_http_server = Inr s" "next_conn s = 1"
    by (simp add: http_eval upt_rec HttpServer_onConnection_def establlished_def setContext_def)
  obtain u where u: "server_step sample_env ?cb ?b s = Inr u"
  proof -
    have "\<exists>u. http_run sample_env [?a, ?b] sample_http_server = Inr u"
      by (simp add: http_eval upt_rec HttpServer_onConnection_def establlished_def setContext_def)
    with s(1) that show thesis by (auto simp: http_run_def andThen_eq_Inr simp del: server_step.simps)
  qed
  have i0: "server_inv (\<lambda>_. 0) (http_tcp sample_http_server)"
    using http_run_ok [OF http_sample_start(1), of "[]"] by (simp add: http_allowed_def http_run_def)
  have i1: "server_inv (\<lambda>_. 0) s"
    using http_run_ok [OF http_sample_start(1), of "[?a]"] s(1) al http_allowed_append [of sample_env "[?a]" "[?b]"]
    by (simp del: server_step.simps)
  have n: "next_conn (http_tcp sample_http_server) = 0" by (simp add: http_eval)
  have "server_step sample_env ?cb ?a (http_tcp sample_http_server) = Inr s"
    using s(1) by (auto simp: http_run_def andThen_eq_Inr simp del: server_step.simps)
  from accept_waiting [OF i0 _ this] n have "waiting 0 [] [] s" by simp
  then have "waiting 0 [] [] u" by (rule waiting_other [OF _ _ u]) (simp add: concerns_def)
  moreover have "waiting 1 [] [] u" using accept_waiting [OF i1 _ u] s(2) by simp
  ultimately show thesis using s u that by blast
qed

lemma hello_keeps_alive: "keeps_alive (main_onRequest now icon) (kGet, ''/hello'', kHttp11, [])"
  using sample_hello(1) by (auto simp: keeps_alive_def)

text \<open>
  Two connections. The second one sends two requests, the first of them in two pieces, with a piece
  on the first connection between them.
\<close>

theorem HttpServer_serves_requests_witness:
  "\<exists>t C out1 out2. http_run sample_env
      [Accept (Inr (4, sample_peer)) [], Accept (Inr (5, sample_peer)) [],
       arrival 1 (''GET /hel'', Timestamp 1), arrival 0 (''GET /'', Timestamp 2),
       arrival 1 (''lo HTTP/1.1'' @ crlf @ crlf, Timestamp 3),
       arrival 1 (''GET /hello HTTP/1.1'' @ crlf @ crlf, Timestamp 4)] sample_http_server = Inr t
    \<and> conns t 1 = Some C \<and> sent_log C = out1 @ out2
    \<and> (\<forall>out \<in> {out1, out2}. read_response out
      = Some (''HTTP/1.1 200 OK'', [(''Content-Length'', ''14''), (''Connection'', ''Keep-Alive''),
          (''Content-Type'', ''text/plain''), (''Server'', ''Muduo'')], ''hello, world!'' @ [LF]))"
proof -
  let ?cb = "http_callbacks (httpCallback sample_http_server)" and ?pre = "[Accept (Inr (4, sample_peer)) []]"
    and ?a = "Accept (Inr (5, sample_peer)) []" and ?h = "main_onRequest (Timestamp 0) []"
    and ?p1 = "(''GET /hel'', Timestamp 1)" and ?p2 = "(''lo HTTP/1.1'' @ crlf @ crlf, Timestamp 3)"
    and ?p3 = "(''GET /hello HTTP/1.1'' @ crlf @ crlf, Timestamp 4)" and ?p0 = "(''GET /'', Timestamp 2)"
  let ?ops = "[arrival 1 ?p1, arrival 0 ?p0, arrival 1 ?p2, arrival 1 ?p3]"
  let ?x = "(kGet, ''/hello'', kHttp11, []) :: client_request" and ?y = "(kGet, ''/'', kHttp11, []) :: client_request"
  have e: "request_text ?x = ''GET /hello HTTP/1.1'' @ crlf @ crlf" "request_text ?y = ''GET / HTTP/1.1'' @ crlf @ crlf"
    by (simp_all add: render_request_def methodString_def version_digit_def)
  have ok: "request_ok ?x" "request_ok ?y"
    using e by (simp_all add: crlf_def)
  have h: "httpCallback sample_http_server = ?h" by (rule http_sample_start(2))
  obtain s u where s: "http_run sample_env ?pre sample_http_server = Inr s" "next_conn s = 1"
    "server_step sample_env ?cb ?a s = Inr u" "waiting 0 [] [] u" "waiting 1 [] [] u"
    by (rule http_sample_accepted)
  obtain u1 where u1: "server_step sample_env ?cb (arrival 1 ?p1) u = Inr u1"
    by (rule waiting_piece_returns [OF s(5) _ _ ok(1), of "''GET /hel''" "''lo HTTP/1.1'' @ crlf @ crlf"])
      (use e(1) in simp_all)
  have w1: "waiting 1 ''GET /hel'' [] u1"
    using waiting_piece [OF s(5) _ _ ok(1) u1, of "''lo HTTP/1.1'' @ crlf @ crlf"] e(1) by simp
  have "waiting 0 [] [] u1" by (rule waiting_other [OF s(4) _ u1]) (simp add: concerns_def arrival_def)
  then obtain u2 where u2: "server_step sample_env ?cb (arrival 0 ?p0) u1 = Inr u2"
    by (rule waiting_piece_returns [where bs = "''GET /''" and q = "'' HTTP/1.1'' @ crlf @ crlf", OF _ _ _ ok(2)])
      (use e(2) in simp_all)
  have w2: "waiting 1 ''GET /hel'' [] u2" by (rule waiting_other [OF w1 _ u2]) (simp add: concerns_def arrival_def)
  obtain u3 where u3: "server_step sample_env ?cb (arrival 1 ?p2) u2 = Inr u3"
    by (rule waiting_piece_returns [OF w2 _ _ ok(1), of "''lo HTTP/1.1'' @ crlf @ crlf" "[]"]) (use e(1) in simp_all)
  obtain out where w3: "waiting 1 [] out u3"
    using waiting_piece [OF w2 _ _ ok(1) u3, of "[]"] e(1) hello_keeps_alive [of "Timestamp 0" "[]"]
    by (auto simp: served_def keeps_alive_def h)
  obtain t where t: "server_step sample_env ?cb (arrival 1 ?p3) u3 = Inr t"
    by (rule waiting_piece_returns [OF w3 _ _ ok(1), of "''GET /hello HTTP/1.1'' @ crlf @ crlf" "[]"])
      (use e(1) in simp_all)
  have run: "http_run sample_env (?pre @ ?a # ?ops) sample_http_server = Inr t"
    using s(1,3) u1 u2 u3 t unfolding http_run_append by (simp del: server_step.simps)
  have al: "http_allowed sample_env (?pre @ ?a # ?ops) sample_http_server"
    using s(1,3) u1 u2 u3 t unfolding http_allowed_append
    by (simp add: http_allowed_def op_allowed_def arrival_def del: server_step.simps split: sum.splits)
  have f: "filter (concerns (next_conn s)) ?ops = map (arrival (next_conn s)) (concat [[?p1, ?p2]] @ [?p3])"
    by (simp add: s(2) concerns_def arrival_def)
  have m: "map (\<lambda>ps. concat (map fst ps)) [[?p1, ?p2]] = map request_text [?x]" using e(1) by simp
  have l: "concat (map fst [?p3]) @ [] = request_text ?x" using e(1) by simp
  obtain C rs r where C: "conns t 1 = Some C" "list_all2 represents [?x] rs" "represents ?x r"
    "sent_log C = concat (map (response_bytes ?h) rs) @ response_bytes ?h r"
    using HttpServer_serves_requests [OF http_sample_start(1) al s(1) run f _ m l] ok(1)
      hello_keeps_alive [of "Timestamp 0" "[]"] by (auto simp: s(2))
  obtain r1 where r1: "rs = [r1]" "represents ?x r1" using C(2) by (cases rs) auto
  have page: "read_response (response_bytes ?h r) = Some (''HTTP/1.1 200 OK'', [(''Content-Length'', ''14''),
      (''Connection'', ''Keep-Alive''), (''Content-Type'', ''text/plain''), (''Server'', ''Muduo'')], ''hello, world!'' @ [LF])"
    if "represents ?x r" for r
    using sample_hello(2) [of r "Timestamp 0" "[]"] that by (simp add: response_bytes_def)
  have run': "http_run sample_env (?pre @ ?a # ?ops) sample_http_server
      = http_run sample_env ([Accept (Inr (4, sample_peer)) [], ?a] @ ?ops) sample_http_server" by simp
  show ?thesis
    by (rule exI [of _ t], rule exI [of _ C], rule exI [of _ "response_bytes ?h r1"], rule exI [of _ "response_bytes ?h r"])
      (use run [unfolded run'] C(1,4) r1 page [OF r1(2)] page [OF C(3)] in simp)
qed

text \<open>
  C39. The window before the connection callback. \<open>connectionEstablish\<close> runs in the base loop and
  registers the channel with the loop of the connection before it calls the connection callback,
  which sets the context. A request that is there already can be read by that other loop in
  between: the handler reads it and calls \<open>onMessage\<close>, which follows the null pointer that
  \<open>any_cast\<close> gives for an empty context; and so it does when \<open>state_\<close> is set already.
\<close>

theorem HttpServer_request_before_callback:
  assumes "0 \<le> fd" and "complete bs" and "length bs \<le> 1024"
    and "C = TcpConnection_establishChannel (TcpConnection_new c loop name fd local peer writes)"
    and "D = C \<or> D = C\<lparr>conn_state := kConnected\<rparr>"
  shows "TcpConnection_connectionEstablish (TcpConnection_new c loop name fd local peer writes)
      = (C\<lparr>conn_state := kConnected\<rparr>, [Call ConnectionCallback])
    \<and> registered D \<and> conn_loop D = loop
    \<and> (\<exists>D'. run_handler loop (ReadBytes bs) now HandleRead D = Inr (D', [Call (MessageCallback now)])
      \<and> http_callbacks h (MessageCallback now) D' = Inl NullPointer)"
proof -
  have e: "TcpConnection_connectionEstablish (TcpConnection_new c loop name fd local peer writes)
      = (C\<lparr>conn_state := kConnected\<rparr>, [Call ConnectionCallback])"
    by (simp add: assms(4) TcpConnection_connectionEstablish_def Let_def)
  then have C: "established c loop name fd local peer writes = C\<lparr>conn_state := kConnected\<rparr>"
    by (simp add: established_def)
  have "conn_inv (C\<lparr>conn_state := kConnected\<rparr>)" using established_inv [OF assms(1), where 'x = HttpContext] by (simp add: C [symmetric])
  then have r: "registered D"
    using assms(5) by (auto simp: conn_inv_def listening_def chan_inv_def in_step_def registered_def)
  have D: "conn_loop D = loop" "inBuffer D = Buffer_new DEFAULTINITSIZE" "conn_context D = None"
    using assms(5) by (auto simp: assms(4) TcpConnection_establishChannel_def TcpConnection_new_def Let_def)
  let ?b = "Buffer_append bs (Buffer_new DEFAULTINITSIZE)"
  obtain p where p: "bs = p @ crlf @ crlf" using assms(2) by (auto simp: complete_def)
  obtain n err b where f: "Buffer_readFd (ReadBytes bs) (Buffer_new DEFAULTINITSIZE) = (n, err, b)"
    by (cases "Buffer_readFd (ReadBytes bs) (Buffer_new DEFAULTINITSIZE)")
  have "n = int (length bs)" "b = ?b"
    using readFd_count [of bs "Buffer_new DEFAULTINITSIZE"] readFd_fitting [OF _ new_fits [OF assms(3), of DEFAULTINITSIZE]] by (simp_all add: f)
  with f p have h: "run_handler loop (ReadBytes bs) now HandleRead D = Inr (D\<lparr>inBuffer := ?b\<rparr>, [Call (MessageCallback now)])"
    by (simp add: TcpConnection_handleRead_def D(2) crlf_def)
  have "Buffer_inv ?b" "contents ?b = p @ crlf @ crlf"
    using append_fitting(2) [OF _ new_fits [OF assms(3)]] assms(3) by (simp_all add: p)
  from last_four [OF this] have "http_callbacks h (MessageCallback now) (D\<lparr>inBuffer := ?b\<rparr>) = Inl NullPointer"
    by (simp add: HttpServer_onMessage_def Let_def D(3))
  with e r D(1) h show ?thesis by blast
qed

theorem HttpServer_request_before_callback_witness:
  "\<exists>D'. run_handler 100 (ReadBytes (''GET /'' @ crlf @ crlf)) (Timestamp 1) HandleRead
        (TcpConnection_establishChannel (TcpConnection_new 0 100 ''dummy#0'' 5 no_addr no_addr []))
      = Inr (D', [Call (MessageCallback (Timestamp 1))])
    \<and> http_callbacks defaultHttpCallback (MessageCallback (Timestamp 1)) D' = Inl NullPointer"
proof -
  have "complete (''GET /'' @ crlf @ crlf)" unfolding complete_def by blast
  from HttpServer_request_before_callback [OF _ this _ refl disjI1 [OF refl], of 5 0 100 "''dummy#0''" no_addr no_addr "[]"]
  show ?thesis by (simp add: crlf_def del: http_callbacks.simps run_handler.simps)
qed

end
