(* ===== verification/Example_Server.thy ===== *)
theory Example_Server
  imports Http_Traffic C_Strings
begin

text \<open>
  The program of \<open>test/main.cpp\<close>: an HTTP server with three pages. Its handler of requests,
  \<open>onRequest\<close>, is in \<open>Http_Server\<close>; here are the icon, \<open>main\<close>, and what clients get. The clock is
  an argument: the time \<open>Timestamp::now()\<close> returns while a request is handled, given the time at
  which it was received. The output to the console is left out.
\<close>

section \<open>The program\<close>

definition favicon :: string where
  "favicon =
     [CHR 0x89, CHR ''P'', CHR ''N'', CHR ''G'', CHR 0x0D, CHR 0x0A, CHR 0x1A, CHR 0x0A,
      CHR 0x00, CHR 0x00, CHR 0x00, CHR 0x0D, CHR ''I'', CHR ''H'', CHR ''D'', CHR ''R'',
      CHR 0x00, CHR 0x00, CHR 0x00, CHR 0x10, CHR 0x00, CHR 0x00, CHR 0x00, CHR 0x10,
      CHR 0x08, CHR 0x06, CHR 0x00, CHR 0x00, CHR 0x00, CHR 0x1F, CHR 0xF3, CHR 0xFF,
      CHR ''a'', CHR 0x00, CHR 0x00, CHR 0x00, CHR 0x19, CHR ''t'', CHR ''E'', CHR ''X'',
      CHR ''t'', CHR ''S'', CHR ''o'', CHR ''f'', CHR ''t'', CHR ''w'', CHR ''a'', CHR ''r'',
      CHR ''e'', CHR 0x00, CHR ''A'', CHR ''d'', CHR ''o'', CHR ''b'', CHR ''e'', CHR 0x20,
      CHR ''I'', CHR ''m'', CHR ''a'', CHR ''g'', CHR ''e'', CHR ''R'', CHR ''e'', CHR ''a'',
      CHR ''d'', CHR ''y'', CHR ''q'', CHR 0xC9, CHR ''e'', CHR 0x3C, CHR 0x00, CHR 0x00,
      CHR 0x01, CHR 0xCD, CHR ''I'', CHR ''D'', CHR ''A'', CHR ''T'', CHR ''x'', CHR 0xDA,
      CHR 0x94, CHR 0x93, CHR ''9'', CHR ''H'', CHR 0x03, CHR ''A'', CHR 0x14, CHR 0x86,
      CHR 0xFF, CHR 0x5D, CHR ''b'', CHR 0xA7, CHR 0x04, CHR ''R'', CHR 0xC4, CHR ''m'',
      CHR 0x22, CHR 0x1E, CHR 0xA0, CHR ''F'', CHR 0x24, CHR 0x08, CHR 0x16, CHR 0x16,
      CHR ''v'', CHR 0x0A, CHR ''6'', CHR 0xBA, CHR ''J'', CHR 0x9A, CHR 0x80, CHR 0x08,
      CHR ''A'', CHR 0xB4, CHR ''q'', CHR 0x85, CHR ''X'', CHR 0x89, CHR ''G'', CHR 0xB0,
      CHR ''I'', CHR 0xA9, CHR ''Q'', CHR 0x24, CHR 0xCD, CHR 0xA6, CHR 0x08, CHR 0xA4,
      CHR ''H'', CHR ''c'', CHR 0x91, CHR ''B'', CHR 0x0B, CHR 0xAF, CHR ''V'', CHR 0xC1,
      CHR ''F'', CHR 0xB4, CHR 0x15, CHR 0xCF, CHR 0x22, CHR ''X'', CHR 0x98, CHR 0x0B,
      CHR ''T'', CHR ''H'', CHR 0x8A, CHR ''d'', CHR 0x93, CHR 0x8D, CHR 0xFB, CHR ''F'',
      CHR ''g'', CHR 0xC9, CHR 0x1A, CHR 0x14, CHR 0x7D, CHR 0xF0, CHR ''f'', CHR ''v'',
      CHR ''f'', CHR 0xDF, CHR 0x7C, CHR 0xEF, CHR 0xE7, CHR ''g'', CHR ''F'', CHR 0xA8,
      CHR 0xD5, CHR ''j'', CHR ''H'', CHR 0x24, CHR 0x12, CHR 0x2A, CHR 0x00, CHR 0x05,
      CHR 0xBF, CHR ''G'', CHR 0xD4, CHR 0xEF, CHR 0xF7, CHR 0x2F, CHR ''6'', CHR 0xEC,
      CHR 0x12, CHR 0x20, CHR 0x1E, CHR 0x8F, CHR 0xD7, CHR 0xAA, CHR 0xD5, CHR 0xEA,
      CHR 0xAF, CHR ''I'', CHR ''5'', CHR ''F'', CHR 0xAA, CHR ''T'', CHR 0x5F, CHR 0x9F,
      CHR 0x22, CHR ''A'', CHR 0x2A, CHR 0x95, CHR 0x0A, CHR 0x83, CHR 0xE5, CHR ''r'',
      CHR ''9'', CHR ''d'', CHR 0xB3, CHR ''Y'', CHR 0x96, CHR 0x99, CHR ''L'', CHR 0x06,
      CHR 0xE9, CHR ''t'', CHR 0x9A, CHR 0x25, CHR 0x85, CHR 0x2C, CHR 0xCB, CHR ''T'',
      CHR 0xA7, CHR 0xC4, CHR ''b'', CHR ''1'', CHR 0xB5, CHR 0x5E, CHR 0x00, CHR 0x03,
      CHR ''h'', CHR 0x9A, CHR 0xC6, CHR 0x16, CHR 0x82, CHR 0x20, CHR ''X'', CHR ''R'',
      CHR 0x14, CHR ''E'', CHR ''6'', CHR ''S'', CHR 0x94, CHR 0xCB, CHR ''e'', CHR ''x'',
      CHR 0xBD, CHR 0x5E, CHR 0xAA, CHR ''U'', CHR ''T'', CHR 0x23, CHR ''L'', CHR 0xC0,
      CHR 0xE0, CHR 0xE2, CHR 0xC1, CHR 0x8F, CHR 0x00, CHR 0x9E, CHR 0xBC, CHR 0x09,
      CHR ''A'', CHR 0x7C, CHR 0x3E, CHR 0x1F, CHR 0x83, CHR ''D'', CHR 0x22, CHR 0x11,
      CHR 0xD5, CHR ''T'', CHR 0x40, CHR 0x3F, CHR ''8'', CHR 0x80, CHR ''w'', CHR 0xE5,
      CHR ''3'', CHR 0x07, CHR 0xB8, CHR 0x5C, CHR 0x2E, CHR ''H'', CHR 0x92, CHR 0x04,
      CHR 0x87, CHR 0xC3, CHR 0x81, CHR 0x40, CHR 0x20, CHR 0x40, CHR ''g'', CHR 0x98,
      CHR 0xE9, CHR ''6'', CHR 0x1A, CHR 0xA6, CHR ''g'', CHR 0x15, CHR 0x04, CHR 0xE3,
      CHR 0xD7, CHR 0xC8, CHR 0xBD, CHR 0x15, CHR 0xE1, CHR ''i'', CHR 0xB7, CHR ''C'',
      CHR 0xAB, CHR 0xEA, CHR ''x'', CHR 0x2F, CHR ''j'', CHR ''X'', CHR 0x92, CHR 0xBB,
      CHR 0x18, CHR 0x20, CHR 0x9F, CHR 0xCF, CHR ''3'', CHR 0xC3, CHR 0xB8, CHR 0xE9,
      CHR ''N'', CHR 0xA7, CHR 0xD3, CHR ''l'', CHR ''J'', CHR 0x00, CHR ''i'', CHR ''6'',
      CHR 0x7C, CHR 0x8E, CHR 0xE1, CHR 0xFE, CHR ''V'', CHR 0x84, CHR 0xE7, CHR 0x3C,
      CHR 0x9F, CHR ''r'', CHR 0x2B, CHR 0x3A, CHR ''B'', CHR 0x7B, CHR ''7'', CHR ''f'',
      CHR ''w'', CHR 0xAE, CHR 0x8E, CHR 0x0E, CHR 0xF3, CHR 0xBD, CHR ''R'', CHR 0xA9,
      CHR ''d'', CHR 0x02, CHR ''B'', CHR 0xAF, CHR 0x85, CHR ''2'', CHR ''f'', CHR ''F'',
      CHR 0xBA, CHR 0x0C, CHR 0xD9, CHR 0x9F, CHR 0x1D, CHR 0x9A, CHR ''l'', CHR 0x22,
      CHR 0xE6, CHR 0xC7, CHR 0x3A, CHR 0x2C, CHR 0x80, CHR 0xEF, CHR 0xC1, CHR 0x15,
      CHR 0x90, CHR 0x07, CHR 0x93, CHR 0xA2, CHR 0x28, CHR 0xA0, CHR ''S'', CHR ''j'',
      CHR 0xB1, CHR 0xB8, CHR 0xDF, CHR 0x29, CHR ''5'', CHR ''C'', CHR 0x0E, CHR 0x3F,
      CHR ''X'', CHR 0xFC, CHR 0x98, CHR 0xDA, CHR ''y'', CHR ''j'', CHR ''P'', CHR 0x40,
      CHR 0x00, CHR 0x87, CHR 0xAE, CHR 0x1B, CHR 0x17, CHR ''B'', CHR 0xB4, CHR 0x3A,
      CHR 0x3F, CHR 0xBE, CHR ''y'', CHR 0xC7, CHR 0x0A, CHR 0x26, CHR 0xB6, CHR 0xEE,
      CHR 0xD9, CHR 0x9A, CHR 0x60, CHR 0x14, CHR 0x93, CHR 0xDB, CHR 0x8F, CHR 0x0D,
      CHR 0x0A, CHR 0x2E, CHR 0xE9, CHR 0x23, CHR 0x95, CHR 0x29, CHR ''X'', CHR 0x00,
      CHR 0x27, CHR 0xEB, CHR ''n'', CHR ''V'', CHR ''p'', CHR 0xBC, CHR 0xD6, CHR 0xCB,
      CHR 0xD6, CHR ''G'', CHR 0xAB, CHR 0x3D, CHR ''l'', CHR 0x7D, CHR 0xB8, CHR 0xD2,
      CHR 0xDD, CHR 0xA0, CHR 0x60, CHR 0x83, CHR 0xBA, CHR 0xEF, CHR 0x5F, CHR 0xA4,
      CHR 0xEA, CHR 0xCC, CHR 0x02, CHR ''N'', CHR 0xAE, CHR 0x5E, CHR ''p'', CHR 0x1A,
      CHR 0xEC, CHR 0xB3, CHR 0x40, CHR ''9'', CHR 0xAC, CHR 0xFE, CHR 0xF2, CHR 0x91,
      CHR 0x89, CHR ''g'', CHR 0x91, CHR 0x85, CHR 0x21, CHR 0xA8, CHR 0x87, CHR 0xB7,
      CHR ''X'', CHR 0x7E, CHR 0x7E, CHR 0x85, CHR 0xBB, CHR 0xCD, CHR ''N'', CHR ''N'',
      CHR ''b'', CHR ''t'', CHR 0x40, CHR 0xFA, CHR 0x93, CHR 0x89, CHR 0xEC, CHR 0x1E,
      CHR 0xEC, CHR 0x86, CHR 0x02, CHR ''H'', CHR 0x26, CHR 0x93, CHR 0xD0, CHR ''u'',
      CHR 0x1D, CHR 0x7F, CHR 0x09, CHR ''2'', CHR 0x95, CHR 0xBF, CHR 0x1F, CHR 0xDB,
      CHR 0xD7, CHR ''c'', CHR 0x8A, CHR 0x1A, CHR 0xF7, CHR 0x5C, CHR 0xC1, CHR 0xFF,
      CHR 0x22, CHR ''J'', CHR 0xC3, CHR 0x87, CHR 0x00, CHR 0x03, CHR 0x00, CHR ''K'',
      CHR 0xBB, CHR 0xF8, CHR 0xD6, CHR 0x2A, CHR ''v'', CHR 0x98, CHR ''I'', CHR 0x00,
      CHR 0x00, CHR 0x00, CHR 0x00, CHR ''I'', CHR ''E'', CHR ''N'', CHR ''D'', CHR 0xAE,
      CHR ''B'', CHR 0x60, CHR 0x82]"

definition main_handler :: "(Timestamp \<Rightarrow> Timestamp) \<Rightarrow> http_callback" where
  "main_handler clock req resp = main_onRequest (clock (req_receiveTime req)) favicon req resp"

text \<open>The number of threads is the first argument of the program.\<close>

definition main_numThreads :: "string list \<Rightarrow> int res" where
  "main_numThreads argv = (if length argv > 1 then atoi (argv ! 1) else Inr 0)"

text \<open>\<open>main\<close> up to the call of \<open>loop.loop()\<close>; what happens then is a run of the server.\<close>

definition main ::
  "net_env \<Rightarrow> (nat \<Rightarrow> nat) \<Rightarrow> (Timestamp \<Rightarrow> Timestamp) \<Rightarrow> nat \<Rightarrow> nat \<Rightarrow> string list \<Rightarrow> HttpServer res" where
  "main env startLoop clock ptr loop argv =
     andThen (main_numThreads argv) (\<lambda>numThreads.
       let server = HttpServer_new env ptr loop (NetAddr_new (inet_aton env) ''0.0.0.0'' 54321) ''dummy'';
           server = HttpServer_setHttpCallback (main_handler clock) server;
           server = HttpServer_setThreadNum numThreads server
       in HttpServer_start env startLoop loop server)"

text \<open>
  \<open>net/IgnoreSigPipe.h\<close>: before \<open>main\<close> runs, the constructor of a global object sets \<open>SIGPIPE\<close> to be
  ignored. Only then does a write on a connection whose peer is gone return an error, as the model of
  \<open>write\<close> in \<open>Tcp_Connection\<close> has it; otherwise the kernel kills the process.
\<close>

datatype disposition = SIG_DFL | SIG_IGN

record process =
  sigpipe :: disposition

definition IgnoreSigPipe_construct :: "process \<Rightarrow> process" where
  "IgnoreSigPipe_construct p = p\<lparr>sigpipe := SIG_IGN\<rparr>"

text \<open>What the kernel does when a process writes to a connection whose peer is gone.\<close>

definition broken_write :: "process \<Rightarrow> write_result res" where
  "broken_write p = (case sigpipe p of SIG_DFL \<Rightarrow> Inl ProcessAbort | SIG_IGN \<Rightarrow> Inr (WriteErr 32))"

lemma IgnoreSigPipe_survives: "broken_write (IgnoreSigPipe_construct p) = Inr (WriteErr 32)"
  by (simp add: broken_write_def IgnoreSigPipe_construct_def)

section \<open>The pages\<close>

definition page_close :: "Version \<Rightarrow> (string \<times> string) list \<Rightarrow> bool" where
  "page_close v hs =
     (let c = (case map_of (rev hs) ''Connection'' of None \<Rightarrow> [] | Some x \<Rightarrow> x)
      in c = ''close'' \<or> v = kHttp10 \<and> c \<noteq> ''Keep-Alive'')"

definition framing :: "bool \<Rightarrow> string \<Rightarrow> (string \<times> string) list" where
  "framing close body = (if close then [(''Connection'', ''close'')]
     else [(''Content-Length'', show_nat (length body)), (''Connection'', ''Keep-Alive'')])"

definition main_page :: "Timestamp \<Rightarrow> bool \<Rightarrow> string \<Rightarrow> string \<times> (string \<times> string) list \<times> string" where
  "main_page now close path =
     (if path = ''/'' then
        let body = ''<html><head><title>This is title</title></head>''
            @ ''<body><h1>Hello</h1>Now is '' @ Timestamp_toString now @ ''</body></html>''
        in (''HTTP/1.1 200 OK'', framing close body @ [(''Content-Type'', ''text/html''), (''Server'', ''Muduo'')], body)
      else if path = ''/favicon.ico'' then
        (''HTTP/1.1 200 OK'', framing close favicon @ [(''Content-Type'', ''image/png'')], favicon)
      else if path = ''/hello'' then
        let body = ''hello, world!'' @ [LF]
        in (''HTTP/1.1 200 OK'', framing close body @ [(''Content-Type'', ''text/plain''), (''Server'', ''Muduo'')], body)
      else (''HTTP/1.1 404 Not Found'', [(''Connection'', ''close'')], []))"

lemma length_favicon: "length favicon = 555"
  unfolding favicon_def by (simp only: list.size)

text \<open>The response to a request for a page, read back from its bytes.\<close>

lemma main_response:
  fixes r now
  defines "resp close \<equiv> main_onRequest now favicon r (HttpResponse_new close)"
  shows "resp_body (resp close) = snd (snd (main_page now close (req_path r)))"
    and "status_text (resp close) = fst (main_page now close (req_path r))"
    and "response_fields (resp close) = fst (snd (main_page now close (req_path r)))"
    and "list_all field_ok (resp_headers (resp close))"
    and "resp_statusMessage (resp close) = ''OK'' \<or> resp_statusMessage (resp close) = ''Not Found''"
proof -
  have d: "show_nat 200 = ''200''" "show_nat 404 = ''404''" by code_simp+
  note e = main_onRequest_def setBody_def setContentType_def setStatusMessage_def setStatusCode_def setCloseConnection_def
    HttpResponse_new_def HttpResponse_addHeader_def less_char_def
  show "resp_body (resp close) = snd (snd (main_page now close (req_path r)))"
    by (simp add: resp_def main_page_def e Let_def)
  show "status_text (resp close) = fst (main_page now close (req_path r))"
    by (simp add: resp_def main_page_def e Let_def status_text_def status_value_def show_int_def d)
  show "response_fields (resp close) = fst (snd (main_page now close (req_path r)))"
    by (simp add: resp_def main_page_def e Let_def response_fields_def framing_def)
  show "list_all field_ok (resp_headers (resp close))"
    by (simp add: resp_def e field_ok_def)
  show "resp_statusMessage (resp close) = ''OK'' \<or> resp_statusMessage (resp close) = ''Not Found''"
    by (simp add: resp_def e)
qed

lemma length_toString: "length (Timestamp_toString t) \<le> 30"
  by (simp add: Timestamp_toString_def snprintf_def Let_def)

lemma main_page_short: "length (snd (snd (main_page now close path))) < 10 ^ 3"
  using length_toString [of now] by (simp add: main_page_def Let_def length_favicon)

lemma main_page_head:
  "length (fst (main_page now close path)) \<le> 22"
  "length (concat (map render_header (fst (snd (main_page now close path))))) \<le> 120"
proof -
  have n: "length (show_nat (length (snd (snd (main_page now close path))))) \<le> 3"
    by (rule length_show_nat_le [OF _ main_page_short]) simp
  show "length (fst (main_page now close path)) \<le> 22"
    by (simp add: main_page_def Let_def)
  show "length (concat (map render_header (fst (snd (main_page now close path))))) \<le> 120"
    using n by (auto simp: main_page_def Let_def framing_def render_header_def)
qed

lemma main_page_read:
  "read_response (contents (HttpResponse_appendToBuffer (main_onRequest now favicon r (HttpResponse_new close)) (Buffer_new k)))
    = Some (main_page now close (req_path r))"
proof -
  let ?r = "main_onRequest now favicon r (HttpResponse_new close)" and ?p = "main_page now close (req_path r)"
  note m = main_response [of now r close]
  have b: "length (resp_body ?r) < 10 ^ 13" using main_page_short [of now close "req_path r"] by (simp add: m(1))
  have "length (response_head ?r) \<le> 1024"
    using main_page_head [of now close "req_path r"]
    by (simp add: response_head_fields [OF b] m(2,3) crlf_def)
  moreover have "CR \<notin> set (resp_statusMessage ?r)" using m(5) by auto
  ultimately show ?thesis
    using read_fresh_response [OF _ b _ m(4), of k] by (simp add: m(1-3))
qed

lemma main_response_bytes:
  assumes "req_version r = v" and "\<forall>k. map_find (req_headers r) k = map_of (rev hs) k"
  shows "read_response (response_bytes (main_handler clock) r)
    = Some (main_page (clock (req_receiveTime r)) (page_close v hs) (req_path r))"
proof -
  have "HttpServer_response (main_handler clock) r
      = main_onRequest (clock (req_receiveTime r)) favicon r (HttpResponse_new (page_close v hs))"
    using assms by (simp add: HttpServer_response_def main_handler_def getHeader_def page_close_def Let_def)
  then show ?thesis unfolding response_bytes_def using main_page_read by simp
qed

lemma path_of_target:
  assumes "p @ q = target" and "CHR ''?'' \<notin> set p" and "q = [] \<or> hd q = CHR ''?''"
  shows "p = takeWhile (\<lambda>x. x \<noteq> CHR ''?'') target"
proof -
  have "takeWhile (\<lambda>x. x \<noteq> CHR ''?'') q = []" using assms(3) by (cases q) auto
  moreover have "takeWhile (\<lambda>x. x \<noteq> CHR ''?'') (p @ q) = p @ takeWhile (\<lambda>x. x \<noteq> CHR ''?'') q"
    using assms(2) by (intro takeWhile_append2) auto
  ultimately show ?thesis by (simp add: assms(1))
qed

section \<open>Properties\<close>

text \<open>
  C9. What clients of the example server get. However the program is called and whatever else
  happens to the other connections, in a run that does not fault (in which, as everywhere in \<open>Tcp_Server\<close>, accepts
  succeed and no hang-up is reported for a closed connection) a client whose one well-formed request of at most 1024
  bytes (the size of a new buffer; longer requests in pieces can lose bytes) arrives in any number of pieces, with no
  other event or call on its connection but write events, is sent exactly one response, in which it reads back
  the one of the four pages that belongs to the path of its target: the page with the time, the
  icon, the greeting, or 404; with the status line, the headers in their order, a length or a
  \<open>Connection: close\<close> as the version and the \<open>Connection\<close> header of the request ask for, and the body.
  What the kernel took of the response and what still waits are exactly it, if fewer than 1024 bytes ever waited.
\<close>

theorem main_serves:
  assumes "main env startLoop clock ptr loop argv = Inr S"
    and "http_allowed env (pre @ Accept (Inr (fd, peer)) writes # ops) S"
    and "http_run env pre S = Inr s"
    and "http_run env (pre @ Accept (Inr (fd, peer)) writes # ops) S = Inr t"
    and "filter (concerns (next_conn s)) ops = map (arrival (next_conn s)) ps" and "\<forall>p \<in> set ps. fst p \<noteq> []"
    and "concat (map fst ps) = request_text (m, target, v, hs)" and "request_ok (m, target, v, hs)"
  shows "\<exists>C now. conns t (next_conn s) = Some C
    \<and> read_response (sent_log C)
      = Some (main_page now (page_close v hs) (takeWhile (\<lambda>x. x \<noteq> CHR ''?'') target))
    \<and> (out_peak C < 1024 \<longrightarrow> sock_wire C @ contents (outBuffer C) = sent_log C)"
proof -
  obtain n where n: "HttpServer_start env startLoop loop (HttpServer_setThreadNum n (HttpServer_setHttpCallback (main_handler clock)
      (HttpServer_new env ptr loop (NetAddr_new (inet_aton env) ''0.0.0.0'' 54321) ''dummy''))) = Inr S"
    using assms(1) by (auto simp: main_def andThen_eq_Inr Let_def)
  obtain C r where C: "conns t (next_conn s) = Some C" "represents (m, target, v, hs) r"
    "sent_log C = response_bytes (main_handler clock) r"
    "out_peak C < 1024 \<longrightarrow> sock_wire C @ contents (outBuffer C) = sent_log C"
    using serves_requests [OF n assms(2-4), of "[]" ps "[]" "[]" "(m, target, v, hs)"] assms(5-8)
    by (auto simp del: represents.simps request_ok.simps request_text.simps)
  from main_response_bytes [of r v hs clock] path_of_target [of "req_path r" "req_query r" target] C show ?thesis by auto
qed

text \<open>The icon, asked for by a client of the server with two threads.\<close>

theorem main_serves_witness:
  "\<exists>S t C. main sample_env (\<lambda>i. 100 + i) (\<lambda>x. x) 1 7 [''rabbit'', ''2''] = Inr S
    \<and> http_run sample_env [Accept (Inr (5, sample_peer)) [Wrote 1000],
         arrival 0 (request_text (kGet, ''/favicon.ico?v=1'', kHttp11, [(''Connection'', ''close'')]), Timestamp 1)] S = Inr t
    \<and> conns t 0 = Some C
    \<and> read_response (sent_log C)
      = Some (''HTTP/1.1 200 OK'', [(''Connection'', ''close''), (''Content-Type'', ''image/png'')], favicon)"
proof -
  let ?x = "(kGet, ''/favicon.ico?v=1'', kHttp11, [(''Connection'', ''close'')]) :: client_request"
  let ?bs = "request_text ?x"
  let ?addr = "NetAddr_new (inet_aton sample_env) ''0.0.0.0'' 54321"
  have n: "atoi ''2'' = Inr 2" by code_simp
  obtain S u where S: "main sample_env (\<lambda>i. 100 + i) (\<lambda>x. x) 1 7 [''rabbit'', ''2''] = Inr S"
    "HttpServer_start sample_env (\<lambda>i. 100 + i) 7 (HttpServer_setThreadNum 2
      (HttpServer_setHttpCallback (main_handler (\<lambda>x. x)) (HttpServer_new sample_env 1 7 ?addr ''dummy''))) = Inr S"
    "server_step sample_env (http_callbacks (httpCallback S)) (Accept (Inr (5, sample_peer)) [Wrote 1000]) (http_tcp S) = Inr u"
    "next_conn (http_tcp S) = 0"
    by (simp add: main_def main_numThreads_def n http_eval upt_rec HttpServer_onConnection_def establlished_def setContext_def)
  have ok: "request_ok ?x"
    by (simp add: render_request_def render_header_def methodString_def crlf_def header_ok_def isspace_def)
  obtain t where t: "http_run sample_env ([] @ Accept (Inr (5, sample_peer)) [Wrote 1000] # [arrival 0 (?bs, Timestamp 1)]) S = Inr t"
    "http_allowed sample_env ([] @ Accept (Inr (5, sample_peer)) [Wrote 1000] # [arrival 0 (?bs, Timestamp 1)]) S"
    by (rule lone_client [OF S(2) _ S(3,4) ok, of "Timestamp 1"]) simp_all
  have s: "http_run sample_env [] S = Inr (http_tcp S)" by (simp add: http_run_def)
  have ne: "?bs \<noteq> []" using request_text_long [of ?x] by auto
  obtain C now where "conns t 0 = Some C" "read_response (sent_log C)
      = Some (main_page now (page_close kHttp11 [(''Connection'', ''close'')]) (takeWhile (\<lambda>x. x \<noteq> CHR ''?'') ''/favicon.ico?v=1''))"
    using main_serves [OF S(1) t(2) s t(1) _ _ _ ok, of "[(?bs, Timestamp 1)]"] ne
    by (auto simp: S(4) concerns_def arrival_def simp del: request_text.simps)
  then show ?thesis
    using S(1) t(1) by (intro exI [of _ S] exI [of _ t] exI [of _ C])
      (simp add: main_page_def framing_def page_close_def del: request_text.simps)
qed

end
