(* ===== verification/Spec2Isabelle.thy ===== *)
theory Spec2Isabelle
  imports Byte_Buffer Std_Map Timestamps Http_Context Http_Response Timer_Queue Channels Event_Loop
    Thread_Pool Net_Addr Sockets Tcp_Connection Tcp_Closing Tcp_Accept Http_Server Http_Util_Requests Http_Util_Memory Thread_Lifetime Loop_Thread Loop_Setup
    Http_Traffic Example_Server
begin

text \<open>
  A verification of RabbitServer, a C++ network library in the style of muduo: loops that wait for
  events with \<open>epoll\<close>, one per thread; TCP connections distributed over the loops; an HTTP server
  on top; and, beside it, a header with a second set of HTTP classes.

  The program and the theories.

  \<^item> \<open>net/Buffer\<close>: \<open>Byte_Buffer\<close>. The record \<open>Buffer\<close> has the whole memory block of the vector, its
    size and the two indices; one definition per member function. \<open>readv\<close> is an argument.
  \<^item> \<open>net/Timestamp\<close>, \<open>net/Timer\<close>, \<open>net/TimerQueue\<close>: \<open>Timestamps\<close> and \<open>Timer_Queue\<close>, with an explicit
    heap of timers, so that following a deleted timer is a fault.
  \<^item> \<open>net/Channel\<close>, \<open>net/Poller\<close>: \<open>Channels\<close>. An \<open>epoll\<close> instance is the map from descriptors to masks
    that the kernel keeps.
  \<^item> \<open>net/EventLoop\<close>: \<open>Event_Loop\<close> is the running loop with the threads that call it, a step relation
    with one step per access to shared state; \<open>Loop_Setup\<close> is its construction and destruction.
  \<^item> \<open>base/Thread\<close>, \<open>base/Mutex.h\<close>, \<open>base/Condtion.h\<close>, \<open>base/Condition.cpp\<close>: \<open>Threads\<close>. Operations are
    split where they block. \<open>Thread_Lifetime\<close> has the memory a \<open>Thread\<close> shares with its running thread.
  \<^item> \<open>net/EventLoopThread\<close>, \<open>net/EventLoopThreadPool\<close>: \<open>Loop_Thread\<close>, the handshake of two threads around
    the loop of \<open>Event_Loop\<close>, and \<open>Thread_Pool\<close>.
  \<^item> \<open>net/NetAddr\<close>, \<open>net/Socket\<close>, \<open>net/Acceptor\<close>: \<open>Net_Addr\<close> and \<open>Sockets\<close>, with the options the kernel
    keeps of a socket; what system calls return is an argument.
  \<^item> \<open>net/TcpConnection\<close>: \<open>Tcp_Connection\<close>. The handlers of the channel, the functors and the calls of the
    user, over the channel, both buffers and the answers of the kernel. What a handler asks others
    to do (a callback, a functor for a loop) is a list of effects, in order.
  \<^item> \<open>net/TcpServer\<close>, \<open>Acceptor::handleRead\<close>, \<open>base/CallBacks.h\<close>: \<open>Tcp_Server\<close>. A server, its loops with
    their queues of functors and a store of connections; a step is an event, a functor or a call.
    The callbacks of the user are a function, so that \<open>Http_Server\<close> can plug in its own. \<open>Tcp_Closing\<close> is about
    the way from a call of \<open>closeConnection\<close> to the table; \<open>Tcp_Accept\<close> takes \<open>newConnetion\<close>, one step in
    \<open>Tcp_Server\<close>, apart into the steps between which the other loops run.
  \<^item> \<open>HTTP/HttpRequest.h\<close>, \<open>HTTP/HttpContext\<close>, \<open>HTTP/HttpResponse\<close>, \<open>HTTP/HttpServer\<close>: \<open>Http_Request\<close>,
    \<open>Http_Context\<close>, \<open>Http_Response\<close>, \<open>Http_Server\<close>. \<open>Http_Traffic\<close> puts a client's conversation among any
    other traffic of the server: a step of another connection leaves this one as it is.
  \<^item> \<open>test/main.cpp\<close> and \<open>base/IgnoreSigPipe.h\<close>: \<open>Example_Server\<close>, the program that the rest is linked into.
  \<^item> \<open>http/http_util.h\<close>: \<open>C_Strings\<close> has the functions of the C library it uses, \<open>Http_Maker\<close> the classes
    that write messages, \<open>Http_Util_Parser\<close> those that parse them, \<open>Http_Util_Requests\<close> puts the two together.
    \<open>Http_Util_Memory\<close> has the parser of the header fields as it writes into the caller's message.
  \<^item> \<open>Rabbit_Prelude\<close> has the faults, results and string algorithms the others share, \<open>Std_Map\<close> the
    ordered containers.

  Conventions. A function keeps the name of the source, with the class in front where names clash.
  An operation that can fault returns a sum, a fault or a result: a failed assertion (the program
  is built with assertions), an access outside a block, a null or dangling pointer, an exception
  nobody catches, overflow of \<open>int\<close>, a loop without end, \<open>abort\<close>. So freedom from faults is a theorem
  and not an assumption. Masks, ports and counters are words of their width; sizes and indices
  that cannot overflow before memory runs out are numbers.

  What is proved.

  \<^item> Buffers: the contents after every operation, also on the branches where the vector grows behind
    its elements and bytes are lost; while that does not happen, a buffer refines a queue of bytes.
    The locales \<open>byte_sink\<close>, \<open>exact_sink\<close> and \<open>line_source\<close> state what the serialiser and the parser
    need of a buffer, and are interpreted on the model of \<open>net/Buffer\<close>.
  \<^item> HTTP: \<open>parseRequest\<close> on a buffer refines a parser on lists of bytes, returns on exactly the states
    described, gives the same result for a request in pieces, and reads back every request that
    is rendered; responses can be read back; the parser of \<open>http_util.h\<close> is inverse to its makers,
    for \<open>GET\<close> and for \<open>POST\<close> and messages whose parts are plain (no NUL byte and no apostrophe, among
    others), with the inputs on which that parser crashes or loops for ever.
  \<^item> Loops: no wakeup is lost, functors run once and in order, \<open>stop\<close> ends the loop even if no
    descriptor but the event descriptor ever becomes ready (\<open>loop_run\<close>), the timers run
    when they are due and never follow a dangling pointer, channels stay in step with \<open>epoll\<close>; the
    handshake that starts and ends a loop's thread is safe and live, but for the one order of steps
    in which it aborts. A \<open>Thread\<close> may be destroyed at any moment of its thread's life: neither uses
    what the other has freed, and nothing is left over.
  \<^item> Connections: an invariant through every order of events, calls and functors gives that the bytes
    the kernel got and those in the output buffer are those that were sent, that the descriptor is
    registered for writing exactly while there is a backlog, and that closing happens once and comes
    to an end. It is graceful, nothing sent is dropped, unless the peer closes in the meantime:
    a read of 0 bytes closes at once, and \<open>peer_close_drops\<close> is a run that loses its backlog so.
  \<^item> Servers: in every interleaving the table holds exactly the connections that are open or being
    removed. The loops can always run all their functors, and what was closed is then gone from
    it. To take \<open>newConnetion\<close> for one step is justified as long as nothing happens to the new connection
    before its connection callback has run, and two lemmas show what a hang-up before that does. The locale \<open>connection_callbacks\<close> states the contract of the callbacks; it is interpreted
    on the default callbacks and on those of the HTTP server, and gives for the latter that every
    connection always has its parser; where a run of the HTTP server stops with a fault is stated too:
    at a first message of fewer than four bytes, at an assertion of the parser, or when the counter of
    connections overflows. A complete request is answered with the response of its
    handler, and a client that keeps its connection gets the answers to a sequence of requests, each
    in any pieces, in order, whatever the other connections do; the example server answers
    with its pages. A request that is read before the connection callback has run finds no parser.

  Bounds and fuel. No definition has fuel. Loops of the source are structural recursions or have a
  termination proof; the two that need not end are the value \<open>None\<close> of a partial function
  (\<open>parse_loop\<close>) and the fault \<open>InfiniteLoop\<close> (\<open>CHttpParser_parseFirstLine\<close>). Some properties of buffers
  hold only up to 1024 bytes, the initial size of a buffer, since the source loses bytes beyond it;
  the hypotheses say so. That \<open>stop\<close> ends the loop is stated of the one run the loop thread has by
  itself, with a bound on its steps. The other liveness properties state that from every reachable
  state there is a run to the goal, without help from spurious wakeups in \<open>Loop_Thread\<close>.

  Not modelled: \<open>Gettid.h\<close> (a system call), output to the terminal, and destroying a running
  \<open>TcpServer\<close>, which the program never does: \<open>main\<close> does not leave \<open>loop()\<close>. The theories above
  \<open>Tcp_Server\<close> run \<open>newConnetion\<close> as one step, which \<open>Tcp_Accept\<close> justifies; that a message of the new
  connection can come before its callback is the subject of one property of \<open>Http_Traffic\<close>. Atomic
  variables are sequentially consistent. The kernel, the allocator and boost are arguments or are
  taken to behave as documented.
\<close>

end
